(* ===== verification/Prelude.thy ===== *)
theory Prelude
  imports Main "HOL-Library.Word" "HOL-Library.Multiset" "HOL-Library.Monad_Syntax"
begin

text \<open>
  The prelude of the development: the type synonyms for C's integer types, the checked
  array accesses that every component uses (an access outside the block is the value
  \<^term>\<open>None\<close>, which stands for undefined behaviour or a failed \<^verbatim>\<open>assert\<close>), the
  collections of simplification rules, and the generic lemmas on lists, options and words
  that several components share.
\<close>

unbundle bit_operations_syntax

subsection \<open>C integer types\<close>

type_synonym uint8 = "8 word"
type_synonym uint32 = "32 word"
type_synonym uint64 = "64 word"

subsection \<open>Collections of rules\<close>

named_theorems arr_simps \<open>checked array reads and writes\<close>
named_theorems dict_inv_intros \<open>operations that keep the dictionary invariant\<close>

subsection \<open>Checked array accesses\<close>

definition arr_get :: "'a list \<Rightarrow> nat \<Rightarrow> 'a option" where
  "arr_get xs i = (if i < length xs then Some (xs ! i) else None)"

definition arr_set :: "'a list \<Rightarrow> nat \<Rightarrow> 'a \<Rightarrow> 'a list option" where
  "arr_set xs i v = (if i < length xs then Some (xs[i := v]) else None)"

lemma arr_get_in [arr_simps]: "i < length xs \<Longrightarrow> arr_get xs i = Some (xs ! i)"
  by (simp add: arr_get_def)

lemma arr_set_in [arr_simps]: "i < length xs \<Longrightarrow> arr_set xs i v = Some (xs[i := v])"
  by (simp add: arr_set_def)

lemma arr_get_Some_iff: "arr_get xs i = Some x \<longleftrightarrow> i < length xs \<and> xs ! i = x"
  by (auto simp: arr_get_def)

lemma arr_get_None_iff: "arr_get xs i = None \<longleftrightarrow> length xs \<le> i"
  by (auto simp: arr_get_def)

subsection \<open>Conversions of integers\<close>

definition INT_MAX :: nat where
  "INT_MAX = 2 ^ 31 - 1"

text \<open>The assignment of an unsigned long to an int: the low 32 bits, read as signed.\<close>

definition to_int32 :: "nat \<Rightarrow> int" where
  "to_int32 n = signed_take_bit 31 (int n)"

lemma to_int32_small: "n < 2 ^ 31 \<Longrightarrow> to_int32 n = int n"
  by (simp add: to_int32_def signed_take_bit_int_eq_self)

subsection \<open>Loops over a range\<close>

text \<open>\<^verbatim>\<open>for\<close> loops whose body may be undefined.\<close>

fun for_each :: "('i \<Rightarrow> 's \<Rightarrow> 's option) \<Rightarrow> 'i list \<Rightarrow> 's \<Rightarrow> 's option" where
  "for_each body [] s = Some s"
| "for_each body (i # is) s = do { s \<leftarrow> body i s; for_each body is s }"

subsection \<open>Simulation\<close>

text \<open>
  Runs of operations on a state, of their specification, and the condition that every operation of a
  run is allowed where it is called.
\<close>

primrec run_ops :: "('op \<Rightarrow> 's \<Rightarrow> ('s \<times> 'r) option) \<Rightarrow> 'op list \<Rightarrow> 's \<Rightarrow> ('s \<times> 'r list) option" where
  "run_ops step [] s = Some (s, [])"
| "run_ops step (op # ops) s =
     do { (s, r) \<leftarrow> step op s; (s, rs) \<leftarrow> run_ops step ops s; Some (s, r # rs) }"

primrec spec_ops :: "('op \<Rightarrow> 'a \<Rightarrow> 'a \<times> 'r) \<Rightarrow> 'op list \<Rightarrow> 'a \<Rightarrow> 'a \<times> 'r list" where
  "spec_ops spec [] a = (a, [])"
| "spec_ops spec (op # ops) a =
     (let (a', r) = spec op a; (a'', rs) = spec_ops spec ops a' in (a'', r # rs))"

primrec valid_ops :: "('op \<Rightarrow> 'a \<Rightarrow> 'a \<times> 'r) \<Rightarrow> ('op \<Rightarrow> 'a \<Rightarrow> bool) \<Rightarrow> 'op list \<Rightarrow> 'a \<Rightarrow> bool" where
  "valid_ops spec valid [] a = True"
| "valid_ops spec valid (op # ops) a = (valid op a \<and> valid_ops spec valid ops (fst (spec op a)))"

text \<open>An implementation whose every step is one of its specification.\<close>

locale simulation =
  fixes rel :: "'s \<Rightarrow> 'a \<Rightarrow> bool"
    and step :: "'op \<Rightarrow> 's \<Rightarrow> ('s \<times> 'r) option"
    and spec :: "'op \<Rightarrow> 'a \<Rightarrow> 'a \<times> 'r"
    and valid :: "'op \<Rightarrow> 'a \<Rightarrow> bool"
  assumes step_sim:
    "rel s a \<Longrightarrow> valid op a \<Longrightarrow> \<exists>s'. step op s = Some (s', snd (spec op a)) \<and> rel s' (fst (spec op a))"
begin

lemma run_sim:
  "\<lbrakk>rel s a; valid_ops spec valid ops a\<rbrakk> \<Longrightarrow>
     \<exists>s'. run_ops step ops s = Some (s', snd (spec_ops spec ops a)) \<and> rel s' (fst (spec_ops spec ops a))"
proof (induction ops arbitrary: s a)
  case (Cons op ops)
  obtain s1 where 1: "step op s = Some (s1, snd (spec op a))" "rel s1 (fst (spec op a))"
    using step_sim Cons.prems by fastforce
  with Cons obtain s2 where "run_ops step ops s1 = Some (s2, snd (spec_ops spec ops (fst (spec op a))))"
    "rel s2 (fst (spec_ops spec ops (fst (spec op a))))"
    by fastforce
  with 1 show ?case
    by (simp add: case_prod_beta)
qed simp

end

end
