(* ===== verification/Dict.thy ===== *)
theory Dict
  imports Prelude
begin

text \<open>
  The chained hash table with incremental rehashing of \<^verbatim>\<open>redis-3.0/src/dict.c\<close> and
  \<^verbatim>\<open>dict.h\<close>: the data types, every operation that creates, changes, searches or
  frees a dictionary, the invariant, and the refinement to a finite map.

  A dictionary entry is a record with the address the allocator gave it; a chain is the list
  of its entries from the head on, so the \<^verbatim>\<open>next\<close> pointer of an entry is the address of its
  successor in the list. A pointer to an entry is the entry's address, and an address that no
  entry of the dictionary has is dangling. The allocator hands out increasing addresses and
  address 0 is the null pointer. Every operation returns an \<^typ>\<open>'a option\<close>: \<^term>\<open>None\<close> is
  undefined behaviour (a read outside a table, a dangling pointer, a table whose size in bytes
  does not fit 64 bits) or a failed \<^verbatim>\<open>assert\<close>. Destructor calls are recorded as a list of events.
  The private data that the callbacks receive is not kept: no dictionary type of Redis reads it.
\<close>

subsection \<open>Data types\<close>

datatype dict_status = DICT_OK | DICT_ERR

record ('k, 'v) dictEntry =
  de_addr :: nat
  de_key :: 'k
  de_val :: "'v option"

record ('k, 'v) dictType =
  hashFunction :: "'k \<Rightarrow> uint32"
  keyDup :: "('k \<Rightarrow> 'k) option"
  valDup :: "('v \<Rightarrow> 'v) option"
  keyCompare :: "('k \<Rightarrow> 'k \<Rightarrow> bool) option"
  keyDestructor :: bool
  valDestructor :: bool

record ('k, 'v) dictht =
  table_addr :: nat
  table :: "('k, 'v) dictEntry list list"
  ht_size :: nat
  sizemask :: nat
  used :: nat

record ('k, 'v) dict =
  dtype :: "('k, 'v) dictType"
  ht0 :: "('k, 'v) dictht"
  ht1 :: "('k, 'v) dictht"
  rehashidx :: int
  iterators :: int
  next_addr :: nat

text \<open>What a destructor or the progress callback was called with.\<close>

datatype ('k, 'v) dict_event = FreeKey 'k | FreeVal "'v option" | Callback

subsection \<open>The macros of dict.h\<close>

definition DICT_HT_INITIAL_SIZE :: nat where
  "DICT_HT_INITIAL_SIZE = 4"

definition dictFreeVal :: "('k, 'v) dictType \<Rightarrow> ('k, 'v) dictEntry \<Rightarrow> ('k, 'v) dict_event list" where
  "dictFreeVal t e = (if valDestructor t then [FreeVal (de_val e)] else [])"

definition dictFreeKey :: "('k, 'v) dictType \<Rightarrow> ('k, 'v) dictEntry \<Rightarrow> ('k, 'v) dict_event list" where
  "dictFreeKey t e = (if keyDestructor t then [FreeKey (de_key e)] else [])"

definition dupVal :: "('k, 'v) dictType \<Rightarrow> 'v \<Rightarrow> 'v" where
  "dupVal t v = (case valDup t of None \<Rightarrow> v | Some f \<Rightarrow> f v)"

definition dupKey :: "('k, 'v) dictType \<Rightarrow> 'k \<Rightarrow> 'k" where
  "dupKey t k = (case keyDup t of None \<Rightarrow> k | Some f \<Rightarrow> f k)"

definition dictCompareKeys :: "('k, 'v) dictType \<Rightarrow> 'k \<Rightarrow> 'k \<Rightarrow> bool" where
  "dictCompareKeys t k1 k2 = (case keyCompare t of Some f \<Rightarrow> f k1 k2 | None \<Rightarrow> k1 = k2)"

definition dictHashKey :: "('k, 'v) dictType \<Rightarrow> 'k \<Rightarrow> nat" where
  "dictHashKey t k = unat (hashFunction t k)"

definition dictSlots :: "('k, 'v) dict \<Rightarrow> nat" where
  "dictSlots d = ht_size (ht0 d) + ht_size (ht1 d)"

definition dictSize :: "('k, 'v) dict \<Rightarrow> nat" where
  "dictSize d = used (ht0 d) + used (ht1 d)"

definition dictIsRehashing :: "('k, 'v) dict \<Rightarrow> bool" where
  "dictIsRehashing d \<longleftrightarrow> rehashidx d \<noteq> -1"

text \<open>The entries of a table and of a dictionary, in table order.\<close>

definition ht_entries :: "('k, 'v) dictht \<Rightarrow> ('k, 'v) dictEntry list" where
  "ht_entries h = concat (table h)"

definition dict_entries :: "('k, 'v) dict \<Rightarrow> ('k, 'v) dictEntry list" where
  "dict_entries d = ht_entries (ht0 d) @ ht_entries (ht1 d)"

text \<open>Dereferencing a pointer to an entry.\<close>

definition entry_at :: "('k, 'v) dict \<Rightarrow> nat \<Rightarrow> ('k, 'v) dictEntry option" where
  "entry_at d a = List.find (\<lambda>e. de_addr e = a) (dict_entries d)"

text \<open>Writing through a pointer to an entry.\<close>

definition ht_write :: "nat \<Rightarrow> (('k, 'v) dictEntry \<Rightarrow> ('k, 'v) dictEntry) \<Rightarrow>
    ('k, 'v) dictht \<Rightarrow> ('k, 'v) dictht" where
  "ht_write a f h = h\<lparr>table := map (map (\<lambda>e. if de_addr e = a then f e else e)) (table h)\<rparr>"

definition dictSetVal :: "('k, 'v) dict \<Rightarrow> nat \<Rightarrow> 'v \<Rightarrow> ('k, 'v) dict option" where
  "dictSetVal d a v =
     (case entry_at d a of
        None \<Rightarrow> None
      | Some _ \<Rightarrow>
          let f = (\<lambda>e. e\<lparr>de_val := Some (dupVal (dtype d) v)\<rparr>)
          in Some (d\<lparr>ht0 := ht_write a f (ht0 d), ht1 := ht_write a f (ht1 d)\<rparr>))"

definition dictGetVal :: "('k, 'v) dict \<Rightarrow> nat \<Rightarrow> 'v option option" where
  "dictGetVal d a = map_option de_val (entry_at d a)"

definition dictGetKey :: "('k, 'v) dict \<Rightarrow> nat \<Rightarrow> 'k option" where
  "dictGetKey d a = map_option de_key (entry_at d a)"

subsection \<open>Creation, expansion and rehashing\<close>

definition dictReset :: "('k, 'v) dictht" where
  "dictReset = \<lparr>table_addr = 0, table = [], ht_size = 0, sizemask = 0, used = 0\<rparr>"

definition dictInit :: "('k, 'v) dictType \<Rightarrow> ('k, 'v) dict" where
  "dictInit t = \<lparr>dtype = t, ht0 = dictReset, ht1 = dictReset, rehashidx = -1,
     iterators = 0, next_addr = 1\<rparr>"

definition dictCreate :: "('k, 'v) dictType \<Rightarrow> ('k, 'v) dict" where
  "dictCreate t = dictInit t"

definition LONG_MAX :: nat where
  "LONG_MAX = 2 ^ 63 - 1"

text \<open>The loop of \<^verbatim>\<open>_dictNextPower\<close>; the source starts it at 4, never at 0.\<close>

function next_power :: "nat \<Rightarrow> nat \<Rightarrow> nat" where
  "next_power i sz = (if i \<ge> sz \<or> i = 0 then i else next_power (2 * i) sz)"
  by pat_completeness auto
termination
  by (relation "measure (\<lambda>(i, sz). sz - i)") auto

definition dictNextPower :: "nat \<Rightarrow> nat" where
  "dictNextPower sz = (if sz \<ge> LONG_MAX then LONG_MAX else next_power DICT_HT_INITIAL_SIZE sz)"

definition dictExpand :: "('k, 'v) dict \<Rightarrow> nat \<Rightarrow> (('k, 'v) dict \<times> dict_status) option" where
  "dictExpand d sz =
     (let realsize = dictNextPower sz in
      if dictIsRehashing d \<or> used (ht0 d) > sz then Some (d, DICT_ERR)
      else if 2 ^ 64 \<le> realsize * 8 then None
      else
        let n = \<lparr>table_addr = next_addr d, table = replicate realsize [],
                 ht_size = realsize, sizemask = realsize - 1, used = 0\<rparr>;
            d' = d\<lparr>next_addr := Suc (next_addr d)\<rparr>
        in if table_addr (ht0 d) = 0 then Some (d'\<lparr>ht0 := n\<rparr>, DICT_OK)
           else Some (d'\<lparr>ht1 := n, rehashidx := 0\<rparr>, DICT_OK))"

definition dictResize :: "bool \<Rightarrow> ('k, 'v) dict \<Rightarrow> (('k, 'v) dict \<times> dict_status) option" where
  "dictResize dict_can_resize d =
     (if \<not> dict_can_resize \<or> dictIsRehashing d then Some (d, DICT_ERR)
      else
        let minimal = to_int32 (used (ht0 d));
            minimal = (if minimal < int DICT_HT_INITIAL_SIZE then int DICT_HT_INITIAL_SIZE else minimal)
        in dictExpand d (nat minimal))"

text \<open>\<^verbatim>\<open>while(d->ht[0].table[d->rehashidx] == NULL) d->rehashidx++\<close>.\<close>

function skip_empty :: "'a list list \<Rightarrow> nat \<Rightarrow> nat option" where
  "skip_empty tbl i =
     (if i < length tbl then (if tbl ! i = [] then skip_empty tbl (Suc i) else Some i) else None)"
  by pat_completeness auto
termination
  by (relation "measure (\<lambda>(tbl, i). length tbl - i)") auto

declare next_power.simps [simp del] skip_empty.simps [simp del]

text \<open>The inner loop of \<^verbatim>\<open>dictRehash\<close>: move the nodes of one chain to the new table.\<close>

fun move_chain :: "('k, 'v) dictType \<Rightarrow> ('k, 'v) dictEntry list \<Rightarrow> ('k, 'v) dictht \<Rightarrow>
    ('k, 'v) dictht \<Rightarrow> (('k, 'v) dictht \<times> ('k, 'v) dictht) option" where
  "move_chain t [] h0 h1 = Some (h0, h1)"
| "move_chain t (de # nextde) h0 h1 =
     (let h = dictHashKey t (de_key de) AND sizemask h1 in
      do {
        chain \<leftarrow> arr_get (table h1) h;
        move_chain t nextde
          (h0\<lparr>used := used h0 - 1\<rparr>)
          (h1\<lparr>table := (table h1)[h := de # chain], used := used h1 + 1\<rparr>)
      })"

text \<open>One iteration of \<^verbatim>\<open>dictRehash\<close>: either the rehash is over or one bucket moves.\<close>

definition rehash_finish :: "('k, 'v) dict \<Rightarrow> ('k, 'v) dict" where
  "rehash_finish d = d\<lparr>ht0 := ht1 d, ht1 := dictReset, rehashidx := -1\<rparr>"

definition rehash_bucket :: "('k, 'v) dict \<Rightarrow> ('k, 'v) dict option" where
  "rehash_bucket d =
     (if \<not> ht_size (ht0 d) > nat (rehashidx d) then None
      else do {
        i \<leftarrow> skip_empty (table (ht0 d)) (nat (rehashidx d));
        de \<leftarrow> arr_get (table (ht0 d)) i;
        (h0, h1) \<leftarrow> move_chain (dtype d) de (ht0 d) (ht1 d);
        Some (d\<lparr>ht0 := h0\<lparr>table := (table h0)[i := []]\<rparr>, ht1 := h1, rehashidx := int i + 1\<rparr>)
      })"

fun rehash_loop :: "nat \<Rightarrow> ('k, 'v) dict \<Rightarrow> (('k, 'v) dict \<times> bool) option" where
  "rehash_loop 0 d = Some (d, True)"
| "rehash_loop (Suc n) d =
     (if used (ht0 d) = 0 then Some (rehash_finish d, False)
      else do { d' \<leftarrow> rehash_bucket d; rehash_loop n d' })"

definition dictRehash :: "('k, 'v) dict \<Rightarrow> nat \<Rightarrow> (('k, 'v) dict \<times> bool) option" where
  "dictRehash d n = (if \<not> dictIsRehashing d then Some (d, False) else rehash_loop n d)"

text \<open>
  \<^verbatim>\<open>dictRehashMilliseconds\<close>: the clock is a parameter, the reading at the start and the list
  of the readings after each batch of 100 steps.
\<close>

fun rehash_ms_loop :: "int \<Rightarrow> int \<Rightarrow> int list \<Rightarrow> ('k, 'v) dict \<Rightarrow> nat \<Rightarrow>
    (('k, 'v) dict \<times> nat) option" where
  "rehash_ms_loop ms start clock d rehashes =
     (case dictRehash d 100 of
        None \<Rightarrow> None
      | Some (d', again) \<Rightarrow>
          if \<not> again then Some (d', rehashes)
          else (case clock of
                  [] \<Rightarrow> None
                | now # clock' \<Rightarrow>
                    if now - start > ms then Some (d', rehashes + 100)
                    else rehash_ms_loop ms start clock' d' (rehashes + 100)))"

definition dictRehashMilliseconds :: "('k, 'v) dict \<Rightarrow> int \<Rightarrow> int \<Rightarrow> int list \<Rightarrow>
    (('k, 'v) dict \<times> nat) option" where
  "dictRehashMilliseconds d ms start clock = rehash_ms_loop ms start clock d 0"

definition dictRehashStep :: "('k, 'v) dict \<Rightarrow> ('k, 'v) dict option" where
  "dictRehashStep d = (if iterators d = 0 then map_option fst (dictRehash d 1) else Some d)"

text \<open>\<^verbatim>\<open>if (dictIsRehashing(d)) _dictRehashStep(d)\<close>, the first line of most operations.\<close>

definition dictStepIfRehashing :: "('k, 'v) dict \<Rightarrow> ('k, 'v) dict option" where
  "dictStepIfRehashing d = (if dictIsRehashing d then dictRehashStep d else Some d)"

text \<open>The global flag \<^verbatim>\<open>dict_can_resize\<close> and the two functions that set it.\<close>

definition dictEnableResize :: "bool \<Rightarrow> bool" where
  "dictEnableResize dict_can_resize = True"

definition dictDisableResize :: "bool \<Rightarrow> bool" where
  "dictDisableResize dict_can_resize = False"

definition dictExpandIfNeeded :: "bool \<Rightarrow> ('k, 'v) dict \<Rightarrow>
    (('k, 'v) dict \<times> dict_status) option" where
  "dictExpandIfNeeded dict_can_resize d =
     (if dictIsRehashing d then Some (d, DICT_OK)
      else if ht_size (ht0 d) = 0 then dictExpand d DICT_HT_INITIAL_SIZE
      else if used (ht0 d) \<ge> ht_size (ht0 d) \<and>
              (dict_can_resize \<or> used (ht0 d) div ht_size (ht0 d) > 5)
           then dictExpand d (used (ht0 d) * 2)
      else Some (d, DICT_OK))"

subsection \<open>Searching, adding, replacing\<close>

text \<open>
  The body of the loop over the two tables: the chain at the index of the hash value, searched
  from its head.
\<close>

definition ht_find :: "('k, 'v) dictType \<Rightarrow> ('k, 'v) dictht \<Rightarrow> 'k \<Rightarrow>
    ('k, 'v) dictEntry option option" where
  "ht_find t ht key =
     do {
       chain \<leftarrow> arr_get (table ht) (dictHashKey t key AND sizemask ht);
       Some (List.find (\<lambda>he. dictCompareKeys t key (de_key he)) chain)
     }"

text \<open>
  \<^verbatim>\<open>_dictKeyIndex\<close>: the index for a new key, in the second table when a rehash is under way.
  The inner \<^term>\<open>None\<close> is the return value -1.
\<close>

definition dictKeyIndex :: "bool \<Rightarrow> ('k, 'v) dict \<Rightarrow> 'k \<Rightarrow> (('k, 'v) dict \<times> nat option) option" where
  "dictKeyIndex dict_can_resize d0 key =
     do {
       (d, status) \<leftarrow> dictExpandIfNeeded dict_can_resize d0;
       if status = DICT_ERR then Some (d, None)
       else do {
         he0 \<leftarrow> ht_find (dtype d) (ht0 d) key;
         if he0 \<noteq> None then Some (d, None)
         else if \<not> dictIsRehashing d
         then Some (d, Some (dictHashKey (dtype d) key AND sizemask (ht0 d)))
         else do {
           he1 \<leftarrow> ht_find (dtype d) (ht1 d) key;
           if he1 \<noteq> None then Some (d, None)
           else Some (d, Some (dictHashKey (dtype d) key AND sizemask (ht1 d)))
         }
       }
     }"

definition ht_push :: "('k, 'v) dictht \<Rightarrow> nat \<Rightarrow> ('k, 'v) dictEntry \<Rightarrow> ('k, 'v) dictht option" where
  "ht_push ht index entry =
     do {
       chain \<leftarrow> arr_get (table ht) index;
       Some (ht\<lparr>table := (table ht)[index := entry # chain], used := used ht + 1\<rparr>)
     }"

definition dictAddRaw :: "bool \<Rightarrow> ('k, 'v) dict \<Rightarrow> 'k \<Rightarrow> (('k, 'v) dict \<times> nat option) option" where
  "dictAddRaw dict_can_resize d0 key =
     do {
       d1 \<leftarrow> dictStepIfRehashing d0;
       (d, index) \<leftarrow> dictKeyIndex dict_can_resize d1 key;
       case index of
         None \<Rightarrow> Some (d, None)
       | Some i \<Rightarrow>
           let a = next_addr d;
               entry = \<lparr>de_addr = a, de_key = dupKey (dtype d) key, de_val = None\<rparr>
           in if dictIsRehashing d
              then do { h1 \<leftarrow> ht_push (ht1 d) i entry;
                        Some (d\<lparr>ht1 := h1, next_addr := Suc a\<rparr>, Some a) }
              else do { h0 \<leftarrow> ht_push (ht0 d) i entry;
                        Some (d\<lparr>ht0 := h0, next_addr := Suc a\<rparr>, Some a) }
     }"

definition dictAdd :: "bool \<Rightarrow> ('k, 'v) dict \<Rightarrow> 'k \<Rightarrow> 'v \<Rightarrow> (('k, 'v) dict \<times> dict_status) option" where
  "dictAdd dict_can_resize d key val =
     do {
       (d', entry) \<leftarrow> dictAddRaw dict_can_resize d key;
       case entry of
         None \<Rightarrow> Some (d', DICT_ERR)
       | Some a \<Rightarrow> do { d'' \<leftarrow> dictSetVal d' a val; Some (d'', DICT_OK) }
     }"

definition dictFind :: "('k, 'v) dict \<Rightarrow> 'k \<Rightarrow> (('k, 'v) dict \<times> nat option) option" where
  "dictFind d0 key =
     (if ht_size (ht0 d0) = 0 then Some (d0, None)
      else do {
        d \<leftarrow> dictStepIfRehashing d0;
        he0 \<leftarrow> ht_find (dtype d) (ht0 d) key;
        case he0 of
          Some he \<Rightarrow> Some (d, Some (de_addr he))
        | None \<Rightarrow>
            if \<not> dictIsRehashing d then Some (d, None)
            else do {
              he1 \<leftarrow> ht_find (dtype d) (ht1 d) key;
              Some (d, map_option de_addr he1)
            }
      })"

definition dictFetchValue :: "('k, 'v) dict \<Rightarrow> 'k \<Rightarrow> (('k, 'v) dict \<times> 'v option option) option" where
  "dictFetchValue d key =
     do {
       (d', he) \<leftarrow> dictFind d key;
       case he of
         None \<Rightarrow> Some (d', None)
       | Some a \<Rightarrow> do { v \<leftarrow> dictGetVal d' a; Some (d', Some v) }
     }"

text \<open>\<^verbatim>\<open>dictReplace\<close> returns 1 (true) when the key was added and frees the old value otherwise.\<close>

definition dictReplace :: "bool \<Rightarrow> ('k, 'v) dict \<Rightarrow> 'k \<Rightarrow> 'v \<Rightarrow>
    (('k, 'v) dict \<times> bool \<times> ('k, 'v) dict_event list) option" where
  "dictReplace dict_can_resize d key val =
     do {
       (d1, status) \<leftarrow> dictAdd dict_can_resize d key val;
       if status = DICT_OK then Some (d1, True, [])
       else do {
         (d2, entry) \<leftarrow> dictFind d1 key;
         a \<leftarrow> entry;
         auxentry \<leftarrow> entry_at d2 a;
         d3 \<leftarrow> dictSetVal d2 a val;
         Some (d3, False, dictFreeVal (dtype d3) auxentry)
       }
     }"

definition dictReplaceRaw :: "bool \<Rightarrow> ('k, 'v) dict \<Rightarrow> 'k \<Rightarrow> (('k, 'v) dict \<times> nat option) option" where
  "dictReplaceRaw dict_can_resize d key =
     do {
       (d', entry) \<leftarrow> dictFind d key;
       if entry \<noteq> None then Some (d', entry) else dictAddRaw dict_can_resize d' key
     }"

subsection \<open>Deleting and freeing\<close>

fun remove_first :: "('a \<Rightarrow> bool) \<Rightarrow> 'a list \<Rightarrow> 'a list" where
  "remove_first P [] = []"
| "remove_first P (x # xs) = (if P x then xs else x # remove_first P xs)"

text \<open>The body of the loop of \<^verbatim>\<open>dictGenericDelete\<close>: unlink the first matching entry of the chain.\<close>

definition ht_unlink :: "('k, 'v) dictType \<Rightarrow> ('k, 'v) dictht \<Rightarrow> 'k \<Rightarrow> ('k, 'v) dictht" where
  "ht_unlink t ht key =
     (let idx = dictHashKey t key AND sizemask ht
      in ht\<lparr>table := (table ht)[idx := remove_first (\<lambda>he. dictCompareKeys t key (de_key he))
                                        (table ht ! idx)],
            used := used ht - 1\<rparr>)"

definition dictFreeEntry :: "('k, 'v) dictType \<Rightarrow> ('k, 'v) dictEntry \<Rightarrow> ('k, 'v) dict_event list" where
  "dictFreeEntry t e = dictFreeKey t e @ dictFreeVal t e"

definition dictGenericDelete :: "('k, 'v) dict \<Rightarrow> 'k \<Rightarrow> bool \<Rightarrow>
    (('k, 'v) dict \<times> dict_status \<times> ('k, 'v) dict_event list) option" where
  "dictGenericDelete d0 key nofree =
     (if ht_size (ht0 d0) = 0 then Some (d0, DICT_ERR, [])
      else do {
        d \<leftarrow> dictStepIfRehashing d0;
        he0 \<leftarrow> ht_find (dtype d) (ht0 d) key;
        case he0 of
          Some he \<Rightarrow> Some (d\<lparr>ht0 := ht_unlink (dtype d) (ht0 d) key\<rparr>, DICT_OK,
                           if nofree then [] else dictFreeEntry (dtype d) he)
        | None \<Rightarrow>
            if \<not> dictIsRehashing d then Some (d, DICT_ERR, [])
            else do {
              he1 \<leftarrow> ht_find (dtype d) (ht1 d) key;
              case he1 of
                Some he \<Rightarrow> Some (d\<lparr>ht1 := ht_unlink (dtype d) (ht1 d) key\<rparr>, DICT_OK,
                                 if nofree then [] else dictFreeEntry (dtype d) he)
              | None \<Rightarrow> Some (d, DICT_ERR, [])
            }
      })"

definition dictDelete :: "('k, 'v) dict \<Rightarrow> 'k \<Rightarrow>
    (('k, 'v) dict \<times> dict_status \<times> ('k, 'v) dict_event list) option" where
  "dictDelete d key = dictGenericDelete d key False"

definition dictDeleteNoFree :: "('k, 'v) dict \<Rightarrow> 'k \<Rightarrow>
    (('k, 'v) dict \<times> dict_status \<times> ('k, 'v) dict_event list) option" where
  "dictDeleteNoFree d key = dictGenericDelete d key True"

text \<open>\<^verbatim>\<open>_dictClear\<close>: the loop stops at the end of the table or when no entry is left.\<close>

function clear_loop :: "('k, 'v) dictType \<Rightarrow> bool \<Rightarrow> ('k, 'v) dictht \<Rightarrow> nat \<Rightarrow> nat \<Rightarrow>
    ('k, 'v) dict_event list option" where
  "clear_loop t callback ht i left =
     (if i < ht_size ht \<and> left > 0 then
        (case arr_get (table ht) i of
           None \<Rightarrow> None
         | Some chain \<Rightarrow>
             (case clear_loop t callback ht (Suc i) (left - length chain) of
                None \<Rightarrow> None
              | Some events \<Rightarrow>
                  Some ((if callback \<and> i AND 65535 = 0 then [Callback] else [])
                        @ concat (map (dictFreeEntry t) chain) @ events)))
      else Some [])"
  by pat_completeness auto
termination
  by (relation "measure (\<lambda>(t, callback, ht, i, left). ht_size ht - i)") auto

declare clear_loop.simps [simp del]

definition dictClear :: "('k, 'v) dictType \<Rightarrow> ('k, 'v) dictht \<Rightarrow> bool \<Rightarrow>
    (('k, 'v) dictht \<times> ('k, 'v) dict_event list) option" where
  "dictClear t ht callback =
     do { events \<leftarrow> clear_loop t callback ht 0 (used ht); Some (dictReset, events) }"

definition dictEmpty :: "('k, 'v) dict \<Rightarrow> bool \<Rightarrow> (('k, 'v) dict \<times> ('k, 'v) dict_event list) option" where
  "dictEmpty d callback =
     do {
       (h0, ev0) \<leftarrow> dictClear (dtype d) (ht0 d) callback;
       (h1, ev1) \<leftarrow> dictClear (dtype d) (ht1 d) callback;
       Some (d\<lparr>ht0 := h0, ht1 := h1, rehashidx := -1, iterators := 0\<rparr>, ev0 @ ev1)
     }"

text \<open>\<^verbatim>\<open>dictRelease\<close> leaves no dictionary behind, only the calls of the destructors.\<close>

definition dictRelease :: "('k, 'v) dict \<Rightarrow> ('k, 'v) dict_event list option" where
  "dictRelease d =
     do {
       (h0, ev0) \<leftarrow> dictClear (dtype d) (ht0 d) False;
       (h1, ev1) \<leftarrow> dictClear (dtype d) (ht1 d) False;
       Some (ev0 @ ev1)
     }"

end
