(* ===== verification/DictInv.thy ===== *)
theory DictInv
  imports Dict
begin

text \<open>
  The invariant of a dictionary and the proof that the incremental rehash keeps both the
  invariant and the multiset of entries. The laws a dictionary type has to satisfy (its key
  comparison is an equivalence that the hash function respects) are the locale
  \<open>dict_type\<close>.
\<close>

subsection \<open>Well-formed tables\<close>

definition ht_wf :: "('k, 'v) dictType \<Rightarrow> ('k, 'v) dictht \<Rightarrow> bool" where
  "ht_wf t h \<longleftrightarrow>
     length (table h) = ht_size h \<and> used h = length (ht_entries h) \<and>
     (table_addr h = 0 \<longleftrightarrow> ht_size h = 0) \<and>
     (ht_size h = 0 \<or> (\<exists>k. 2 \<le> k \<and> k < 61 \<and> ht_size h = 2 ^ k)) \<and>
     sizemask h = ht_size h - 1 \<and>
     (\<forall>i < length (table h). \<forall>e \<in> set (table h ! i).
        dictHashKey t (de_key e) AND sizemask h = i)"

definition keys_differ :: "('k, 'v) dictType \<Rightarrow> ('k, 'v) dictEntry list \<Rightarrow> bool" where
  "keys_differ t es \<longleftrightarrow> sorted_wrt (\<lambda>a b. \<not> dictCompareKeys t (de_key a) (de_key b)) es"

definition addrs_ok :: "nat \<Rightarrow> ('k, 'v) dictEntry list \<Rightarrow> bool" where
  "addrs_ok n es \<longleftrightarrow> distinct (map de_addr es) \<and> (\<forall>e \<in> set es. 0 < de_addr e \<and> de_addr e < n)"

definition rehash_wf :: "('k, 'v) dict \<Rightarrow> bool" where
  "rehash_wf d \<longleftrightarrow>
     (if dictIsRehashing d
      then ht_size (ht0 d) \<noteq> 0 \<and> ht_size (ht1 d) \<noteq> 0 \<and> 0 \<le> rehashidx d \<and>
           (\<forall>i < length (table (ht0 d)). int i < rehashidx d \<longrightarrow> table (ht0 d) ! i = [])
      else ht1 d = dictReset)"

definition dict_inv :: "('k, 'v) dict \<Rightarrow> bool" where
  "dict_inv d \<longleftrightarrow>
     ht_wf (dtype d) (ht0 d) \<and> ht_wf (dtype d) (ht1 d) \<and> rehash_wf d \<and>
     keys_differ (dtype d) (dict_entries d) \<and> addrs_ok (next_addr d) (dict_entries d) \<and>
     0 < next_addr d \<and> table_addr (ht0 d) < next_addr d \<and> table_addr (ht1 d) < next_addr d"

text \<open>The abstract value: the finite map a dictionary stands for.\<close>

definition dict_map :: "('k, 'v) dict \<Rightarrow> 'k \<Rightarrow> 'v option option" where
  "dict_map d k =
     map_option de_val (List.find (\<lambda>e. dictCompareKeys (dtype d) k (de_key e)) (dict_entries d))"

subsection \<open>Lists of chains\<close>

lemma mset_concat_update:
  "i < length xs \<Longrightarrow> mset (concat (xs[i := y])) + mset (xs ! i) = mset (concat xs) + mset y"
proof (induction xs arbitrary: i)
  case (Cons x xs)
  then show ?case by (cases i) (auto simp: ac_simps)
qed simp

lemma length_concat_update:
  "i < length xs \<Longrightarrow> length (concat (xs[i := y])) + length (xs ! i) = length (concat xs) + length y"
  using mset_concat_update [of i xs y, THEN arg_cong [where f = size]] by simp

lemma nat_and_mask: "(x :: nat) AND (2 ^ k - Suc 0) = x mod 2 ^ k"
  by (metis One_nat_def mask_eq_exp_minus_1 take_bit_eq_mask take_bit_eq_mod)

lemma ht_index_bound: "ht_wf t h \<Longrightarrow> ht_size h \<noteq> 0 \<Longrightarrow> x AND sizemask h < length (table h)"
  by (auto simp: ht_wf_def nat_and_mask)

lemma skip_empty_finds:
  assumes "\<exists>j. i \<le> j \<and> j < length tbl \<and> tbl ! j \<noteq> []"
  obtains n where "skip_empty tbl i = Some n" "i \<le> n" "n < length tbl" "tbl ! n \<noteq> []"
    "\<And>j. i \<le> j \<Longrightarrow> j < n \<Longrightarrow> tbl ! j = []"
  using assms
proof (induction tbl i arbitrary: thesis rule: skip_empty.induct)
  case (1 tbl i)
  from "1.prems"(2) obtain j where j: "i \<le> j" "j < length tbl" "tbl ! j \<noteq> []" by blast
  then have il: "i < length tbl" by simp
  show ?case
  proof (cases "tbl ! i = []")
    case True
    with j have "Suc i \<le> j" by (cases "i = j") auto
    then obtain n where n: "skip_empty tbl (Suc i) = Some n" "Suc i \<le> n" "n < length tbl"
      "tbl ! n \<noteq> []" "\<And>j. Suc i \<le> j \<Longrightarrow> j < n \<Longrightarrow> tbl ! j = []"
      using "1.IH" [OF il True] j by blast
    have "tbl ! j = []" if "i \<le> j" "j < n" for j
      using that True n(5) [of j] by (cases "i = j") auto
    with n True il show ?thesis
      by (intro "1.prems"(1) [of n]) (auto simp: skip_empty.simps [of tbl i])
  next
    case False
    with il show ?thesis
      by (intro "1.prems"(1) [of i]) (auto simp: skip_empty.simps [of tbl i])
  qed
qed

subsection \<open>Adding an entry at the head of its chain\<close>

lemma ht_wf_push:
  fixes h :: "('k, 'v) dictht" and e :: "('k, 'v) dictEntry"
  assumes "ht_wf t h" "ht_size h \<noteq> 0"
  defines "i \<equiv> dictHashKey t (de_key e) AND sizemask h"
  defines "h' \<equiv> h\<lparr>table := (table h)[i := e # table h ! i], used := used h + 1\<rparr>"
  shows "ht_wf t h'" and "mset (ht_entries h') = add_mset e (mset (ht_entries h))"
proof -
  have i: "i < length (table h)"
    using assms(1,2) ht_index_bound unfolding i_def by blast
  show "mset (ht_entries h') = add_mset e (mset (ht_entries h))"
    using mset_concat_update [OF i, of "e # table h ! i"] by (simp add: h'_def ht_entries_def)
  have "length (ht_entries h') = Suc (length (ht_entries h))"
    using length_concat_update [OF i, of "e # table h ! i"] by (simp add: h'_def ht_entries_def)
  moreover have "\<forall>j < length (table h'). \<forall>x \<in> set (table h' ! j).
      dictHashKey t (de_key x) AND sizemask h' = j"
    using assms(1) i i_def by (auto simp: ht_wf_def h'_def nth_list_update split: if_splits)
  ultimately show "ht_wf t h'"
    using assms(1) by (simp add: ht_wf_def h'_def)
qed

lemma ht_wf_clear_chain:
  assumes "ht_wf t h" "i < length (table h)"
  defines "h' \<equiv> h\<lparr>used := used h - length (table h ! i), table := (table h)[i := []]\<rparr>"
  shows "ht_wf t h'" and "mset (ht_entries h') + mset (table h ! i) = mset (ht_entries h)"
proof -
  show "mset (ht_entries h') + mset (table h ! i) = mset (ht_entries h)"
    using mset_concat_update [OF assms(2), of "[]"] by (simp add: h'_def ht_entries_def)
  have "length (ht_entries h') + length (table h ! i) = length (ht_entries h)"
    using length_concat_update [OF assms(2), of "[]"] by (simp add: h'_def ht_entries_def)
  moreover have "\<forall>j < length (table h'). \<forall>x \<in> set (table h' ! j).
      dictHashKey t (de_key x) AND sizemask h' = j"
    using assms(1,2) by (auto simp: ht_wf_def h'_def nth_list_update split: if_splits)
  ultimately show "ht_wf t h'"
    using assms(1) by (simp add: ht_wf_def h'_def)
qed

lemma move_chain_ok:
  assumes "ht_wf t h1" "ht_size h1 \<noteq> 0"
  shows "\<exists>h1'. move_chain t chain h0 h1 = Some (h0\<lparr>used := used h0 - length chain\<rparr>, h1') \<and>
    ht_wf t h1' \<and> ht_size h1' = ht_size h1 \<and> table_addr h1' = table_addr h1 \<and>
    mset (ht_entries h1') = mset chain + mset (ht_entries h1)"
  using assms
proof (induction chain arbitrary: h0 h1)
  case Nil
  then show ?case by simp
next
  case (Cons de nextde)
  let ?i = "dictHashKey t (de_key de) AND sizemask h1"
  let ?h1 = "h1\<lparr>table := (table h1)[?i := de # table h1 ! ?i], used := used h1 + 1\<rparr>"
  have i: "?i < length (table h1)"
    using Cons.prems by (rule ht_index_bound)
  have wf: "ht_wf t ?h1" and m: "mset (ht_entries ?h1) = add_mset de (mset (ht_entries h1))"
    using ht_wf_push [OF Cons.prems] by auto
  from Cons.IH [OF wf, of "h0\<lparr>used := used h0 - 1\<rparr>"] Cons.prems(2) m i show ?case
    by (simp add: Let_def arr_simps)
qed

lemma ht_write_wf: "ht_wf t h \<Longrightarrow> (\<And>e. de_key (f e) = de_key e) \<Longrightarrow> ht_wf t (ht_write a f h)"
  by (auto simp: ht_wf_def ht_write_def ht_entries_def length_concat comp_def sum_list_map_eq_sum_count)

subsection \<open>What a rehash keeps\<close>

definition same_content :: "('k, 'v) dict \<Rightarrow> ('k, 'v) dict \<Rightarrow> bool" where
  "same_content d d' \<longleftrightarrow> dtype d' = dtype d \<and> iterators d' = iterators d \<and>
     next_addr d \<le> next_addr d' \<and> mset (dict_entries d') = mset (dict_entries d)"

lemma same_content_trans: "same_content a b \<Longrightarrow> same_content b c \<Longrightarrow> same_content a c"
  by (simp add: same_content_def)

lemma addrs_ok_perm: "mset es = mset es' \<Longrightarrow> addrs_ok n es = addrs_ok n es'"
  unfolding addrs_ok_def by (metis mset_eq_imp_distinct_iff mset_map set_mset_mset)

lemma addrs_ok_mono: "addrs_ok n es \<Longrightarrow> n \<le> m \<Longrightarrow> addrs_ok m es"
  by (fastforce simp: addrs_ok_def)

lemma same_content_refl [simp]: "same_content d d"
  by (simp add: same_content_def)

lemma ht_wf_reset: "ht_wf t dictReset"
  by (simp add: ht_wf_def dictReset_def ht_entries_def)

lemma dict_size_entries: "dict_inv d \<Longrightarrow> dictSize d = length (dict_entries d)"
  by (simp add: dict_inv_def ht_wf_def dictSize_def dict_entries_def)

lemma same_content_size: "dict_inv d \<Longrightarrow> dict_inv d' \<Longrightarrow> same_content d d' \<Longrightarrow> dictSize d' = dictSize d"
  by (simp add: dict_size_entries same_content_def flip: size_mset)

subsection \<open>The laws of a dictionary type\<close>

locale dict_type =
  fixes t :: "('k, 'v) dictType"
  assumes cmp_refl: "dictCompareKeys t k k"
    and cmp_sym: "dictCompareKeys t a b \<Longrightarrow> dictCompareKeys t b a"
    and cmp_trans: "dictCompareKeys t a b \<Longrightarrow> dictCompareKeys t b c \<Longrightarrow> dictCompareKeys t a c"
    and cmp_hash: "dictCompareKeys t a b \<Longrightarrow> hashFunction t a = hashFunction t b"
    and cmp_dup: "dictCompareKeys t k (dupKey t k)"
begin

lemma cmp_hashKey: "dictCompareKeys t a b \<Longrightarrow> dictHashKey t a = dictHashKey t b"
  by (simp add: dictHashKey_def cmp_hash)

lemma keys_differ_append:
  "keys_differ t (xs @ ys) \<longleftrightarrow> keys_differ t xs \<and> keys_differ t ys \<and>
     (\<forall>x \<in> set xs. \<forall>y \<in> set ys. \<not> dictCompareKeys t (de_key x) (de_key y))"
  by (simp add: keys_differ_def sorted_wrt_append)

text \<open>Keys differ pairwise exactly when their equivalence classes are distinct.\<close>

lemma keys_differ_distinct:
  "keys_differ t es \<longleftrightarrow> distinct (map (\<lambda>e. {k. dictCompareKeys t (de_key e) k}) es)"
proof (induction es)
  case Nil
  then show ?case by (simp add: keys_differ_def)
next
  case (Cons e es)
  have "dictCompareKeys t (de_key e) (de_key x) \<longleftrightarrow>
      {k. dictCompareKeys t (de_key e) k} = {k. dictCompareKeys t (de_key x) k}" for x
    using cmp_refl cmp_sym cmp_trans by blast
  with Cons show ?case by (auto simp: keys_differ_def)
qed

lemma keys_differ_perm: "mset es = mset es' \<Longrightarrow> keys_differ t es = keys_differ t es'"
  unfolding keys_differ_distinct by (metis mset_eq_imp_distinct_iff mset_map)

lemma keys_differ_unique:
  assumes "keys_differ t es" "x \<in> set es" "y \<in> set es"
    "dictCompareKeys t k (de_key x)" "dictCompareKeys t k (de_key y)"
  shows "x = y"
proof -
  have "dictCompareKeys t (de_key x) (de_key y)" "dictCompareKeys t (de_key y) (de_key x)"
    using assms(4,5) cmp_sym cmp_trans by blast+
  with assms(1-3) show ?thesis
    unfolding keys_differ_def
    by (induction es) auto
qed

lemma find_key_iff:
  assumes "keys_differ t es"
  shows "List.find (\<lambda>e. dictCompareKeys t k (de_key e)) es = Some e \<longleftrightarrow>
    e \<in> set es \<and> dictCompareKeys t k (de_key e)"
proof
  assume "List.find (\<lambda>e. dictCompareKeys t k (de_key e)) es = Some e"
  then show "e \<in> set es \<and> dictCompareKeys t k (de_key e)"
    by (auto simp: find_Some_iff)
next
  assume e: "e \<in> set es \<and> dictCompareKeys t k (de_key e)"
  then obtain e' where e': "List.find (\<lambda>e. dictCompareKeys t k (de_key e)) es = Some e'"
    by (cases "List.find (\<lambda>e. dictCompareKeys t k (de_key e)) es") (auto simp: find_None_iff)
  then have "e' \<in> set es" "dictCompareKeys t k (de_key e')"
    by (auto simp: find_Some_iff)
  with e e' assms keys_differ_unique show "List.find (\<lambda>e. dictCompareKeys t k (de_key e)) es = Some e"
    by blast
qed

lemma find_key_perm:
  assumes "keys_differ t es" "mset es = mset es'"
  shows "List.find (\<lambda>e. dictCompareKeys t k (de_key e)) es =
    List.find (\<lambda>e. dictCompareKeys t k (de_key e)) es'"
proof -
  have d: "keys_differ t es'" using assms keys_differ_perm by blast
  have s: "set es = set es'" using assms(2) by (metis set_mset_mset)
  have "List.find (\<lambda>e. dictCompareKeys t k (de_key e)) es = Some e \<longleftrightarrow>
      List.find (\<lambda>e. dictCompareKeys t k (de_key e)) es' = Some e" for e
    using find_key_iff [OF assms(1)] find_key_iff [OF d] s by simp
  then show ?thesis
    by (metis not_Some_eq)
qed

lemma same_content_map:
  assumes "dict_inv d" "dtype d = t" "same_content d d'"
  shows "dict_map d' = dict_map d"
  using assms find_key_perm [of "dict_entries d" "dict_entries d'"]
  by (auto simp: dict_map_def same_content_def dict_inv_def fun_eq_iff)

lemma dict_inv_same_content:
  assumes "dict_inv d" "dtype d = t" "same_content d d'"
    and "ht_wf t (ht0 d')" "ht_wf t (ht1 d')" "rehash_wf d'"
    and "table_addr (ht0 d') < next_addr d'" "table_addr (ht1 d') < next_addr d'"
  shows "dict_inv d'"
  using assms keys_differ_perm [of "dict_entries d" "dict_entries d'"]
    addrs_ok_perm [of "dict_entries d" "dict_entries d'"]
    addrs_ok_mono [of "next_addr d" "dict_entries d'" "next_addr d'"]
  by (auto simp: dict_inv_def same_content_def)

lemma rehash_bucket_ok:
  assumes inv: "dict_inv d" and t: "dtype d = t"
    and rh: "dictIsRehashing d" and u: "used (ht0 d) \<noteq> 0"
  shows "\<exists>d'. rehash_bucket d = Some d' \<and> dict_inv d' \<and> same_content d d' \<and>
    dictIsRehashing d' \<and> rehashidx d < rehashidx d' \<and> used (ht0 d') < used (ht0 d)"
proof -
  let ?T = "table (ht0 d)" and ?r = "nat (rehashidx d)"
  have wf0: "ht_wf t (ht0 d)" and wf1: "ht_wf t (ht1 d)" and rw: "rehash_wf d"
    using inv t by (auto simp: dict_inv_def)
  have r0: "0 \<le> rehashidx d" and s1: "ht_size (ht1 d) \<noteq> 0"
    and low: "\<And>i. i < length ?T \<Longrightarrow> int i < rehashidx d \<Longrightarrow> ?T ! i = []"
    using rw rh by (auto simp: rehash_wf_def)
  obtain j where j: "j < length ?T" "?T ! j \<noteq> []"
    using u wf0 by (auto simp: ht_wf_def ht_entries_def in_set_conv_nth)
  have rj: "?r \<le> j" using low [OF j(1)] j(2) r0 by (cases "int j < rehashidx d") auto
  obtain n where n: "skip_empty ?T ?r = Some n" "?r \<le> n" "n < length ?T" "?T ! n \<noteq> []"
      "\<And>i. ?r \<le> i \<Longrightarrow> i < n \<Longrightarrow> ?T ! i = []"
    using skip_empty_finds [of ?r ?T] rj j by blast
  obtain h1 where h1: "move_chain t (?T ! n) (ht0 d) (ht1 d) =
        Some ((ht0 d)\<lparr>used := used (ht0 d) - length (?T ! n)\<rparr>, h1)"
      "ht_wf t h1" "ht_size h1 = ht_size (ht1 d)" "table_addr h1 = table_addr (ht1 d)"
      "mset (ht_entries h1) = mset (?T ! n) + mset (ht_entries (ht1 d))"
    using move_chain_ok [OF wf1 s1] by blast
  let ?h0 = "(ht0 d)\<lparr>used := used (ht0 d) - length (?T ! n), table := ?T[n := []]\<rparr>"
  let ?d = "d\<lparr>ht0 := ?h0, ht1 := h1, rehashidx := int n + 1\<rparr>"
  have e: "rehash_bucket d = Some ?d"
    using n h1(1) wf0 t by (simp add: rehash_bucket_def ht_wf_def arr_simps)
  have same: "same_content d ?d"
    using ht_wf_clear_chain(2) [OF wf0 n(3)] h1(5)
    by (auto simp: same_content_def dict_entries_def)
  have "?T ! i = []" if "i < length ?T" "i < n" for i
    using that low [of i] n(5) [of i] r0 by (cases "int i < rehashidx d") auto
  then have "rehash_wf ?d"
    using rw rh h1(3) n(3) by (auto simp: rehash_wf_def dictIsRehashing_def nth_list_update)
  with same have "dict_inv ?d"
    using ht_wf_clear_chain(1) [OF wf0 n(3)] h1 inv
    by (intro dict_inv_same_content [OF inv t]) (auto simp: dict_inv_def)
  moreover have "used ?h0 < used (ht0 d)"
    using u n(4) by simp
  ultimately show ?thesis
    using e same n(2) r0 by (auto simp: dictIsRehashing_def)
qed

lemma rehash_finish_ok:
  assumes inv: "dict_inv d" and t: "dtype d = t" and "dictIsRehashing d" "used (ht0 d) = 0"
  shows "dict_inv (rehash_finish d) \<and> same_content d (rehash_finish d) \<and>
    \<not> dictIsRehashing (rehash_finish d)"
proof -
  have same: "same_content d (rehash_finish d)"
    using assms by (auto simp: same_content_def rehash_finish_def dict_entries_def dict_inv_def
      ht_wf_def ht_entries_def dictReset_def)
  have "rehash_wf (rehash_finish d)"
    by (simp add: rehash_wf_def rehash_finish_def dictIsRehashing_def)
  then have "dict_inv (rehash_finish d)"
    using inv t same by (intro dict_inv_same_content [OF inv t])
      (auto simp: dict_inv_def rehash_finish_def ht_wf_reset, simp add: dictReset_def)
  with same show ?thesis by (simp add: rehash_finish_def dictIsRehashing_def)
qed

lemma rehash_loop_ok:
  assumes "dict_inv d" "dtype d = t" "dictIsRehashing d"
  shows "\<exists>d'. rehash_loop n d = Some (d', dictIsRehashing d') \<and> dict_inv d' \<and> same_content d d'"
  using assms
proof (induction n arbitrary: d)
  case 0
  then show ?case by (auto simp: same_content_def)
next
  case (Suc n)
  show ?case
  proof (cases "used (ht0 d) = 0")
    case True
    with rehash_finish_ok [OF Suc.prems] show ?thesis by auto
  next
    case False
    from rehash_bucket_ok [OF Suc.prems False] obtain d1 where d1:
      "rehash_bucket d = Some d1" "dict_inv d1" "same_content d d1" "dictIsRehashing d1"
      by blast
    moreover have "dtype d1 = t" using d1(3) Suc.prems(2) by (simp add: same_content_def)
    ultimately show ?thesis
      using Suc.IH [of d1] False same_content_trans by fastforce
  qed
qed

lemma dictRehash_ok:
  assumes "dict_inv d" "dtype d = t"
  shows "\<exists>d'. dictRehash d n = Some (d', dictIsRehashing d') \<and> dict_inv d' \<and> same_content d d'"
  using rehash_loop_ok [OF assms] assms by (auto simp: dictRehash_def same_content_def)

lemma dictStepIfRehashing_ok:
  assumes "dict_inv d" "dtype d = t"
  obtains d' where "dictStepIfRehashing d = Some d'" "dict_inv d'" "same_content d d'" "dtype d' = t"
proof -
  obtain d' where "dictRehash d 1 = Some (d', dictIsRehashing d')" "dict_inv d'" "same_content d d'"
    using dictRehash_ok [OF assms, of 1] by auto
  then have "\<exists>d'. dictStepIfRehashing d = Some d' \<and> dict_inv d' \<and> same_content d d'"
    using assms(1) by (auto simp: dictStepIfRehashing_def dictRehashStep_def same_content_def)
  with assms(2) that show thesis by (auto simp: same_content_def)
qed

lemma dictStepIfRehashing_size:
  assumes inv: "dict_inv d" and t: "dtype d = t" and "ht_size (ht0 d) \<noteq> 0"
    and "dictStepIfRehashing d = Some d'"
  shows "ht_size (ht0 d') \<noteq> 0"
proof (cases "dictIsRehashing d \<and> iterators d = 0")
  case True
  show ?thesis
  proof (cases "used (ht0 d) = 0")
    case u: True
    with True assms show ?thesis
      by (auto simp: dictStepIfRehashing_def dictRehashStep_def dictRehash_def rehash_finish_def
        dict_inv_def rehash_wf_def)
  next
    case False
    obtain d1 where "rehash_bucket d = Some d1" "dict_inv d1" "dictIsRehashing d1"
      using rehash_bucket_ok [OF inv t _ False] True by blast
    with True False assms(4) show ?thesis
      by (auto simp: dictStepIfRehashing_def dictRehashStep_def dictRehash_def
        dict_inv_def rehash_wf_def)
  qed
next
  case False
  with assms show ?thesis
    by (auto simp: dictStepIfRehashing_def dictRehashStep_def split: if_splits)
qed

end

end
