(* ===== verification/DictMap.thy ===== *)
theory DictMap
  imports DictInv
begin

text \<open>
  The refinement of a dictionary to a finite map. Inside the locale \<open>dict_type\<close> every
  operation of \<open>Dict\<close> is shown to return (no undefined behaviour, no failed assertion), to
  keep the invariant, and to act on \<open>dict_map\<close> as the operation on finite maps its name
  says: a search reads the map, an insertion or replacement updates it at the key, a deletion
  removes the key, and a rehash leaves it alone.
\<close>

subsection \<open>Table sizes\<close>

lemma next_power_pow2:
  "i = 2 ^ k \<Longrightarrow> \<exists>m. k \<le> m \<and> next_power i sz = 2 ^ m \<and> sz \<le> 2 ^ m \<and> (m = k \<or> 2 ^ m < 2 * sz)"
proof (induction i sz arbitrary: k rule: next_power.induct)
  case (1 i sz)
  show ?case
  proof (cases "sz \<le> i")
    case True
    with "1.prems" show ?thesis by (intro exI [of _ k]) (simp add: next_power.simps [of "2 ^ k" sz])
  next
    case False
    with "1.prems" have "\<not> (sz \<le> i \<or> i = 0)" by simp
    from "1.IH" [OF this, of "Suc k"] "1.prems" obtain m where
      m: "Suc k \<le> m" "next_power (2 * i) sz = 2 ^ m" "sz \<le> 2 ^ m"
        "m = Suc k \<or> 2 ^ m < 2 * sz"
      by auto
    with False "1.prems" show ?thesis
      by (auto simp: next_power.simps [of "2 ^ k" sz] intro!: exI [of _ m])
  qed
qed

lemma dictNextPower_pow2:
  assumes "sz < LONG_MAX"
  obtains m where "2 \<le> m" "dictNextPower sz = 2 ^ m" "sz \<le> 2 ^ m" "m = 2 \<or> 2 ^ m < 2 * sz"
  using next_power_pow2 [of 4 2 sz] assms
  by (auto simp: dictNextPower_def DICT_HT_INITIAL_SIZE_def)

lemma ht_wf_new:
  assumes "2 \<le> k" "k < 61" "a \<noteq> 0"
  shows "ht_wf t \<lparr>table_addr = a, table = replicate (2 ^ k) [], ht_size = 2 ^ k,
    sizemask = 2 ^ k - 1, used = 0\<rparr>"
  using assms by (auto simp: ht_wf_def ht_entries_def)

lemma dict_entries_replicate [simp]: "concat (replicate n []) = []"
  by simp

subsection \<open>Searching one table\<close>

lemma ht_entries_iff: "e \<in> set (ht_entries h) \<longleftrightarrow> (\<exists>i < length (table h). e \<in> set (table h ! i))"
  unfolding ht_entries_def set_concat by (auto simp: in_set_conv_nth [of _ "table h"] intro: bexI [OF _ nth_mem])

lemma mset_remove_first:
  "List.find P xs = Some e \<Longrightarrow> add_mset e (mset (remove_first P xs)) = mset xs"
  by (induction xs) (auto split: if_splits)

lemma find_append_case:
  "List.find P (xs @ ys) = (case List.find P xs of Some x \<Rightarrow> Some x | None \<Rightarrow> List.find P ys)"
  by (induction xs) auto

lemma find_distinct_key:
  "distinct (map f xs) \<Longrightarrow> x \<in> set xs \<Longrightarrow> List.find (\<lambda>y. f y = f x) xs = Some x"
  by (induction xs) (auto simp: image_iff)

text \<open>The abstract operations: update and removal at a key, up to key comparison.\<close>

definition map_put :: "('k, 'v) dictType \<Rightarrow> 'k \<Rightarrow> 'v \<Rightarrow> ('k \<Rightarrow> 'v option option) \<Rightarrow> 'k \<Rightarrow> 'v option option"
  where "map_put t k v m = (\<lambda>k'. if dictCompareKeys t k' k then Some (Some v) else m k')"

definition map_del :: "('k, 'v) dictType \<Rightarrow> 'k \<Rightarrow> ('k \<Rightarrow> 'v option option) \<Rightarrow> 'k \<Rightarrow> 'v option option"
  where "map_del t k m = (\<lambda>k'. if dictCompareKeys t k' k then None else m k')"

lemma option_eqI: "(\<And>y. a = Some y \<longleftrightarrow> b = Some y) \<Longrightarrow> a = b"
  by (metis not_Some_eq)

lemma ht_write_entries:
  "ht_entries (ht_write a f h) = map (\<lambda>e. if de_addr e = a then f e else e) (ht_entries h)"
  by (simp add: ht_write_def ht_entries_def map_concat)

lemma ht_write_fields [simp]:
  "ht_size (ht_write a f h) = ht_size h" "table_addr (ht_write a f h) = table_addr h"
  "used (ht_write a f h) = used h" "sizemask (ht_write a f h) = sizemask h"
  "length (table (ht_write a f h)) = length (table h)"
  by (simp_all add: ht_write_def)

lemma ht_write_reset [simp]: "ht_write a f dictReset = dictReset"
  by (simp add: ht_write_def dictReset_def)

lemma keys_differ_map:
  "(\<And>e. de_key (f e) = de_key e) \<Longrightarrow> keys_differ t (map f es) = keys_differ t es"
  by (simp add: keys_differ_def sorted_wrt_map)

lemma addrs_ok_map: "(\<And>e. de_addr (f e) = de_addr e) \<Longrightarrow> addrs_ok n (map f es) = addrs_ok n es"
  by (simp add: addrs_ok_def comp_def)

lemma rehash_wf_write:
  "rehash_wf d \<Longrightarrow> rehash_wf (d\<lparr>ht0 := ht_write a f (ht0 d), ht1 := ht_write a f (ht1 d)\<rparr>)"
  by (auto simp: rehash_wf_def dictIsRehashing_def, simp add: ht_write_def)

subsection \<open>Clearing a table\<close>

lemma clear_loop_ok:
  assumes "ht_wf t h" "left = length (concat (drop i (table h)))"
  shows "\<exists>evs. clear_loop t cb h i left = Some evs \<and>
    filter (\<lambda>x. x \<noteq> Callback) evs = concat (map (dictFreeEntry t) (concat (drop i (table h))))"
  using assms
proof (induction t cb h i left rule: clear_loop.induct)
  case (1 t cb h i left)
  have len: "length (table h) = ht_size h" using "1.prems"(1) by (simp add: ht_wf_def)
  show ?case
  proof (cases "i < ht_size h \<and> left > 0")
    case True
    then have d: "drop i (table h) = table h ! i # drop (Suc i) (table h)"
      using len by (simp add: Cons_nth_drop_Suc)
    have "left - length (table h ! i) = length (concat (drop (Suc i) (table h)))"
      using "1.prems"(2) d by simp
    from "1.IH" [OF True _ "1.prems"(1) this] True len obtain evs where
      "clear_loop t cb h (Suc i) (left - length (table h ! i)) = Some evs"
      "filter (\<lambda>x. x \<noteq> Callback) evs = concat (map (dictFreeEntry t) (concat (drop (Suc i) (table h))))"
      by (auto simp: arr_simps)
    moreover have "filter (\<lambda>x. x \<noteq> Callback) (concat (map (dictFreeEntry t) c)) = concat (map (dictFreeEntry t) c)" for c
      by (induction c) (auto simp: dictFreeEntry_def dictFreeKey_def dictFreeVal_def)
    ultimately show ?thesis
      using True len d by (simp add: clear_loop.simps [of t cb h i left] arr_simps)
  next
    case False
    then have "concat (drop i (table h)) = []" using "1.prems"(2) len by auto
    with False show ?thesis by (subst clear_loop.simps) auto
  qed
qed

lemma dictClear_ok:
  assumes "ht_wf t h"
  shows "\<exists>evs. dictClear t h cb = Some (dictReset, evs) \<and>
    filter (\<lambda>x. x \<noteq> Callback) evs = concat (map (dictFreeEntry t) (ht_entries h))"
  using clear_loop_ok [OF assms, of "used h" 0 cb] assms
  by (auto simp: dictClear_def ht_wf_def ht_entries_def)

lemma dict_inv_create: "dict_inv (dictCreate t)"
  by (simp add: dict_inv_def dictCreate_def dictInit_def ht_wf_reset rehash_wf_def dictIsRehashing_def
    dict_entries_def ht_entries_def keys_differ_def addrs_ok_def, simp add: dictReset_def)

context dict_type
begin

lemma dict_map_iff:
  assumes "dict_inv d" "dtype d = t"
  shows "dict_map d k = Some v \<longleftrightarrow>
    (\<exists>e \<in> set (dict_entries d). dictCompareKeys t k (de_key e) \<and> de_val e = v)"
proof -
  have "keys_differ t (dict_entries d)" using assms by (simp add: dict_inv_def)
  from find_key_iff [OF this] show ?thesis
    using assms(2) by (auto simp: dict_map_def)
qed

lemma dict_map_cong:
  assumes "dict_inv d" "dtype d = t" "dictCompareKeys t k k'"
  shows "dict_map d k = dict_map d k'"
proof -
  have "dict_map d k = Some v \<longleftrightarrow> dict_map d k' = Some v" for v
    unfolding dict_map_iff [OF assms(1,2)] using assms(3) cmp_sym cmp_trans by blast
  then show ?thesis by (metis not_Some_eq)
qed

lemma keys_differ_chain:
  assumes "keys_differ t (ht_entries h)" "i < length (table h)"
  shows "keys_differ t (table h ! i)"
proof -
  have "ht_entries h = concat (take i (table h)) @ table h ! i @ concat (drop (Suc i) (table h))"
    unfolding ht_entries_def by (metis assms(2) append.assoc concat.simps(2) concat_append
      id_take_nth_drop)
  with assms(1) show ?thesis by (simp add: keys_differ_append)
qed

lemma ht_find_ok:
  assumes wf: "ht_wf t h" and s: "ht_size h \<noteq> 0" and kd: "keys_differ t (ht_entries h)"
  shows "ht_find t h k = Some (List.find (\<lambda>e. dictCompareKeys t k (de_key e)) (ht_entries h))"
proof -
  let ?i = "dictHashKey t k AND sizemask h"
  have i: "?i < length (table h)" using wf s by (rule ht_index_bound)
  have home: "j = ?i" if "j < length (table h)" "e \<in> set (table h ! j)"
    "dictCompareKeys t k (de_key e)" for e j
    using wf that cmp_hashKey by (auto simp: ht_wf_def)
  have "List.find (\<lambda>e. dictCompareKeys t k (de_key e)) (table h ! ?i) = Some e \<longleftrightarrow>
      List.find (\<lambda>e. dictCompareKeys t k (de_key e)) (ht_entries h) = Some e" for e
    unfolding find_key_iff [OF kd] find_key_iff [OF keys_differ_chain [OF kd i]]
    using home i by (auto simp: ht_entries_iff)
  then have "List.find (\<lambda>e. dictCompareKeys t k (de_key e)) (table h ! ?i) =
      List.find (\<lambda>e. dictCompareKeys t k (de_key e)) (ht_entries h)"
    by (metis not_Some_eq)
  with i show ?thesis by (simp add: ht_find_def arr_simps)
qed

lemma dict_inv_find:
  assumes "dict_inv d" "dtype d = t" "ht_size (ht0 d) \<noteq> 0"
  shows "ht_find t (ht0 d) k = Some (List.find (\<lambda>e. dictCompareKeys t k (de_key e)) (ht_entries (ht0 d)))"
    and "dictIsRehashing d \<Longrightarrow>
      ht_find t (ht1 d) k = Some (List.find (\<lambda>e. dictCompareKeys t k (de_key e)) (ht_entries (ht1 d)))"
    and "\<not> dictIsRehashing d \<Longrightarrow> ht_entries (ht1 d) = []"
  using assms ht_find_ok [of "ht0 d" k] ht_find_ok [of "ht1 d" k]
  by (auto simp: dict_inv_def dict_entries_def keys_differ_append rehash_wf_def
      dictReset_def ht_entries_def)

subsection \<open>Expansion\<close>

lemma dictExpand_ok:
  assumes inv: "dict_inv d" and t: "dtype d = t" and sz: "sz \<le> 2 ^ 60"
  shows "\<exists>d'. dictExpand d sz =
      Some (d', if dictIsRehashing d \<or> used (ht0 d) > sz then DICT_ERR else DICT_OK) \<and>
    dict_inv d' \<and> same_content d d' \<and>
    (\<not> dictIsRehashing d \<longrightarrow> used (ht0 d) \<le> sz \<longrightarrow> ht_size (ht0 d') \<noteq> 0)"
proof (cases "dictIsRehashing d \<or> used (ht0 d) > sz")
  case True
  with inv show ?thesis by (auto simp: dictExpand_def)
next
  case False
  have "sz < LONG_MAX" using sz by (simp add: LONG_MAX_def)
  then obtain m where m: "2 \<le> m" "dictNextPower sz = 2 ^ m" "m = 2 \<or> 2 ^ m < 2 * sz"
    by (rule dictNextPower_pow2)
  have "m < 61"
  proof (cases "m = 2")
    case False
    with m(3) sz have "(2 :: nat) ^ m < 2 ^ 61" by simp
    then show ?thesis by (rule power_less_imp_less_exp [rotated]) simp
  qed simp
  then have bytes: "(2 :: nat) ^ m * 8 < 2 ^ 64"
    using power_strict_increasing [of m 61 "2 :: nat"] by simp
  let ?n = "\<lparr>table_addr = next_addr d, table = replicate (2 ^ m) [], ht_size = 2 ^ m,
    sizemask = 2 ^ m - 1, used = 0\<rparr>"
  have n: "ht_wf t ?n" using m(1) \<open>m < 61\<close> inv by (intro ht_wf_new) (auto simp: dict_inv_def)
  let ?d = "if table_addr (ht0 d) = 0 then d\<lparr>ht0 := ?n, next_addr := Suc (next_addr d)\<rparr>
    else d\<lparr>ht1 := ?n, rehashidx := 0, next_addr := Suc (next_addr d)\<rparr>"
  have e: "dictExpand d sz = Some (?d, DICT_OK)"
    using False bytes m(2) by (simp add: dictExpand_def Let_def)
  have r1: "ht1 d = dictReset" using inv False by (simp add: dict_inv_def rehash_wf_def)
  have same: "same_content d ?d"
    using inv r1 by (auto simp: same_content_def dict_entries_def ht_entries_def dict_inv_def
      ht_wf_def dictReset_def)
  have "dict_inv ?d"
    using inv t n r1 False by (intro dict_inv_same_content [OF inv t same])
      (auto simp: dict_inv_def rehash_wf_def dictIsRehashing_def ht_wf_def)
  moreover have "ht_size (ht0 ?d) \<noteq> 0"
    using inv by (auto simp: dict_inv_def ht_wf_def)
  ultimately show ?thesis using e same False by auto
qed

lemma dictExpandIfNeeded_ok:
  assumes inv: "dict_inv d" and t: "dtype d = t" and "used (ht0 d) \<le> 2 ^ 59"
  obtains d' where "dictExpandIfNeeded cr d = Some (d', DICT_OK)" "dict_inv d'"
    "same_content d d'" "ht_size (ht0 d') \<noteq> 0"
proof (cases "dictIsRehashing d")
  case True
  with inv that [of d] show thesis
    by (auto simp: dictExpandIfNeeded_def dict_inv_def rehash_wf_def)
next
  case nr: False
  show thesis
  proof (cases "ht_size (ht0 d) = 0")
    case True
    then have "used (ht0 d) = 0"
      using inv by (auto simp: dict_inv_def ht_wf_def ht_entries_def)
    with nr True that show thesis
      using dictExpand_ok [OF inv t, of DICT_HT_INITIAL_SIZE]
      by (auto simp: dictExpandIfNeeded_def DICT_HT_INITIAL_SIZE_def)
  next
    case False
    obtain d1 where d1: "dictExpand d (used (ht0 d) * 2) = Some (d1, DICT_OK)" "dict_inv d1"
        "same_content d d1" "ht_size (ht0 d1) \<noteq> 0"
      using dictExpand_ok [OF inv t, of "used (ht0 d) * 2"] assms(3) nr by auto
    let ?full = "used (ht0 d) \<ge> ht_size (ht0 d) \<and> (cr \<or> used (ht0 d) div ht_size (ht0 d) > 5)"
    show thesis
      by (rule that [of "if ?full then d1 else d"])
        (use nr False d1 inv in \<open>auto simp: dictExpandIfNeeded_def\<close>)
  qed
qed

subsection \<open>Searching\<close>

lemma dict_map_split:
  assumes "dtype d = t"
  shows "dict_map d k = map_option de_val
    (case List.find (\<lambda>e. dictCompareKeys t k (de_key e)) (ht_entries (ht0 d)) of
       Some e \<Rightarrow> Some e
     | None \<Rightarrow> List.find (\<lambda>e. dictCompareKeys t k (de_key e)) (ht_entries (ht1 d)))"
  using assms by (auto simp: dict_map_def dict_entries_def find_append_case)

lemma find_entry_at:
  assumes "dict_inv d" "e \<in> set (dict_entries d)"
  shows "entry_at d (de_addr e) = Some e"
proof -
  have "distinct (map de_addr (dict_entries d))"
    using assms(1) by (simp add: dict_inv_def addrs_ok_def)
  then show ?thesis
    unfolding entry_at_def using assms(2) by (rule find_distinct_key)
qed

lemma dictFind_ok:
  assumes inv: "dict_inv d" and t: "dtype d = t"
  obtains d' r where "dictFind d k = Some (d', r)" "dict_inv d'" "same_content d d'"
    "case r of None \<Rightarrow> dict_map d k = None
     | Some a \<Rightarrow> \<exists>e \<in> set (dict_entries d'). de_addr e = a \<and> dictCompareKeys t k (de_key e) \<and>
         dict_map d k = Some (de_val e)"
proof (cases "ht_size (ht0 d) = 0")
  case True
  have "dict_entries d = []"
    using True inv by (auto simp: dict_inv_def dict_entries_def ht_wf_def ht_entries_def
      rehash_wf_def dictReset_def split: if_splits)
  with True inv that [of d None] show thesis
    by (simp add: dictFind_def dict_map_def)
next
  case False
  obtain d1 where d1: "dictStepIfRehashing d = Some d1" "dict_inv d1" "same_content d d1" "dtype d1 = t"
    using dictStepIfRehashing_ok [OF inv t] by blast
  have m: "dict_map d1 = dict_map d" using same_content_map [OF inv t d1(3)] .
  have s: "ht_size (ht0 d1) \<noteq> 0" using dictStepIfRehashing_size [OF inv t False d1(1)] .
  note f = dict_inv_find [OF d1(2,4) s]
  show thesis
  proof (cases "List.find (\<lambda>e. dictCompareKeys t k (de_key e)) (ht_entries (ht0 d1))")
    case (Some e)
    then have "e \<in> set (dict_entries d1)" "dictCompareKeys t k (de_key e)"
      by (auto simp: find_Some_iff dict_entries_def)
    moreover have "dict_map d k = Some (de_val e)"
      using Some dict_map_split [OF d1(4), of k] m by simp
    ultimately show thesis
      using that [of d1 "Some (de_addr e)"] Some False d1 f by (auto simp: dictFind_def)
  next
    case none0: None
    show thesis
    proof (cases "List.find (\<lambda>e. dictCompareKeys t k (de_key e)) (ht_entries (ht1 d1))")
      case None
      then have "dict_map d k = None"
        using none0 dict_map_split [OF d1(4), of k] m by simp
      with None none0 show thesis
        using that [of d1 None] False d1 f by (auto simp: dictFind_def)
    next
      case (Some e)
      then have "e \<in> set (dict_entries d1)" "dictCompareKeys t k (de_key e)"
        by (auto simp: find_Some_iff dict_entries_def)
      moreover have "dict_map d k = Some (de_val e)"
        using Some none0 dict_map_split [OF d1(4), of k] m by simp
      moreover have "dictIsRehashing d1" using Some f(3) by (cases "dictIsRehashing d1") auto
      ultimately show thesis
        using that [of d1 "Some (de_addr e)"] Some none0 False d1 f by (auto simp: dictFind_def)
    qed
  qed
qed

lemma dictFetchValue_ok:
  assumes inv: "dict_inv d" and t: "dtype d = t"
  obtains d' where "dictFetchValue d k = Some (d', dict_map d k)" "dict_inv d'" "same_content d d'"
proof -
  obtain d' r where r: "dictFind d k = Some (d', r)" "dict_inv d'" "same_content d d'"
    "case r of None \<Rightarrow> dict_map d k = None
     | Some a \<Rightarrow> \<exists>e \<in> set (dict_entries d'). de_addr e = a \<and> dictCompareKeys t k (de_key e) \<and>
         dict_map d k = Some (de_val e)"
    using dictFind_ok [OF inv t] by blast
  then have "dictFetchValue d k = Some (d', dict_map d k)"
    using find_entry_at [of d']
    by (auto simp: dictFetchValue_def dictGetVal_def split: option.splits)
  with r that show thesis by blast
qed

subsection \<open>Adding\<close>

lemma dictKeyIndex_ok:
  assumes inv: "dict_inv d" and t: "dtype d = t" and "used (ht0 d) \<le> 2 ^ 59"
  obtains d' where "dictKeyIndex cr d k = Some (d',
      if dict_map d k = None
      then Some (dictHashKey t k AND sizemask (if dictIsRehashing d' then ht1 d' else ht0 d'))
      else None)"
    "dict_inv d'" "same_content d d'" "ht_size (ht0 d') \<noteq> 0"
proof -
  obtain d1 where d1: "dictExpandIfNeeded cr d = Some (d1, DICT_OK)" "dict_inv d1"
    "same_content d d1" "ht_size (ht0 d1) \<noteq> 0"
    using dictExpandIfNeeded_ok [OF assms] by blast
  have t1: "dtype d1 = t" using d1(3) t by (simp add: same_content_def)
  have m: "dict_map d k = None \<longleftrightarrow>
      List.find (\<lambda>e. dictCompareKeys t k (de_key e)) (ht_entries (ht0 d1)) = None \<and>
      List.find (\<lambda>e. dictCompareKeys t k (de_key e)) (ht_entries (ht1 d1)) = None"
    unfolding same_content_map [OF inv t d1(3), symmetric] dict_map_split [OF t1]
    by (auto split: option.splits)
  note f = dict_inv_find [OF d1(2) t1 d1(4)]
  have "dictKeyIndex cr d k = Some (d1,
      if dict_map d k = None
      then Some (dictHashKey t k AND sizemask (if dictIsRehashing d1 then ht1 d1 else ht0 d1))
      else None)"
    using d1(1) t1 f m by (cases "dictIsRehashing d1") (auto simp: dictKeyIndex_def)
  with d1 that show thesis by blast
qed

lemma ht_push_ok:
  assumes "ht_wf t h" "ht_size h \<noteq> 0" "i = dictHashKey t (de_key e) AND sizemask h"
  obtains h' where "ht_push h i e = Some h'" "ht_wf t h'" "ht_size h' = ht_size h"
    "table_addr h' = table_addr h" "mset (ht_entries h') = add_mset e (mset (ht_entries h))"
    "\<And>j. j < length (table h) \<Longrightarrow> table h ! j = [] \<Longrightarrow> j \<noteq> i \<Longrightarrow> table h' ! j = []"
  using ht_wf_push [OF assms(1,2), of e] ht_index_bound [OF assms(1,2)] assms(3)
  by (auto simp: ht_push_def arr_simps)

lemma dict_inv_add_entry:
  assumes inv: "dict_inv d" and t: "dtype d = t"
    and none: "dict_map d k = None" and e: "dictCompareKeys t k (de_key e)" "de_addr e = next_addr d"
    and d': "dtype d' = t" "next_addr d' = Suc (next_addr d)"
      "mset (dict_entries d') = add_mset e (mset (dict_entries d))"
      "ht_wf t (ht0 d')" "ht_wf t (ht1 d')" "rehash_wf d'"
      "table_addr (ht0 d') = table_addr (ht0 d)" "table_addr (ht1 d') = table_addr (ht1 d)"
  shows "dict_inv d'"
proof -
  have "\<not> dictCompareKeys t (de_key e) (de_key x)" if "x \<in> set (dict_entries d)" for x
    using none that e(1) cmp_trans [of k "de_key e" "de_key x"] t
    by (auto simp: dict_map_def find_None_iff)
  then have "keys_differ t (e # dict_entries d)"
    using inv t by (simp add: keys_differ_def dict_inv_def)
  then have "keys_differ t (dict_entries d')"
    using keys_differ_perm [of "dict_entries d'" "e # dict_entries d"] d'(3) by simp
  moreover have "addrs_ok (Suc (next_addr d)) (e # dict_entries d)"
    using inv e(2) by (fastforce simp: dict_inv_def addrs_ok_def)
  then have "addrs_ok (Suc (next_addr d)) (dict_entries d')"
    using addrs_ok_perm [of "dict_entries d'" "e # dict_entries d"] d'(3) by simp
  ultimately show ?thesis
    using d' inv by (simp add: dict_inv_def)
qed

text \<open>
  Adding a key: nothing changes when the key is there already; otherwise exactly one entry
  with this key, at a fresh address and with its value not yet set, joins the entries.
\<close>

lemma dictAddRaw_ok:
  assumes inv: "dict_inv d" and t: "dtype d = t" and sz: "dictSize d \<le> 2 ^ 59"
  obtains (exists) d' where "dictAddRaw cr d k = Some (d', None)" "dict_inv d'" "same_content d d'"
      "dict_map d k \<noteq> None"
    | (added) d' e where "dictAddRaw cr d k = Some (d', Some (de_addr e))" "dict_inv d'"
      "dict_map d k = None" "de_key e = dupKey t k" "de_val e = None" "next_addr d \<le> de_addr e"
      "dtype d' = t" "iterators d' = iterators d" "next_addr d' = Suc (de_addr e)"
      "mset (dict_entries d') = add_mset e (mset (dict_entries d))"
proof -
  obtain d1 where d1: "dictStepIfRehashing d = Some d1" "dict_inv d1" "same_content d d1" "dtype d1 = t"
    using dictStepIfRehashing_ok [OF inv t] by blast
  have "used (ht0 d1) \<le> dictSize d1" by (simp add: dictSize_def)
  also have "dictSize d1 = dictSize d"
    using same_content_size [OF inv d1(2,3)] .
  finally have u: "used (ht0 d1) \<le> 2 ^ 59" using sz by simp
  have m1: "dict_map d1 = dict_map d" using same_content_map [OF inv t d1(3)] .
  obtain d2 where d2: "dictKeyIndex cr d1 k = Some (d2,
      if dict_map d k = None
      then Some (dictHashKey t k AND sizemask (if dictIsRehashing d2 then ht1 d2 else ht0 d2))
      else None)" "dict_inv d2" "same_content d1 d2" "ht_size (ht0 d2) \<noteq> 0"
    using dictKeyIndex_ok [OF d1(2,4) u, of cr k] m1 by metis
  have t2: "dtype d2 = t" and same: "same_content d d2"
    using d1(3,4) d2(3) same_content_trans by (auto simp: same_content_def)
  show thesis
  proof (cases "dict_map d k = None")
    case False
    then have "dictAddRaw cr d k = Some (d2, None)" using d1(1) d2(1) by (auto simp: dictAddRaw_def)
    with False d2(2) same exists show thesis by blast
  next
    case True
    let ?e = "\<lparr>de_addr = next_addr d2, de_key = dupKey t k, de_val = None\<rparr>"
    let ?h = "if dictIsRehashing d2 then ht1 d2 else ht0 d2"
    have hk: "dictHashKey t k = dictHashKey t (dupKey t k)" using cmp_hashKey [OF cmp_dup] .
    have wf: "ht_wf t (ht0 d2)" "ht_wf t (ht1 d2)" and rw: "rehash_wf d2"
      using d2(2) t2 by (auto simp: dict_inv_def)
    have "ht_wf t ?h" "ht_size ?h \<noteq> 0"
      using wf d2(4) rw by (auto simp: rehash_wf_def)
    then obtain h' where h': "ht_push ?h (dictHashKey t k AND sizemask ?h) ?e = Some h'" "ht_wf t h'"
        "ht_size h' = ht_size ?h" "table_addr h' = table_addr ?h"
        "mset (ht_entries h') = add_mset ?e (mset (ht_entries ?h))"
      using ht_push_ok [of ?h _ ?e] hk by (metis dictEntry.select_convs(2))
    let ?d = "if dictIsRehashing d2 then d2\<lparr>ht1 := h', next_addr := Suc (next_addr d2)\<rparr>
      else d2\<lparr>ht0 := h', next_addr := Suc (next_addr d2)\<rparr>"
    have ms: "mset (dict_entries ?d) = add_mset ?e (mset (dict_entries d2))"
      using h'(5) by (auto simp: dict_entries_def)
    have "rehash_wf ?d" using rw h'(3) d2(4) by (auto simp: rehash_wf_def dictIsRehashing_def)
    moreover have "dict_map d2 k = None"
      using True same_content_map [OF inv t same] by simp
    ultimately have "dict_inv ?d"
      using wf h' ms t2 cmp_dup
      by (intro dict_inv_add_entry [OF d2(2) t2, of k ?e]) auto
    moreover have "dictAddRaw cr d k = Some (?d, Some (next_addr d2))"
      using d1(1) d2(1) True h'(1) t2 by (simp add: dictAddRaw_def Let_def split: if_splits)
    ultimately show thesis
      using added [of ?d ?e] True t2 same ms by (auto simp: same_content_def)
  qed
qed

text \<open>Writing a value through a pointer changes the map at the entry's key and nothing else.\<close>

lemma dictSetVal_ok:
  assumes inv: "dict_inv d" and t: "dtype d = t" and e: "e \<in> set (dict_entries d)"
  obtains d' where "dictSetVal d (de_addr e) v = Some d'" "dict_inv d'" "dtype d' = t"
    "iterators d' = iterators d" "dictSize d' = dictSize d"
    "dict_map d' = map_put t (de_key e) (dupVal t v) (dict_map d)"
proof -
  let ?f = "\<lambda>x. x\<lparr>de_val := Some (dupVal t v)\<rparr>"
  define g :: "('k, 'v) dictEntry \<Rightarrow> ('k, 'v) dictEntry" where
    "g = (\<lambda>x. if de_addr x = de_addr e then ?f x else x)"
  let ?d = "d\<lparr>ht0 := ht_write (de_addr e) ?f (ht0 d), ht1 := ht_write (de_addr e) ?f (ht1 d)\<rparr>"
  have s: "dictSetVal d (de_addr e) v = Some ?d"
    using find_entry_at [OF inv e] t by (simp add: dictSetVal_def Let_def)
  have es: "dict_entries ?d = map g (dict_entries d)"
    by (simp add: dict_entries_def ht_write_entries g_def)
  have "keys_differ t (dict_entries ?d) = keys_differ t (dict_entries d)"
    unfolding es by (rule keys_differ_map) (simp add: g_def)
  moreover have "addrs_ok (next_addr d) (dict_entries ?d) = addrs_ok (next_addr d) (dict_entries d)"
    unfolding es by (rule addrs_ok_map) (simp add: g_def)
  moreover have "rehash_wf ?d" using inv by (intro rehash_wf_write) (simp add: dict_inv_def)
  moreover have "ht_wf t (ht0 ?d)" "ht_wf t (ht1 ?d)"
    using inv t by (auto simp: dict_inv_def intro!: ht_write_wf)
  ultimately have di: "dict_inv ?d"
    using inv t by (simp add: dict_inv_def)
  have uniq: "x = e" if "x \<in> set (dict_entries d)" "de_addr x = de_addr e" for x
    using find_entry_at [OF inv that(1)] find_entry_at [OF inv e] that(2) by (metis option.inject)
  have t': "dtype ?d = t" using t by simp
  have g: "de_val (g x) = (if x = e then Some (dupVal t v) else de_val x)" "de_key (g x) = de_key x"
    if "x \<in> set (dict_entries d)" for x
    using uniq [OF that] by (auto simp: g_def)
  have "dict_map ?d k = Some y \<longleftrightarrow> map_put t (de_key e) (dupVal t v) (dict_map d) k = Some y" for k y
  proof -
    have kd: "keys_differ t (dict_entries d)" using inv t by (simp add: dict_inv_def)
    have "dict_map ?d k = Some y \<longleftrightarrow> (\<exists>x \<in> set (dict_entries d).
        dictCompareKeys t k (de_key x) \<and> (if x = e then y = Some (dupVal t v) else de_val x = y))"
      unfolding dict_map_iff [OF di t'] es using g by auto
    also have "\<dots> \<longleftrightarrow> map_put t (de_key e) (dupVal t v) (dict_map d) k = Some y"
      using keys_differ_unique [OF kd, of e _ k] e dict_map_iff [OF inv t, of k y]
      by (auto simp: map_put_def)
    finally show ?thesis .
  qed
  then have "dict_map ?d = map_put t (de_key e) (dupVal t v) (dict_map d)"
    by (intro ext option_eqI)
  with s di t that [of ?d] show thesis by (simp add: dictSize_def)
qed

lemma map_put_cong:
  "dictCompareKeys t k k' \<Longrightarrow> map_put t k v m = map_put t k' v m"
  unfolding map_put_def using cmp_sym cmp_trans by (metis (no_types, lifting))

lemma dict_map_add_entry:
  assumes "dict_inv d" "dtype d = t" "dict_inv d'" "dtype d' = t"
    and "mset (dict_entries d') = add_mset e (mset (dict_entries d))"
    and "\<not> dictCompareKeys t k (de_key e)"
  shows "dict_map d' k = dict_map d k"
proof (rule option_eqI)
  have "set (dict_entries d') = insert e (set (dict_entries d))"
    using assms(5) by (metis set_mset_add_mset_insert set_mset_mset)
  then show "dict_map d' k = Some y \<longleftrightarrow> dict_map d k = Some y" for y
    using dict_map_iff assms by auto
qed

lemma dictAdd_ok:
  assumes inv: "dict_inv d" and t: "dtype d = t" and sz: "dictSize d \<le> 2 ^ 59"
  obtains (exists) d' where "dictAdd cr d k v = Some (d', DICT_ERR)" "dict_inv d'" "same_content d d'"
      "dict_map d k \<noteq> None"
    | (added) d' where "dictAdd cr d k v = Some (d', DICT_OK)" "dict_inv d'" "dict_map d k = None"
      "dtype d' = t" "iterators d' = iterators d" "dictSize d' = Suc (dictSize d)"
      "dict_map d' = map_put t k (dupVal t v) (dict_map d)"
  using inv t sz
proof (cases rule: dictAddRaw_ok [where cr = cr and k = k])
  case (exists d')
  then show thesis using that(1) [of d'] by (simp add: dictAdd_def)
next
  case (added d' e)
  have e: "e \<in> set (dict_entries d')"
    using added(10) by (metis set_mset_mset union_single_eq_member)
  obtain d'' where d'': "dictSetVal d' (de_addr e) v = Some d''" "dict_inv d''" "dtype d'' = t"
    "iterators d'' = iterators d'" "dictSize d'' = dictSize d'"
    "dict_map d'' = map_put t (de_key e) (dupVal t v) (dict_map d')"
    using dictSetVal_ok [OF added(2,7) e] by blast
  have c: "dictCompareKeys t k (de_key e)" using added(4) cmp_dup by simp
  have "dict_map d'' = map_put t k (dupVal t v) (dict_map d)"
  proof
    fix k'
    show "dict_map d'' k' = map_put t k (dupVal t v) (dict_map d) k'"
      unfolding d''(6) map_put_cong [OF c, symmetric]
      using dict_map_add_entry [OF inv t added(2,7,10), of k'] c cmp_sym cmp_trans
      unfolding map_put_def by (metis (no_types, lifting))
  qed
  moreover have "dictSize d' = Suc (dictSize d)"
    using added(10) by (metis dict_size_entries [OF added(2)] dict_size_entries [OF inv]
      size_add_mset size_mset)
  ultimately show thesis
    using that(2) [of d''] added d'' by (simp add: dictAdd_def)
qed

lemma same_content_sets: "same_content d d' \<Longrightarrow> set (dict_entries d') = set (dict_entries d)"
  unfolding same_content_def by (metis set_mset_mset)

text \<open>Replacing: the map is updated at the key in both cases, and an old value is freed once.\<close>

lemma dictReplace_ok:
  assumes inv: "dict_inv d" and t: "dtype d = t" and sz: "dictSize d \<le> 2 ^ 59"
  obtains d' where "dictReplace cr d k v = Some (d', dict_map d k = None,
      case dict_map d k of None \<Rightarrow> [] | Some old \<Rightarrow> if valDestructor t then [FreeVal old] else [])"
    "dict_inv d'" "dtype d' = t" "iterators d' = iterators d"
    "dict_map d' = map_put t k (dupVal t v) (dict_map d)"
    "dictSize d' = (if dict_map d k = None then Suc (dictSize d) else dictSize d)"
  using inv t sz
proof (cases rule: dictAdd_ok [where cr = cr and k = k and v = v])
  case (added d')
  then show thesis using that [of d'] by (simp add: dictReplace_def)
next
  case (exists d1)
  have t1: "dtype d1 = t" using exists(3) t by (simp add: same_content_def)
  have m1: "dict_map d1 = dict_map d" using same_content_map [OF inv t exists(3)] .
  obtain d2 r where r: "dictFind d1 k = Some (d2, r)" "dict_inv d2" "same_content d1 d2"
    "case r of None \<Rightarrow> dict_map d1 k = None
     | Some a \<Rightarrow> \<exists>e \<in> set (dict_entries d2). de_addr e = a \<and> dictCompareKeys t k (de_key e) \<and>
         dict_map d1 k = Some (de_val e)"
    using dictFind_ok [OF exists(2) t1] by blast
  then obtain e where e: "r = Some (de_addr e)" "e \<in> set (dict_entries d2)"
      "dictCompareKeys t k (de_key e)" "dict_map d k = Some (de_val e)"
    using exists(4) m1 by (auto split: option.splits)
  have t2: "dtype d2 = t" using r(3) t1 by (simp add: same_content_def)
  have m2: "dict_map d2 = dict_map d" using same_content_map [OF exists(2) t1 r(3)] m1 by simp
  obtain d3 where d3: "dictSetVal d2 (de_addr e) v = Some d3" "dict_inv d3" "dtype d3 = t"
    "iterators d3 = iterators d2" "dict_map d3 = map_put t (de_key e) (dupVal t v) (dict_map d2)"
    "dictSize d3 = dictSize d2"
    using dictSetVal_ok [OF r(2) t2 e(2)] by blast
  have "dictSize d3 = dictSize d"
    using same_content_size [OF inv exists(2,3)] same_content_size [OF exists(2) r(2,3)] d3(6) by simp
  moreover have "dictReplace cr d k v = Some (d3, False, dictFreeVal t e)"
    using exists(1) r(1) e(1) d3 find_entry_at [OF r(2) e(2)] by (simp add: dictReplace_def)
  moreover have "dict_map d3 = map_put t k (dupVal t v) (dict_map d)"
    using d3(5) m2 map_put_cong [OF e(3)] by simp
  ultimately show thesis
    using that [of d3] e(4) d3 exists(3) r(3) by (simp add: dictFreeVal_def same_content_def)
qed

lemma dictReplaceRaw_ok:
  assumes inv: "dict_inv d" and t: "dtype d = t" and sz: "dictSize d \<le> 2 ^ 59"
  obtains d' e where "dictReplaceRaw cr d k = Some (d', Some (de_addr e))" "dict_inv d'" "dtype d' = t"
    "e \<in> set (dict_entries d')" "dictCompareKeys t k (de_key e)"
    "\<And>k'. \<not> dictCompareKeys t k' k \<Longrightarrow> dict_map d' k' = dict_map d k'"
    "dict_map d k \<noteq> None \<Longrightarrow> dict_map d' k = dict_map d k"
proof -
  obtain d1 r where r: "dictFind d k = Some (d1, r)" "dict_inv d1" "same_content d d1"
    "case r of None \<Rightarrow> dict_map d k = None
     | Some a \<Rightarrow> \<exists>e \<in> set (dict_entries d1). de_addr e = a \<and> dictCompareKeys t k (de_key e) \<and>
         dict_map d k = Some (de_val e)"
    using dictFind_ok [OF inv t] by blast
  have t1: "dtype d1 = t" using r(3) t by (simp add: same_content_def)
  have m1: "dict_map d1 = dict_map d" using same_content_map [OF inv t r(3)] .
  show thesis
  proof (cases r)
    case (Some a)
    with r(4) obtain e where e: "e \<in> set (dict_entries d1)" "de_addr e = a"
        "dictCompareKeys t k (de_key e)" by auto
    then have "dictReplaceRaw cr d k = Some (d1, Some (de_addr e))"
      using r(1) Some by (simp add: dictReplaceRaw_def)
    with e that [of d1 e] r(2) t1 m1 show thesis by simp
  next
    case None
    with r(4) have none: "dict_map d k = None" by simp
    have sz1: "dictSize d1 \<le> 2 ^ 59" using same_content_size [OF inv r(2,3)] sz by simp
    from r(2) t1 sz1 show thesis
    proof (cases rule: dictAddRaw_ok [where cr = cr and k = k])
      case (exists d')
      with none m1 show thesis by simp
    next
      case (added d' e)
      have mem: "e \<in> set (dict_entries d')"
        using added(10) by (metis set_mset_mset union_single_eq_member)
      have c: "dictCompareKeys t k (de_key e)" using added(4) cmp_dup by simp
      have "dict_map d' k' = dict_map d k'" if "\<not> dictCompareKeys t k' k" for k'
        using dict_map_add_entry [OF r(2) t1 added(2,7,10), of k'] m1 that c cmp_trans cmp_sym by metis
      with c mem that [of d' e] added none r(1) None show thesis
        by (auto simp: dictReplaceRaw_def)
    qed
  qed
qed

subsection \<open>Deleting\<close>

lemma ht_unlink_ok:
  assumes wf: "ht_wf t h" and s: "ht_size h \<noteq> 0" and kd: "keys_differ t (ht_entries h)"
    and f: "List.find (\<lambda>e. dictCompareKeys t k (de_key e)) (ht_entries h) = Some e"
  shows "ht_wf t (ht_unlink t h k)"
    and "add_mset e (mset (ht_entries (ht_unlink t h k))) = mset (ht_entries h)"
    and "ht_size (ht_unlink t h k) = ht_size h" "table_addr (ht_unlink t h k) = table_addr h"
    and "length (table (ht_unlink t h k)) = length (table h)"
    and "\<And>j. table h ! j = [] \<Longrightarrow> table (ht_unlink t h k) ! j = []"
proof -
  let ?P = "\<lambda>e. dictCompareKeys t k (de_key e)"
  let ?i = "dictHashKey t k AND sizemask h"
  have i: "?i < length (table h)" using wf s by (rule ht_index_bound)
  have c: "List.find ?P (table h ! ?i) = Some e"
    using ht_find_ok [OF wf s kd, of k] f i by (simp add: ht_find_def arr_simps)
  have r: "add_mset e (mset (remove_first ?P (table h ! ?i))) = mset (table h ! ?i)"
    using c by (rule mset_remove_first)
  have m: "mset (ht_entries (ht_unlink t h k)) + mset (table h ! ?i) =
      mset (ht_entries h) + mset (remove_first ?P (table h ! ?i))"
    using mset_concat_update [OF i] by (simp add: ht_unlink_def Let_def ht_entries_def)
  then show *: "add_mset e (mset (ht_entries (ht_unlink t h k))) = mset (ht_entries h)"
    unfolding r [symmetric] by simp
  have "Suc (length (ht_entries (ht_unlink t h k))) = length (ht_entries h)"
    using * [THEN arg_cong [where f = size]] by simp
  moreover have "set (remove_first ?P (table h ! ?i)) \<subseteq> set (table h ! ?i)"
    using r by (metis mset_subset_eq_add_right add_mset_add_single set_mset_mono set_mset_mset
      mset_subset_eq_add_left)
  then have "\<forall>j < length (table h). \<forall>x \<in> set ((table h)[?i := remove_first ?P (table h ! ?i)] ! j).
      dictHashKey t (de_key x) AND sizemask h = j"
    using wf i by (auto simp: ht_wf_def nth_list_update)
  ultimately show "ht_wf t (ht_unlink t h k)"
    using wf by (auto simp: ht_wf_def ht_unlink_def Let_def)
  show "table (ht_unlink t h k) ! j = []" if "table h ! j = []" for j
    using that c by (cases "j = ?i") (auto simp: ht_unlink_def Let_def)
qed (simp_all add: ht_unlink_def Let_def)

lemma dict_inv_del_entry:
  assumes inv: "dict_inv d" and t: "dtype d = t"
    and d': "dtype d' = t" "next_addr d' = next_addr d"
      "add_mset e (mset (dict_entries d')) = mset (dict_entries d)"
      "ht_wf t (ht0 d')" "ht_wf t (ht1 d')" "rehash_wf d'"
      "table_addr (ht0 d') = table_addr (ht0 d)" "table_addr (ht1 d') = table_addr (ht1 d)"
    and e: "dictCompareKeys t k (de_key e)"
  shows "dict_inv d'" and "dict_map d' = map_del t k (dict_map d)"
proof -
  have p: "mset (e # dict_entries d') = mset (dict_entries d)" using d'(3) by simp
  have kd: "keys_differ t (e # dict_entries d')"
    using keys_differ_perm [OF p] inv t by (simp add: dict_inv_def)
  have "addrs_ok (next_addr d) (e # dict_entries d')"
    using addrs_ok_perm [OF p] inv by (simp add: dict_inv_def)
  with kd show inv': "dict_inv d'"
    using d' inv by (simp add: dict_inv_def keys_differ_def addrs_ok_def)
  have s: "set (dict_entries d) = insert e (set (dict_entries d'))"
    using p by (metis list.simps(15) set_mset_mset)
  have ne: "\<not> dictCompareKeys t (de_key e) (de_key x)" if "x \<in> set (dict_entries d')" for x
    using kd that by (simp add: keys_differ_def)
  have "dict_map d' k' = Some y \<longleftrightarrow> map_del t k (dict_map d) k' = Some y" for k' y
  proof (cases "dictCompareKeys t k' k")
    case True
    have "\<not> dictCompareKeys t k' (de_key x)" if "x \<in> set (dict_entries d')" for x
      using ne [OF that] True e cmp_sym cmp_trans by metis
    with True show ?thesis
      unfolding dict_map_iff [OF inv' d'(1)] by (auto simp: map_del_def)
  next
    case False
    then have "\<not> dictCompareKeys t k' (de_key e)" using e cmp_sym cmp_trans by metis
    with False s show ?thesis
      unfolding dict_map_iff [OF inv' d'(1)] by (auto simp: map_del_def dict_map_iff [OF inv t])
  qed
  then show "dict_map d' = map_del t k (dict_map d)"
    by (intro ext option_eqI)
qed

lemma map_del_none: "dict_inv d \<Longrightarrow> dtype d = t \<Longrightarrow> dict_map d k = None \<Longrightarrow> map_del t k (dict_map d) = dict_map d"
  using dict_map_cong by (fastforce simp: map_del_def)

lemma dictGenericDelete_ok:
  assumes inv: "dict_inv d" and t: "dtype d = t"
  obtains (absent) d' where "dictGenericDelete d k nofree = Some (d', DICT_ERR, [])" "dict_inv d'"
      "dict_map d k = None" "same_content d d'"
    | (deleted) d' e where "dictGenericDelete d k nofree =
        Some (d', DICT_OK, if nofree then [] else dictFreeEntry t e)" "dict_inv d'"
      "e \<in> set (dict_entries d)" "dictCompareKeys t k (de_key e)" "dict_map d k = Some (de_val e)"
      "dtype d' = t" "iterators d' = iterators d"
      "add_mset e (mset (dict_entries d')) = mset (dict_entries d)"
      "dict_map d' = map_del t k (dict_map d)"
proof (cases "ht_size (ht0 d) = 0")
  case True
  have "dict_entries d = []"
    using True inv by (auto simp: dict_inv_def dict_entries_def ht_wf_def ht_entries_def
      rehash_wf_def dictReset_def split: if_splits)
  with True inv absent [of d] show thesis
    by (simp add: dictGenericDelete_def dict_map_def)
next
  case False
  obtain d1 where d1: "dictStepIfRehashing d = Some d1" "dict_inv d1" "same_content d d1" "dtype d1 = t"
    using dictStepIfRehashing_ok [OF inv t] by blast
  have m: "dict_map d1 = dict_map d" using same_content_map [OF inv t d1(3)] .
  have s: "ht_size (ht0 d1) \<noteq> 0" using dictStepIfRehashing_size [OF inv t False d1(1)] .
  have wf: "ht_wf t (ht0 d1)" "ht_wf t (ht1 d1)" and rw: "rehash_wf d1"
    and kd: "keys_differ t (ht_entries (ht0 d1))" "keys_differ t (ht_entries (ht1 d1))"
    using d1(2,4) by (auto simp: dict_inv_def dict_entries_def keys_differ_append)
  note f = dict_inv_find [OF d1(2,4) s]
  have del: thesis if e: "e \<in> set (dict_entries d1)" "dictCompareKeys t k (de_key e)"
      "dict_map d1 k = Some (de_val e)"
    and g: "dictGenericDelete d k nofree = Some (d', DICT_OK, if nofree then [] else dictFreeEntry t e)"
    and d': "dtype d' = t" "next_addr d' = next_addr d1" "iterators d' = iterators d1"
      "add_mset e (mset (dict_entries d')) = mset (dict_entries d1)"
      "ht_wf t (ht0 d')" "ht_wf t (ht1 d')" "rehash_wf d'"
      "table_addr (ht0 d') = table_addr (ht0 d1)" "table_addr (ht1 d') = table_addr (ht1 d1)" for e d'
    using deleted [OF g, OF dict_inv_del_entry(1) [OF d1(2,4) d'(1,2,4-9) e(2)]]
      dict_inv_del_entry(2) [OF d1(2,4) d'(1,2,4-9) e(2)] e m d' same_content_sets [OF d1(3)] d1(3)
    by (simp add: same_content_def)
  show thesis
  proof (cases "List.find (\<lambda>e. dictCompareKeys t k (de_key e)) (ht_entries (ht0 d1))")
    case (Some e)
    note u = ht_unlink_ok [OF wf(1) s kd(1) Some]
    let ?d = "d1\<lparr>ht0 := ht_unlink t (ht0 d1) k\<rparr>"
    have "rehash_wf ?d" using rw u by (auto simp: rehash_wf_def dictIsRehashing_def)
    moreover have "dict_map d1 k = Some (de_val e)" using Some dict_map_split [OF d1(4), of k] by simp
    moreover have "e \<in> set (dict_entries d1)" "dictCompareKeys t k (de_key e)"
      using Some by (auto simp: find_Some_iff dict_entries_def)
    ultimately show thesis
      using del [of e ?d] u wf d1 Some f False
      by (auto simp: dictGenericDelete_def dict_entries_def)
  next
    case none0: None
    show thesis
    proof (cases "List.find (\<lambda>e. dictCompareKeys t k (de_key e)) (ht_entries (ht1 d1))")
      case None
      then have "dict_map d k = None"
        using none0 dict_map_split [OF d1(4), of k] m by simp
      with None none0 show thesis
        using absent [of d1] False d1 f by (auto simp: dictGenericDelete_def)
    next
      case (Some e)
      have rh: "dictIsRehashing d1" using Some f(3) by (cases "dictIsRehashing d1") auto
      then have s1: "ht_size (ht1 d1) \<noteq> 0" using rw by (simp add: rehash_wf_def)
      note u = ht_unlink_ok [OF wf(2) s1 kd(2) Some]
      let ?d = "d1\<lparr>ht1 := ht_unlink t (ht1 d1) k\<rparr>"
      have "rehash_wf ?d" using rw u rh by (auto simp: rehash_wf_def dictIsRehashing_def)
      moreover have "dict_map d1 k = Some (de_val e)"
        using Some none0 dict_map_split [OF d1(4), of k] by simp
      moreover have "e \<in> set (dict_entries d1)" "dictCompareKeys t k (de_key e)"
        using Some by (auto simp: find_Some_iff dict_entries_def)
      ultimately show thesis
        using del [of e ?d] u wf d1 Some none0 f False rh
        by (auto simp: dictGenericDelete_def dict_entries_def)
    qed
  qed
qed

subsection \<open>Completing a rehash\<close>

text \<open>
  A rehash of a table with \<open>u\<close> entries is over after at most \<open>u + 1\<close> steps, since every step
  that does not end it moves a non-empty chain.
\<close>

lemma rehash_loop_completes:
  assumes "dict_inv d" "dtype d = t" "dictIsRehashing d" "used (ht0 d) < n"
  shows "\<exists>d'. rehash_loop n d = Some (d', False) \<and> dict_inv d' \<and> same_content d d' \<and>
    \<not> dictIsRehashing d'"
  using assms
proof (induction n arbitrary: d)
  case (Suc n)
  show ?case
  proof (cases "used (ht0 d) = 0")
    case True
    with rehash_finish_ok [OF Suc.prems(1-3)] show ?thesis by auto
  next
    case False
    from rehash_bucket_ok [OF Suc.prems(1-3) False] obtain d1 where d1:
      "rehash_bucket d = Some d1" "dict_inv d1" "same_content d d1" "dictIsRehashing d1"
      "used (ht0 d1) < used (ht0 d)"
      by blast
    moreover have "dtype d1 = t" using d1(3) Suc.prems(2) by (simp add: same_content_def)
    ultimately show ?thesis
      using Suc.IH [of d1] Suc.prems(4) False same_content_trans by fastforce
  qed
qed simp

lemma rehash_loop_progress:
  assumes "dict_inv d" "dtype d = t" "dictIsRehashing d" "rehash_loop n d = Some (d', True)"
  shows "used (ht0 d') + n \<le> used (ht0 d)"
  using assms
proof (induction n arbitrary: d)
  case (Suc n)
  then have u: "used (ht0 d) \<noteq> 0" by (auto split: if_splits)
  from rehash_bucket_ok [OF Suc.prems(1-3) u] obtain d1 where d1:
    "rehash_bucket d = Some d1" "dict_inv d1" "same_content d d1" "dictIsRehashing d1"
    "used (ht0 d1) < used (ht0 d)"
    by blast
  moreover have "dtype d1 = t" using d1(3) Suc.prems(2) by (simp add: same_content_def)
  moreover have "rehash_loop n d1 = Some (d', True)" using Suc.prems(4) u d1(1) by simp
  ultimately have "used (ht0 d') + n \<le> used (ht0 d1)" by (intro Suc.IH)
  with d1(5) show ?case by simp
qed simp

lemma rehash_ms_loop_ok:
  assumes "dict_inv d" "dtype d = t" "used (ht0 d) \<le> 100 * length clock"
  shows "\<exists>d' n. rehash_ms_loop ms start clock d rehashes = Some (d', n) \<and> dict_inv d' \<and>
    same_content d d'"
  using assms
proof (induction clock arbitrary: d rehashes)
  case Nil
  obtain d1 where d1: "dictRehash d 100 = Some (d1, dictIsRehashing d1)" "dict_inv d1" "same_content d d1"
    using dictRehash_ok [OF Nil(1,2), of 100] by blast
  moreover have "\<not> dictIsRehashing d1"
    using d1(1) rehash_loop_progress [OF Nil(1,2), of 100 d1] Nil(3)
    by (auto simp: dictRehash_def split: if_splits)
  ultimately show ?case by (subst rehash_ms_loop.simps) simp
next
  case (Cons now clock)
  obtain d1 where d1: "dictRehash d 100 = Some (d1, dictIsRehashing d1)" "dict_inv d1" "same_content d d1"
    using dictRehash_ok [OF Cons.prems(1,2), of 100] by blast
  have t1: "dtype d1 = t" using d1(3) Cons.prems(2) by (simp add: same_content_def)
  show ?case
  proof (cases "dictIsRehashing d1")
    case True
    then have "used (ht0 d1) \<le> 100 * length clock"
      using d1(1) rehash_loop_progress [OF Cons.prems(1,2), of 100 d1] Cons.prems(3)
      by (auto simp: dictRehash_def split: if_splits)
    from Cons.IH [OF d1(2) t1 this, of "rehashes + 100"] True d1 same_content_trans show ?thesis
      by (subst rehash_ms_loop.simps) fastforce
  next
    case False
    with d1 show ?thesis by (subst rehash_ms_loop.simps) simp
  qed
qed

end

end
