(* ===== verification/Util.thy ===== *)
theory Util
  imports Prelude
begin

text \<open>
  The number conversions of \<^verbatim>\<open>redis-3.0/src/util.c\<close>: printing a long long
  (\<^verbatim>\<open>ll2string\<close>), parsing one (\<^verbatim>\<open>string2ll\<close>, \<^verbatim>\<open>string2l\<close>), and the path test
  \<^verbatim>\<open>pathIsBaseName\<close>. A C buffer together with its length is a list of characters; the
  unsigned long long in which the digits are accumulated is a natural number and every
  overflow test of the source is written out.
\<close>

definition ULLONG_MAX :: nat where
  "ULLONG_MAX = 2 ^ 64 - 1"

definition LLONG_MIN :: int where
  "LLONG_MIN = - (2 ^ 63)"

definition LLONG_MAX :: int where
  "LLONG_MAX = 2 ^ 63 - 1"

subsection \<open>Printing\<close>

text \<open>The do-while loop that writes the digits from the last to the first.\<close>

function ull_digits :: "nat \<Rightarrow> char list \<Rightarrow> char list" where
  "ull_digits v buf =
     (let buf' = char_of (48 + v mod 10) # buf
      in if v div 10 = 0 then buf' else ull_digits (v div 10) buf')"
  by pat_completeness auto
termination
  by (relation "measure fst") auto

declare ull_digits.simps [simp del]

text \<open>
  The characters that \<^verbatim>\<open>ll2string\<close> stores before the terminating nul; their number is its
  return value. The magnitude is computed in unsigned 64-bit arithmetic.
\<close>

definition ll2string :: "nat \<Rightarrow> int \<Rightarrow> char list" where
  "ll2string len val =
     (if len = 0 then []
      else
        let v = unat (if val < 0 then - word_of_int val else word_of_int val :: uint64);
            p = ull_digits v [];
            p = (if val < 0 then CHR ''-'' # p else p);
            l = length p;
            l = (if l + 1 > len then len - 1 else l)
        in take l p)"

subsection \<open>Parsing\<close>

definition is_digit :: "char \<Rightarrow> bool" where
  "is_digit c \<longleftrightarrow> 48 \<le> (of_char c :: nat) \<and> (of_char c :: nat) \<le> 57"

definition digit_of :: "char \<Rightarrow> nat" where
  "digit_of c = of_char c - 48"

text \<open>
  The loop over the digits: \<^term>\<open>None\<close> is the return on overflow, otherwise the value and the
  unread rest of the string.
\<close>

fun ull_parse :: "char list \<Rightarrow> nat \<Rightarrow> (nat \<times> char list) option" where
  "ull_parse [] v = Some (v, [])"
| "ull_parse (c # p) v =
     (if is_digit c then
        (if v > ULLONG_MAX div 10 then None
         else if v * 10 > ULLONG_MAX - digit_of c then None
         else ull_parse p (v * 10 + digit_of c))
      else Some (v, c # p))"

text \<open>\<^verbatim>\<open>string2ll\<close>: \<^term>\<open>None\<close> is the return value 0, otherwise the value stored.\<close>

definition string2ll :: "char list \<Rightarrow> int option" where
  "string2ll s =
     (if s = [] then None
      else if s = ''0'' then Some 0
      else
        let negative = (hd s = CHR ''-'');
            p = (if negative then tl s else s)
        in case p of
             [] \<Rightarrow> None
           | c # p' \<Rightarrow>
               if is_digit c \<and> c \<noteq> CHR ''0'' then
                 (case ull_parse p' (digit_of c) of
                    None \<Rightarrow> None
                  | Some (v, rest) \<Rightarrow>
                      if rest \<noteq> [] then None
                      else if negative then
                        (if v > nat (- (LLONG_MIN + 1)) + 1 then None
                         else Some (sint (- word_of_nat v :: uint64)))
                      else
                        (if v > nat LLONG_MAX then None else Some (sint (word_of_nat v :: uint64))))
               else None)"

text \<open>\<^verbatim>\<open>string2l\<close> on a platform where long has 64 bits.\<close>

definition string2l :: "char list \<Rightarrow> int option" where
  "string2l s =
     (case string2ll s of
        None \<Rightarrow> None
      | Some llval \<Rightarrow> if llval < LLONG_MIN \<or> llval > LLONG_MAX then None else Some llval)"

definition pathIsBaseName :: "char list \<Rightarrow> bool" where
  "pathIsBaseName path \<longleftrightarrow> CHR ''/'' \<notin> set path \<and> char_of (92 :: nat) \<notin> set path"

subsection \<open>Digits\<close>

definition dec_value :: "char list \<Rightarrow> nat" where
  "dec_value s = foldl (\<lambda>a c. a * 10 + digit_of c) 0 s"

lemma is_digit_char_of [simp]: "is_digit (char_of (48 + v mod 10 :: nat))"
  by (simp add: is_digit_def)

lemma digit_of_char_of [simp]: "digit_of (char_of (48 + v mod 10 :: nat)) = v mod 10"
  by (simp add: digit_of_def)

lemma char_of_digit: "is_digit c \<Longrightarrow> char_of (48 + digit_of c) = c"
  by (simp add: is_digit_def digit_of_def)

lemma digit_of_less: "is_digit c \<Longrightarrow> digit_of c < 10"
  unfolding is_digit_def digit_of_def by linarith

lemma of_char_0: "(of_char CHR ''0'' :: nat) = 48"
  by simp

lemma digit_of_0_iff: "is_digit c \<Longrightarrow> digit_of c = 0 \<longleftrightarrow> c = CHR ''0''"
  unfolding is_digit_def digit_of_def by (metis diff_is_0_eq le_antisym of_char_0 of_char_eq_iff)

lemma ull_digits_append: "ull_digits v (a @ b) = ull_digits v a @ b"
proof (induction v a rule: ull_digits.induct)
  case (1 v a)
  then show ?case by (simp add: ull_digits.simps [of v] Let_def)
qed

lemma ull_digits_small: "v < 10 \<Longrightarrow> ull_digits v [] = [char_of (48 + v)]"
  by (simp add: ull_digits.simps [of v])

lemma ull_digits_large:
  assumes "10 \<le> v"
  shows "ull_digits v [] = ull_digits (v div 10) [] @ [char_of (48 + v mod 10)]"
proof -
  have "v div 10 \<noteq> 0" using assms by linarith
  then show ?thesis
    using ull_digits_append [of "v div 10" "[]" "[char_of (48 + v mod 10)]"]
    by (simp add: ull_digits.simps [of v] Let_def)
qed

lemma dec_value_snoc: "dec_value (s @ [c]) = dec_value s * 10 + digit_of c"
  by (simp add: dec_value_def)

lemma ull_digits_ok:
  "list_all is_digit (ull_digits v []) \<and> dec_value (ull_digits v []) = v \<and>
     ull_digits v [] \<noteq> [] \<and> (0 < v \<longrightarrow> hd (ull_digits v []) \<noteq> CHR ''0'')"
proof (induction v rule: less_induct)
  case (less v)
  show ?case
  proof (cases "v < 10")
    case True
    then have "is_digit (char_of (48 + v))" "digit_of (char_of (48 + v)) = v"
      using is_digit_char_of [of v] digit_of_char_of [of v] by simp_all
    moreover from this have "0 < v \<Longrightarrow> char_of (48 + v) \<noteq> CHR ''0''"
      using digit_of_0_iff by force
    ultimately show ?thesis using True by (simp add: ull_digits_small dec_value_def)
  next
    case False
    with less [of "v div 10"] show ?thesis
      by (simp add: ull_digits_large dec_value_snoc)
  qed
qed

lemma ull_digits_length: "v < 10 ^ n \<Longrightarrow> 0 < n \<Longrightarrow> length (ull_digits v []) \<le> n"
proof (induction n arbitrary: v)
  case (Suc n)
  show ?case
  proof (cases "v < 10")
    case True
    then show ?thesis by (simp add: ull_digits_small)
  next
    case False
    then have "n \<noteq> 0" using Suc.prems by (cases n) auto
    with Suc False show ?thesis by (simp add: ull_digits_large)
  qed
qed simp

lemma dec_value_pos: "s \<noteq> [] \<Longrightarrow> list_all is_digit s \<Longrightarrow> hd s \<noteq> CHR ''0'' \<Longrightarrow> 0 < dec_value s"
proof (induction s rule: rev_induct)
  case (snoc c s)
  then show ?case
    using digit_of_0_iff [of c] by (cases "s = []") (auto simp: dec_value_def)
qed simp

lemma ull_digits_dec_value:
  "s \<noteq> [] \<Longrightarrow> list_all is_digit s \<Longrightarrow> hd s \<noteq> CHR ''0'' \<Longrightarrow> ull_digits (dec_value s) [] = s"
proof (induction s rule: rev_induct)
  case (snoc c s)
  then have c: "is_digit c" by simp
  show ?case
  proof (cases "s = []")
    case True
    with c digit_of_less [OF c] show ?thesis
      by (simp add: dec_value_def ull_digits_small char_of_digit)
  next
    case False
    with snoc have "0 < dec_value s" "ull_digits (dec_value s) [] = s"
      by (auto intro: dec_value_pos)
    with digit_of_less [OF c] char_of_digit [OF c] show ?thesis
      by (simp add: dec_value_snoc ull_digits_large)
  qed
qed simp

lemma foldl_dec_ge: "v \<le> foldl (\<lambda>a c. a * 10 + digit_of c) v p"
proof (induction p arbitrary: v)
  case (Cons c p)
  have "v \<le> v * 10 + digit_of c" by simp
  also have "\<dots> \<le> foldl (\<lambda>a c. a * 10 + digit_of c) (v * 10 + digit_of c) p" by (rule Cons.IH)
  finally show ?case by simp
qed simp

lemma ull_parse_iff:
  "v \<le> ULLONG_MAX \<Longrightarrow> ull_parse p v = Some (w, []) \<longleftrightarrow>
     list_all is_digit p \<and> w = foldl (\<lambda>a c. a * 10 + digit_of c) v p \<and> w \<le> ULLONG_MAX"
proof (induction p arbitrary: v)
  case (Cons c p)
  show ?case
  proof (cases "is_digit c")
    case True
    then have d: "digit_of c < 10" by (rule digit_of_less)
    have "v > ULLONG_MAX div 10 \<or> v * 10 > ULLONG_MAX - digit_of c \<longleftrightarrow> v * 10 + digit_of c > ULLONG_MAX"
      using d by (simp add: div_less_iff_less_mult ULLONG_MAX_def) linarith
    then show ?thesis
      using True Cons.IH [of "v * 10 + digit_of c"] foldl_dec_ge [of "v * 10 + digit_of c" p]
      by auto
  next
    case False
    then show ?thesis by simp
  qed
qed auto

subsection \<open>Printing and parsing are inverse\<close>

lemma unat_of_int64: "0 \<le> k \<Longrightarrow> k < 2 ^ 64 \<Longrightarrow> unat (word_of_int k :: uint64) = nat k"
  by (simp add: unsigned_of_int take_bit_int_eq_self)

lemma magnitude:
  assumes "LLONG_MIN \<le> val" "val \<le> LLONG_MAX"
  shows "unat (if val < 0 then - word_of_int val else word_of_int val :: uint64) = nat \<bar>val\<bar>"
proof (cases "val < 0")
  case True
  have "- word_of_int val = (word_of_int (- val) :: uint64)" by simp
  moreover have "unat (word_of_int (- val) :: uint64) = nat (- val)"
    using True assms(1) by (intro unat_of_int64) (simp_all add: LLONG_MIN_def)
  ultimately show ?thesis using True by simp
next
  case False
  then have "unat (word_of_int val :: uint64) = nat val"
    using assms(2) by (intro unat_of_int64) (simp_all add: LLONG_MAX_def)
  with False show ?thesis by simp
qed

lemma ll2string_value:
  assumes "LLONG_MIN \<le> val" "val \<le> LLONG_MAX"
  shows "ll2string 32 val = (if val < 0 then CHR ''-'' # ull_digits (nat \<bar>val\<bar>) [] else ull_digits (nat \<bar>val\<bar>) [])"
proof -
  have "nat \<bar>val\<bar> < 10 ^ 20" using assms by (simp add: LLONG_MIN_def LLONG_MAX_def)
  then have "length (ull_digits (nat \<bar>val\<bar>) []) \<le> 20" by (rule ull_digits_length) simp
  then show ?thesis
    unfolding ll2string_def magnitude [OF assms] by (cases "val < 0") (simp_all add: Let_def)
qed

lemma sint_of_nat: "v < 2 ^ 63 \<Longrightarrow> sint (word_of_nat v :: uint64) = int v"
  by (simp add: signed_of_nat signed_take_bit_int_eq_self)

lemma sint_neg_of_nat: "v \<le> 2 ^ 63 \<Longrightarrow> sint (- word_of_nat v :: uint64) = - int v"
proof -
  assume "v \<le> 2 ^ 63"
  moreover have "(- word_of_nat v :: uint64) = word_of_int (- int v)" by (simp add: wi_hom_neg [symmetric])
  ultimately show ?thesis
    by (simp add: signed_of_int signed_take_bit_int_eq_self del: of_int_minus of_int_of_nat_eq)
qed

lemma is_digit_minus: "\<not> is_digit CHR ''-''"
  by (simp add: is_digit_def)

lemma ull_parse_canonical:
  "is_digit c \<and> c \<noteq> CHR ''0'' \<and> ull_parse p (digit_of c) = Some (v, []) \<longleftrightarrow>
     0 < v \<and> v \<le> ULLONG_MAX \<and> ull_digits v [] = c # p" (is "?l \<longleftrightarrow> ?r")
proof
  assume l: ?l
  then have c: "is_digit c" "c \<noteq> CHR ''0''" by auto
  have "digit_of c \<le> ULLONG_MAX" using digit_of_less [OF c(1)] by (simp add: ULLONG_MAX_def)
  with l have "list_all is_digit p" "v = dec_value (c # p)" "v \<le> ULLONG_MAX"
    using ull_parse_iff [of "digit_of c" p v] by (auto simp: dec_value_def)
  with c show ?r
    using ull_digits_dec_value [of "c # p"] dec_value_pos [of "c # p"] by simp
next
  assume r: ?r
  with ull_digits_ok [of v] have c: "is_digit c" "c \<noteq> CHR ''0''" "list_all is_digit p"
    "dec_value (c # p) = v" by auto
  have "digit_of c \<le> ULLONG_MAX" using digit_of_less [OF c(1)] by (simp add: ULLONG_MAX_def)
  with c r show ?l
    using ull_parse_iff [of "digit_of c" p v] by (auto simp: dec_value_def)
qed

lemma ull_digits_0: "ull_digits 0 [] = ''0''"
  using char_of_char [of "CHR ''0''", where 'a = nat] by (simp add: ull_digits_small)

text \<open>What \<^verbatim>\<open>string2ll\<close> accepts after an optional sign.\<close>

lemma string2ll_neg:
  "string2ll (CHR ''-'' # s) = Some i \<longleftrightarrow> (\<exists>v. 0 < v \<and> v \<le> 2 ^ 63 \<and> ull_digits v [] = s \<and> i = - int v)"
proof (cases s)
  case Nil
  then show ?thesis using ull_digits_ok by (auto simp: string2ll_def)
next
  case (Cons c p)
  have "string2ll (CHR ''-'' # c # p) = Some i \<longleftrightarrow>
      (\<exists>v. (is_digit c \<and> c \<noteq> CHR ''0'' \<and> ull_parse p (digit_of c) = Some (v, [])) \<and>
        v \<le> 2 ^ 63 \<and> i = - int v)"
    by (auto simp: string2ll_def LLONG_MIN_def sint_neg_of_nat split: option.splits)
  also have "\<dots> \<longleftrightarrow> (\<exists>v. 0 < v \<and> v \<le> 2 ^ 63 \<and> ull_digits v [] = c # p \<and> i = - int v)"
    unfolding ull_parse_canonical by (auto simp: ULLONG_MAX_def)
  finally show ?thesis using Cons by simp
qed

lemma string2ll_pos:
  assumes "s \<noteq> ''0''" "s \<noteq> []" "hd s \<noteq> CHR ''-''"
  shows "string2ll s = Some i \<longleftrightarrow> (\<exists>v. 0 < v \<and> v < 2 ^ 63 \<and> ull_digits v [] = s \<and> i = int v)"
proof (cases s)
  case Nil
  with assms(2) show ?thesis by simp
next
  case (Cons c p)
  have "string2ll (c # p) = Some i \<longleftrightarrow>
      (\<exists>v. (is_digit c \<and> c \<noteq> CHR ''0'' \<and> ull_parse p (digit_of c) = Some (v, [])) \<and>
        v < 2 ^ 63 \<and> i = int v)"
    using assms Cons by (auto simp: string2ll_def LLONG_MAX_def sint_of_nat split: option.splits)
  also have "\<dots> \<longleftrightarrow> (\<exists>v. 0 < v \<and> v < 2 ^ 63 \<and> ull_digits v [] = c # p \<and> i = int v)"
    unfolding ull_parse_canonical by (auto simp: ULLONG_MAX_def)
  finally show ?thesis using Cons by simp
qed

lemma ll2string_neg_iff:
  "LLONG_MIN \<le> i \<and> i \<le> LLONG_MAX \<and> ll2string 32 i = CHR ''-'' # p \<longleftrightarrow>
     (\<exists>v. 0 < v \<and> v \<le> 2 ^ 63 \<and> ull_digits v [] = p \<and> i = - int v)"
  (is "?l \<longleftrightarrow> ?r")
proof
  assume l: ?l
  have "ull_digits v [] \<noteq> CHR ''-'' # p" for v
    using ull_digits_ok [of v] is_digit_minus by auto
  with l have "i < 0" "ull_digits (nat (- i)) [] = p"
    using ll2string_value [of i] by (auto split: if_splits)
  with l show ?r by (intro exI [of _ "nat (- i)"]) (auto simp: LLONG_MIN_def)
next
  assume ?r
  then show ?l
    using ll2string_value [of i] by (auto simp: LLONG_MIN_def LLONG_MAX_def)
qed

lemma ll2string_pos_iff:
  assumes "s \<noteq> ''0''" "hd s \<noteq> CHR ''-''"
  shows "LLONG_MIN \<le> i \<and> i \<le> LLONG_MAX \<and> ll2string 32 i = s \<longleftrightarrow>
     (\<exists>v. 0 < v \<and> v < 2 ^ 63 \<and> ull_digits v [] = s \<and> i = int v)"
  (is "?l \<longleftrightarrow> ?r")
proof
  assume l: ?l
  then have v: "ll2string 32 i = (if i < 0 then CHR ''-'' # ull_digits (nat \<bar>i\<bar>) [] else ull_digits (nat \<bar>i\<bar>) [])"
    by (intro ll2string_value) auto
  have "\<not> i < 0" using l v assms(2) by (metis list.sel(1))
  moreover have "i \<noteq> 0" using l v assms(1) ull_digits_0 by force
  ultimately show ?r
    using l v by (intro exI [of _ "nat i"]) (auto simp: LLONG_MAX_def)
next
  assume ?r
  then show ?l
    using ll2string_value [of i] by (auto simp: LLONG_MIN_def LLONG_MAX_def)
qed

lemma ll2string_zero_iff:
  "LLONG_MIN \<le> i \<and> i \<le> LLONG_MAX \<and> ll2string 32 i = ''0'' \<longleftrightarrow> i = 0" (is "?l \<longleftrightarrow> ?r")
proof
  assume l: ?l
  then have v: "ll2string 32 i = (if i < 0 then CHR ''-'' # ull_digits (nat \<bar>i\<bar>) [] else ull_digits (nat \<bar>i\<bar>) [])"
    by (intro ll2string_value) auto
  then have "\<not> i < 0" "ull_digits (nat \<bar>i\<bar>) [] = ''0''"
    using l by (auto split: if_splits)
  moreover have "dec_value ''0'' = 0" by (simp add: dec_value_def digit_of_def)
  ultimately have "nat \<bar>i\<bar> = 0" using ull_digits_ok [of "nat \<bar>i\<bar>"] by metis
  then show ?r by simp
next
  assume ?r
  then show ?l
    using ll2string_value [of 0] ull_digits_0 by (simp add: LLONG_MIN_def LLONG_MAX_def)
qed

lemma string2ll_canonical_iff:
  "string2ll s = Some i \<longleftrightarrow> LLONG_MIN \<le> i \<and> i \<le> LLONG_MAX \<and> ll2string 32 i = s"
proof -
  consider "s = []" | "s = ''0''" | p where "s = CHR ''-'' # p" | "s \<noteq> []" "s \<noteq> ''0''" "hd s \<noteq> CHR ''-''"
    by (cases s) auto
  then show ?thesis
  proof cases
    case 1
    then show ?thesis using ull_digits_ok ll2string_value [of i] by (auto simp: string2ll_def split: if_splits)
  next
    case 2
    then show ?thesis unfolding 2 ll2string_zero_iff by (auto simp: string2ll_def)
  next
    case 3
    then show ?thesis by (simp only: string2ll_neg ll2string_neg_iff)
  next
    case 4
    then show ?thesis by (simp only: string2ll_pos ll2string_pos_iff not_False_eq_True)
  qed
qed

lemma string2ll_canonical:
  "LLONG_MIN \<le> i \<and> i \<le> LLONG_MAX \<Longrightarrow> string2ll (ll2string 32 i) = Some i"
  by (simp add: string2ll_canonical_iff)

text \<open>
  C9: \<^verbatim>\<open>string2ll\<close> accepts exactly the canonical decimal form of each long long, the one
  \<^verbatim>\<open>ll2string\<close> prints, and returns its value: printing and parsing are inverse to each
  other, and no other spelling (leading zeros, a plus sign, blanks, out of range) is accepted.
\<close>

theorem string2ll_iff_ll2string:
  "string2ll s = Some i \<longleftrightarrow> LLONG_MIN \<le> i \<and> i \<le> LLONG_MAX \<and> ll2string 32 i = s"
  by (rule string2ll_canonical_iff)

end
