(* ===== verification/Memory.thy ===== *)
theory Memory
  imports Prelude
begin

text \<open>
  Blocks of memory. A byte is a character and a block a list of optional bytes, where \<^term>\<open>None\<close> is
  memory that the allocator returned and nobody has written yet. Accesses outside the block and
  reads of unwritten bytes are undefined, the value \<^term>\<open>None\<close>. Multi-byte integers are stored with
  the least significant byte first, as on the little-endian machines for which the macros
  \<^verbatim>\<open>memrev16ifbe\<close> to \<^verbatim>\<open>intrev64ifbe\<close> of \<^verbatim>\<open>endianconv.h\<close> are empty.
\<close>

named_theorems mem_simps \<open>reads and writes of a block\<close>

subsection \<open>Accesses\<close>

type_synonym mem = "char option list"

text \<open>\<^verbatim>\<open>memcpy(buf+pos, bytes, n)\<close> and \<^verbatim>\<open>buf[pos] = c\<close>.\<close>

definition mem_write :: "mem \<Rightarrow> nat \<Rightarrow> char list \<Rightarrow> mem option" where
  "mem_write buf pos bytes =
     (if pos + length bytes \<le> length buf
      then Some (take pos buf @ map Some bytes @ drop (pos + length bytes) buf)
      else None)"

text \<open>The \<^verbatim>\<open>n\<close> bytes at \<^verbatim>\<open>pos\<close>.\<close>

definition mem_read :: "mem \<Rightarrow> nat \<Rightarrow> nat \<Rightarrow> char list option" where
  "mem_read buf pos n =
     (if pos + n \<le> length buf then those (take n (drop pos buf)) else None)"

definition zrealloc :: "mem \<Rightarrow> nat \<Rightarrow> mem" where
  "zrealloc buf n = take n buf @ replicate (n - length buf) None"

text \<open>\<^verbatim>\<open>memmove(buf+dst, buf+src, n)\<close>; unwritten bytes move along.\<close>

definition mem_move :: "mem \<Rightarrow> nat \<Rightarrow> nat \<Rightarrow> nat \<Rightarrow> mem option" where
  "mem_move buf dst src n =
     (if src + n \<le> length buf \<and> dst + n \<le> length buf
      then Some (take dst buf @ take n (drop src buf) @ drop (dst + n) buf)
      else None)"

lemma those_map_Some [mem_simps]: "those (map Some xs) = Some xs"
  by (induction xs) auto

lemma mem_write_append [mem_simps]:
  "n = length xs \<Longrightarrow> length bs \<le> length ys \<Longrightarrow>
   mem_write (xs @ ys) n bs = Some (xs @ map Some bs @ drop (length bs) ys)"
  by (simp add: mem_write_def)

lemma mem_write_0 [mem_simps]:
  "length bs \<le> length ys \<Longrightarrow> mem_write ys 0 bs = Some (map Some bs @ drop (length bs) ys)"
  by (simp add: mem_write_def)

lemma mem_read_append [mem_simps]: "n = length xs \<Longrightarrow> mem_read (map Some xs @ ys) 0 n = Some xs"
  by (simp add: mem_read_def those_map_Some)

lemma mem_read_mid:
  "i + n \<le> length xs \<Longrightarrow> mem_read (map Some xs @ ys) i n = Some (take n (drop i xs))"
  by (simp add: mem_read_def drop_map take_map those_map_Some)

lemma mem_read_at [mem_simps]:
  "i = length xs \<Longrightarrow> n = length bs \<Longrightarrow> mem_read (xs @ map Some bs @ ys) i n = Some bs"
  by (simp add: mem_read_def those_map_Some)

lemma mem_write_at [mem_simps]:
  "i = length xs \<Longrightarrow> length ys = length bs \<Longrightarrow> mem_write (xs @ ys @ zs) i bs = Some (xs @ map Some bs @ zs)"
  by (simp add: mem_write_def)

subsection \<open>Little-endian integers\<close>

lemma of_char_less: "(of_char c :: nat) < 256"
  using of_char_of [of "of_char c :: nat"] by (metis char_of_char of_char_mod_256 mod_less_divisor zero_less_numeral)

fun le_enc :: "nat \<Rightarrow> nat \<Rightarrow> char list" where
  "le_enc 0 k = []"
| "le_enc (Suc n) k = char_of k # le_enc n (k div 256)"

fun le_dec :: "char list \<Rightarrow> nat" where
  "le_dec [] = 0"
| "le_dec (c # cs) = of_char c + 256 * le_dec cs"

lemma length_le_enc [simp]: "length (le_enc n k) = n"
  by (induction n arbitrary: k) simp_all

lemma le_dec_enc: "le_dec (le_enc n k) = k mod 256 ^ n"
proof (induction n arbitrary: k)
  case (Suc n)
  have "k mod 256 ^ Suc n = 256 * (k div 256 mod 256 ^ n) + k mod 256"
    by (simp add: mod_mult2_eq mult.commute)
  with Suc show ?case by (simp add: of_char_of)
qed simp

lemma le_enc_dec: "le_enc (length bs) (le_dec bs) = bs"
proof (induction bs)
  case (Cons b bs)
  have "of_char b < (256 :: nat)" by (rule of_char_less)
  then have "(of_char b + 256 * le_dec bs) div 256 = le_dec bs" by simp
  moreover have "char_of (of_char b + 256 * le_dec bs) = b"
    by (simp add: char_of_eq_iff take_bit_eq_mod of_char_less mod_less)
  ultimately show ?case using Cons by simp
qed simp

lemma le_dec_less: "le_dec bs < 256 ^ length bs"
proof (induction bs)
  case (Cons b bs)
  then have "256 * le_dec bs + 256 \<le> 256 * 256 ^ length bs" by simp
  moreover have "of_char b < (256 :: nat)" by (rule of_char_less)
  ultimately have "of_char b + 256 * le_dec bs < 256 * 256 ^ length bs" by linarith
  then show ?case by simp
qed simp

end
