(* ===== verification/Sds.thy ===== *)
theory Sds
  imports Util Memory
begin

text \<open>
  The dynamic strings of \<^verbatim>\<open>redis-3.0/src/sds.c\<close> and \<^verbatim>\<open>sds.h\<close>: the header with its two
  counters and the buffer behind it. A byte of the buffer is an optional character, where
  \<^term>\<open>None\<close> is memory that the allocator returned and nobody has written yet. Every access to
  the buffer is checked: a read or write outside the allocated block, a read of an unwritten
  byte, a failed \<^verbatim>\<open>assert\<close>, and a value that does not fit the \<^verbatim>\<open>int\<close> counters make
  the operation \<^term>\<open>None\<close>. The allocator does not fail (\<^verbatim>\<open>zmalloc\<close> aborts when
  it runs out of memory). A C string argument is the list of its bytes up to the end of the
  array; functions that call \<^verbatim>\<open>strlen\<close> see it up to the first nul byte.
\<close>

definition NUL :: char where
  "NUL = char_of (0 :: nat)"

definition SDS_MAX_PREALLOC :: nat where
  "SDS_MAX_PREALLOC = 1024 * 1024"

subsection \<open>Counters and C strings\<close>

text \<open>A counter of the header receives a value of type \<^verbatim>\<open>size_t\<close>.\<close>

definition int_field :: "nat \<Rightarrow> nat option" where
  "int_field n = (if n \<le> INT_MAX then Some n else None)"

text \<open>The bytes of a C string before its terminator.\<close>

definition cstr :: "char list \<Rightarrow> char list" where
  "cstr s = takeWhile (\<lambda>c. c \<noteq> NUL) s"

text \<open>\<^verbatim>\<open>strlen\<close> of a buffer: the bytes are read up to the first nul byte.\<close>

fun mem_strlen :: "mem \<Rightarrow> nat option" where
  "mem_strlen [] = None"
| "mem_strlen (None # buf) = None"
| "mem_strlen (Some c # buf) = (if c = NUL then Some 0 else map_option Suc (mem_strlen buf))"

subsection \<open>The header\<close>

record sds =
  sds_len :: nat
  sds_free :: nat
  sds_buf :: mem

definition sdslen :: "sds \<Rightarrow> nat" where
  "sdslen s = sds_len s"

definition sdsavail :: "sds \<Rightarrow> nat" where
  "sdsavail s = sds_free s"

text \<open>The size of the two counters in front of the buffer.\<close>

definition sizeof_sdshdr :: nat where
  "sizeof_sdshdr = 8"

subsection \<open>Creation\<close>

text \<open>The initial contents are \<^term>\<open>None\<close> for the null pointer, which gives a zeroed buffer.\<close>

definition sdsnewlen :: "char list option \<Rightarrow> nat \<Rightarrow> sds option" where
  "sdsnewlen init initlen =
     do {
       len \<leftarrow> int_field initlen;
       buf \<leftarrow> (case init of
                 Some bytes \<Rightarrow>
                   (if initlen \<le> length bytes
                    then mem_write (replicate (initlen + 1) None) 0 (take initlen bytes)
                    else None)
               | None \<Rightarrow> Some (replicate (initlen + 1) (Some NUL)));
       buf \<leftarrow> mem_write buf initlen [NUL];
       Some \<lparr>sds_len = len, sds_free = 0, sds_buf = buf\<rparr>
     }"

definition sdsempty :: "sds option" where
  "sdsempty = sdsnewlen (Some []) 0"

definition sdsnew :: "char list option \<Rightarrow> sds option" where
  "sdsnew init =
     (let initlen = (case init of None \<Rightarrow> 0 | Some bytes \<Rightarrow> length (cstr bytes))
      in sdsnewlen init initlen)"

definition sdsdup :: "sds \<Rightarrow> sds option" where
  "sdsdup s = do { bytes \<leftarrow> mem_read (sds_buf s) 0 (sdslen s); sdsnewlen (Some bytes) (sdslen s) }"

definition sdsupdatelen :: "sds \<Rightarrow> sds option" where
  "sdsupdatelen s =
     do {
       reallen \<leftarrow> mem_strlen (sds_buf s);
       free \<leftarrow> int_field (nat (int (sds_free s) + (int (sds_len s) - int reallen)));
       len \<leftarrow> int_field reallen;
       Some (s\<lparr>sds_free := free, sds_len := len\<rparr>)
     }"

definition sdsclear :: "sds \<Rightarrow> sds option" where
  "sdsclear s =
     do {
       free \<leftarrow> int_field (sds_free s + sds_len s);
       buf \<leftarrow> mem_write (sds_buf s) 0 [NUL];
       Some \<lparr>sds_len = 0, sds_free = free, sds_buf = buf\<rparr>
     }"

subsection \<open>Allocation\<close>

definition sdsMakeRoomFor :: "sds \<Rightarrow> nat \<Rightarrow> sds option" where
  "sdsMakeRoomFor s addlen =
     (if sdsavail s \<ge> addlen then Some s
      else
        let len = sdslen s;
            newlen = len + addlen;
            newlen = (if newlen < SDS_MAX_PREALLOC then newlen * 2 else newlen + SDS_MAX_PREALLOC)
        in do {
             free \<leftarrow> int_field (newlen - len);
             Some (s\<lparr>sds_buf := zrealloc (sds_buf s) (newlen + 1), sds_free := free\<rparr>)
           })"

definition sdsRemoveFreeSpace :: "sds \<Rightarrow> sds" where
  "sdsRemoveFreeSpace s = s\<lparr>sds_buf := zrealloc (sds_buf s) (sds_len s + 1), sds_free := 0\<rparr>"

definition sdsAllocSize :: "sds \<Rightarrow> nat" where
  "sdsAllocSize s = sizeof_sdshdr + sds_len s + sds_free s + 1"

text \<open>
  The two assertions of \<^verbatim>\<open>sdsIncrLen\<close> are as the source has them; the new length is the
  index of the terminator, so a negative one is a write before the buffer.
\<close>

definition sdsIncrLen :: "sds \<Rightarrow> int \<Rightarrow> sds option" where
  "sdsIncrLen s incr =
     (if \<not> int (sds_free s) \<ge> incr then None
      else
        let len = int (sds_len s) + incr; free = int (sds_free s) - incr
        in if \<not> free \<ge> 0 then None
           else if len < 0 then None
           else do {
             len \<leftarrow> int_field (nat len);
             free \<leftarrow> int_field (nat free);
             buf \<leftarrow> mem_write (sds_buf s) len [NUL];
             Some \<lparr>sds_len = len, sds_free = free, sds_buf = buf\<rparr>
           })"

definition sdsgrowzero :: "sds \<Rightarrow> nat \<Rightarrow> sds option" where
  "sdsgrowzero s len =
     (let curlen = sds_len s
      in if len \<le> curlen then Some s
         else do {
           s \<leftarrow> sdsMakeRoomFor s (len - curlen);
           buf \<leftarrow> mem_write (sds_buf s) curlen (replicate (len - curlen + 1) NUL);
           (let totlen = sds_len s + sds_free s
            in do {
                 len \<leftarrow> int_field len;
                 free \<leftarrow> int_field (totlen - len);
                 Some \<lparr>sds_len = len, sds_free = free, sds_buf = buf\<rparr>
               })
         })"

subsection \<open>Appending and copying\<close>

text \<open>The array \<^verbatim>\<open>t\<close> is the list of its \<^verbatim>\<open>len\<close> bytes.\<close>

definition sdscatlen :: "sds \<Rightarrow> char list \<Rightarrow> sds option" where
  "sdscatlen s t =
     (let curlen = sdslen s; len = length t
      in do {
           s \<leftarrow> sdsMakeRoomFor s len;
           buf \<leftarrow> mem_write (sds_buf s) curlen t;
           newlen \<leftarrow> int_field (curlen + len);
           buf \<leftarrow> mem_write buf (curlen + len) [NUL];
           Some \<lparr>sds_len = newlen, sds_free = sds_free s - len, sds_buf = buf\<rparr>
         })"

definition sdscat :: "sds \<Rightarrow> char list \<Rightarrow> sds option" where
  "sdscat s t = sdscatlen s (cstr t)"

definition sdscatsds :: "sds \<Rightarrow> sds \<Rightarrow> sds option" where
  "sdscatsds s t = do { bytes \<leftarrow> mem_read (sds_buf t) 0 (sdslen t); sdscatlen s bytes }"

definition sdscpylen :: "sds \<Rightarrow> char list \<Rightarrow> sds option" where
  "sdscpylen s t =
     (let len = length t
      in do {
           s \<leftarrow> (if sds_free s + sds_len s < len then sdsMakeRoomFor s (len - sds_len s) else Some s);
           (let totlen = sds_free s + sds_len s
            in do {
                 buf \<leftarrow> mem_write (sds_buf s) 0 t;
                 buf \<leftarrow> mem_write buf len [NUL];
                 len \<leftarrow> int_field len;
                 free \<leftarrow> int_field (totlen - len);
                 Some \<lparr>sds_len = len, sds_free = free, sds_buf = buf\<rparr>
               })
         })"

definition sdscpy :: "sds \<Rightarrow> char list \<Rightarrow> sds option" where
  "sdscpy s t = sdscpylen s (cstr t)"

end
