(* ===== verification/SdsText.thy ===== *)
theory SdsText
  imports Sds
begin

text \<open>
  The functions of \<^verbatim>\<open>sds.c\<close> that work on the text of a string: printing numbers,
  formatting, trimming, taking ranges, splitting, joining, quoting and parsing of arguments.
\<close>

subsection \<open>Numbers\<close>

definition SDS_LLSTR_SIZE :: nat where
  "SDS_LLSTR_SIZE = 21"

text \<open>The do-while loop: the digits from the last to the first.\<close>

function rev_digits :: "nat \<Rightarrow> char list" where
  "rev_digits v =
     char_of (48 + v mod 10) # (if v div 10 = 0 then [] else rev_digits (v div 10))"
  by pat_completeness auto
termination
  by (relation "measure id") auto

declare rev_digits.simps [simp del]

text \<open>The loop that reverses the string in place.\<close>

function swap_loop :: "'a list \<Rightarrow> nat \<Rightarrow> nat \<Rightarrow> 'a list" where
  "swap_loop b s p = (if s < p then swap_loop (b[s := b ! p, p := b ! s]) (Suc s) (p - 1) else b)"
  by pat_completeness auto
termination
  by (relation "measure (\<lambda>(b, s, p). p - s)") auto

declare swap_loop.simps [simp del]

text \<open>
  The bytes that \<^verbatim>\<open>sdsll2str\<close> leaves before the terminator; their number is its result.
  The negation is that of two's complement.
\<close>

definition sdsll2str :: "int \<Rightarrow> char list" where
  "sdsll2str value =
     (let v = (if value < 0 then - word_of_int value else word_of_int value :: uint64);
          p = rev_digits (unat v) @ (if value < 0 then [CHR ''-''] else [])
      in swap_loop p 0 (length p - 1))"

definition sdsull2str :: "uint64 \<Rightarrow> char list" where
  "sdsull2str v = (let p = rev_digits (unat v) in swap_loop p 0 (length p - 1))"

text \<open>The local buffer has \<^verbatim>\<open>SDS_LLSTR_SIZE\<close> bytes, the terminator included.\<close>

definition sdsfromlonglong :: "int \<Rightarrow> sds option" where
  "sdsfromlonglong value =
     (let buf = sdsll2str value
      in if length buf + 1 \<le> SDS_LLSTR_SIZE then sdsnewlen (Some buf) (length buf) else None)"

subsection \<open>Formatting\<close>

text \<open>
  \<^verbatim>\<open>sdscatvprintf\<close>: \<^verbatim>\<open>out\<close> is the complete output of the format, of which
  \<^verbatim>\<open>vsnprintf\<close> writes at most \<^verbatim>\<open>buflen - 1\<close> bytes and a terminator. The loop
  doubles the buffer as long as its last but one byte, cleared before the call, is set.
\<close>

function printf_loop :: "char list \<Rightarrow> nat \<Rightarrow> char list option" where
  "printf_loop out buflen =
     (if buflen < 2 then None
      else
        let written = take (buflen - 1) out @ [NUL];
            mark = (if buflen - 2 < length written then written ! (buflen - 2) else NUL)
        in if mark \<noteq> NUL then printf_loop out (buflen * 2) else Some (take (buflen - 1) out))"
  by pat_completeness auto
termination
  by (relation "measure (\<lambda>(out, buflen). length out + 2 - buflen)") (auto simp: nth_append split: if_splits)

declare printf_loop.simps [simp del]

definition sdscatvprintf :: "sds \<Rightarrow> nat \<Rightarrow> char list \<Rightarrow> sds option" where
  "sdscatvprintf s fmtlen out =
     do {
       buf \<leftarrow> printf_loop out (if fmtlen * 2 > 1024 then fmtlen * 2 else 1024);
       sdscat s buf
     }"

definition sdscatprintf :: "sds \<Rightarrow> nat \<Rightarrow> char list \<Rightarrow> sds option" where
  "sdscatprintf s fmtlen out = sdscatvprintf s fmtlen out"

text \<open>The variable arguments of \<^verbatim>\<open>sdscatfmt\<close>, with the type the caller passed.\<close>

datatype fmt_arg = ArgStr "char list" | ArgSds sds | ArgInt "32 word" | ArgLongLong int
| ArgUint uint32 | ArgULongLong uint64

text \<open>
  The bytes of one conversion and the arguments that are left; an argument of another type than
  the format says is undefined behaviour.
\<close>

fun fmt_conv :: "char \<Rightarrow> fmt_arg list \<Rightarrow> (char list \<times> fmt_arg list) option" where
  "fmt_conv next (ArgStr str # args) = (if next = CHR ''s'' then Some (cstr str, args) else None)"
| "fmt_conv next (ArgSds str # args) =
     (if next = CHR ''S'' then map_option (\<lambda>l. (l, args)) (mem_read (sds_buf str) 0 (sdslen str)) else None)"
| "fmt_conv next (ArgInt num # args) =
     (if next = CHR ''i'' then Some (sdsll2str (sint num), args) else None)"
| "fmt_conv next (ArgLongLong num # args) =
     (if next = CHR ''I'' then Some (sdsll2str num, args) else None)"
| "fmt_conv next (ArgUint unum # args) =
     (if next = CHR ''u'' then Some (sdsull2str (ucast unum), args) else None)"
| "fmt_conv next (ArgULongLong unum # args) =
     (if next = CHR ''U'' then Some (sdsull2str unum, args) else None)"
| "fmt_conv next [] = None"

text \<open>The copy of the bytes to position \<^verbatim>\<open>i\<close>, with room made for them.\<close>

definition fmt_put :: "sds \<Rightarrow> nat \<Rightarrow> char list \<Rightarrow> sds option" where
  "fmt_put s i bytes =
     do {
       s \<leftarrow> (if sds_free s < length bytes then sdsMakeRoomFor s (length bytes) else Some s);
       buf \<leftarrow> mem_write (sds_buf s) i bytes;
       len \<leftarrow> int_field (sds_len s + length bytes);
       Some \<lparr>sds_len = len, sds_free = sds_free s - length bytes, sds_buf = buf\<rparr>
     }"

text \<open>
  The store of a single character, for which room was made at the head of the loop: the counter
  of free bytes must not become negative.
\<close>

definition fmt_putc :: "sds \<Rightarrow> nat \<Rightarrow> char \<Rightarrow> sds option" where
  "fmt_putc s i c =
     (if sds_free s = 0 then None
      else do {
        buf \<leftarrow> mem_write (sds_buf s) i [c];
        len \<leftarrow> int_field (sds_len s + 1);
        Some \<lparr>sds_len = len, sds_free = sds_free s - 1, sds_buf = buf\<rparr>
      })"

text \<open>
  The loop over the format. A percent sign at the very end makes the loop step over the
  terminator of the format.
\<close>

fun catfmt_loop :: "sds \<Rightarrow> nat \<Rightarrow> char list \<Rightarrow> fmt_arg list \<Rightarrow> (sds \<times> nat) option" where
  "catfmt_loop s i [] args = Some (s, i)"
| "catfmt_loop s i (c # f) args =
     do {
       s \<leftarrow> (if sds_free s = 0 then sdsMakeRoomFor s 1 else Some s);
       if c = CHR ''%'' then
         (case f of
            [] \<Rightarrow> None
          | next # f' \<Rightarrow>
              if next \<in> set ''sSiIuU'' then
                do {
                  (bytes, args') \<leftarrow> fmt_conv next args;
                  s \<leftarrow> fmt_put s i bytes;
                  catfmt_loop s (i + length bytes) f' args'
                }
              else do { s \<leftarrow> fmt_putc s i next; catfmt_loop s (i + 1) f' args })
       else do { s \<leftarrow> fmt_putc s i c; catfmt_loop s (i + 1) f args }
     }"

definition sdscatfmt :: "sds \<Rightarrow> char list \<Rightarrow> fmt_arg list \<Rightarrow> sds option" where
  "sdscatfmt s fmt args =
     do {
       (s, i) \<leftarrow> catfmt_loop s (sdslen s) (cstr fmt) args;
       buf \<leftarrow> mem_write (sds_buf s) i [NUL];
       Some (s\<lparr>sds_buf := buf\<rparr>)
     }"

subsection \<open>Trimming and ranges\<close>

text \<open>\<^verbatim>\<open>strchr(cset, c) != NULL\<close>: the terminator of the set counts as one of its characters.\<close>

definition in_cset :: "char list \<Rightarrow> char \<Rightarrow> bool" where
  "in_cset cset c \<longleftrightarrow> c \<in> set (cstr cset) \<or> c = NUL"

function trim_sp :: "char list \<Rightarrow> char list \<Rightarrow> nat \<Rightarrow> nat" where
  "trim_sp t cset sp = (if sp < length t \<and> in_cset cset (t ! sp) then trim_sp t cset (Suc sp) else sp)"
  by pat_completeness auto
termination
  by (relation "measure (\<lambda>(t, cset, sp). length t - sp)") auto

text \<open>The pointer to the last byte is one before the start in an empty string.\<close>

function trim_ep :: "char list \<Rightarrow> char list \<Rightarrow> int \<Rightarrow> int" where
  "trim_ep t cset ep = (if ep > 0 \<and> in_cset cset (t ! nat ep) then trim_ep t cset (ep - 1) else ep)"
  by pat_completeness auto
termination
  by (relation "measure (\<lambda>(t, cset, ep). nat ep)") auto

declare trim_sp.simps [simp del] trim_ep.simps [simp del]

definition sdstrim :: "sds \<Rightarrow> char list \<Rightarrow> sds option" where
  "sdstrim s cset =
     do {
       t \<leftarrow> mem_read (sds_buf s) 0 (sdslen s);
       (let sp = trim_sp t cset 0;
            ep = trim_ep t cset (int (length t) - 1);
            len = (if int sp > ep then 0 else nat (ep - int sp) + 1)
        in do {
             buf \<leftarrow> (if sp \<noteq> 0 then do { b \<leftarrow> mem_read (sds_buf s) sp len; mem_write (sds_buf s) 0 b }
                      else Some (sds_buf s));
             buf \<leftarrow> mem_write buf len [NUL];
             free \<leftarrow> int_field (sds_free s + (sds_len s - len));
             Some \<lparr>sds_len = len, sds_free = free, sds_buf = buf\<rparr>
           })
     }"

text \<open>
  The difference of the two \<^verbatim>\<open>int\<close> indices plus one wraps around and is then read as a
  \<^verbatim>\<open>size_t\<close>.
\<close>

definition range_newlen :: "int \<Rightarrow> int \<Rightarrow> nat" where
  "range_newlen start end1 =
     (if start > end1 then 0 else nat (signed_take_bit 31 (end1 - start + 1) mod 2 ^ 64))"

definition sdsrange :: "sds \<Rightarrow> int \<Rightarrow> int \<Rightarrow> sds option" where
  "sdsrange s start end1 =
     (let len = sdslen s
      in if len = 0 then Some s
         else
           let start = (if start < 0 then max 0 (int len + start) else start);
               end1 = (if end1 < 0 then max 0 (int len + end1) else end1);
               newlen = range_newlen start end1;
               (start, newlen) =
                 (if newlen \<noteq> 0 then
                    (if start \<ge> int len then (start, 0)
                     else if end1 \<ge> int len then (start, range_newlen start (int len - 1))
                     else (start, newlen))
                  else (0, newlen))
           in do {
                buf \<leftarrow> (if start \<noteq> 0 \<and> newlen \<noteq> 0
                         then do { b \<leftarrow> mem_read (sds_buf s) (nat start) newlen; mem_write (sds_buf s) 0 b }
                         else Some (sds_buf s));
                buf \<leftarrow> mem_write buf newlen [NUL];
                free \<leftarrow> int_field (sds_free s + (sds_len s - newlen));
                len \<leftarrow> int_field newlen;
                Some \<lparr>sds_len = len, sds_free = free, sds_buf = buf\<rparr>
              })"

subsection \<open>Case, comparison, mapping\<close>

text \<open>\<^verbatim>\<open>tolower\<close> and \<^verbatim>\<open>toupper\<close> in the C locale.\<close>

definition ctolower :: "char \<Rightarrow> char" where
  "ctolower c = (let n = of_char c :: nat in if 65 \<le> n \<and> n \<le> 90 then char_of (n + 32) else c)"

definition ctoupper :: "char \<Rightarrow> char" where
  "ctoupper c = (let n = of_char c :: nat in if 97 \<le> n \<and> n \<le> 122 then char_of (n - 32) else c)"

text \<open>The loop that replaces the bytes of a string one by one.\<close>

definition sds_map_bytes :: "(char \<Rightarrow> char) \<Rightarrow> sds \<Rightarrow> sds option" where
  "sds_map_bytes f s =
     do {
       t \<leftarrow> mem_read (sds_buf s) 0 (sdslen s);
       buf \<leftarrow> mem_write (sds_buf s) 0 (map f t);
       Some (s\<lparr>sds_buf := buf\<rparr>)
     }"

definition sdstolower :: "sds \<Rightarrow> sds option" where
  "sdstolower s = sds_map_bytes ctolower s"

definition sdstoupper :: "sds \<Rightarrow> sds option" where
  "sdstoupper s = sds_map_bytes ctoupper s"

text \<open>\<^verbatim>\<open>memcmp\<close>: only the sign of its result is defined.\<close>

fun memcmp :: "char list \<Rightarrow> char list \<Rightarrow> int" where
  "memcmp (a # s) (b # t) =
     (if a = b then memcmp s t else if (of_char a :: nat) < of_char b then -1 else 1)"
| "memcmp _ _ = 0"

definition sdscmp :: "sds \<Rightarrow> sds \<Rightarrow> int option" where
  "sdscmp s1 s2 =
     (let l1 = sdslen s1; l2 = sdslen s2; minlen = (if l1 < l2 then l1 else l2)
      in do {
           b1 \<leftarrow> mem_read (sds_buf s1) 0 minlen;
           b2 \<leftarrow> mem_read (sds_buf s2) 0 minlen;
           (let cmp = memcmp b1 b2
            in if cmp = 0 then Some (int l1 - int l2) else Some cmp)
         })"

text \<open>The inner loop of \<^verbatim>\<open>sdsmapchars\<close>: the first match in the set decides.\<close>

fun map_char :: "char list \<Rightarrow> char list \<Rightarrow> char \<Rightarrow> char" where
  "map_char (f # from) (t # to) c = (if c = f then t else map_char from to c)"
| "map_char _ _ c = c"

definition sdsmapchars :: "sds \<Rightarrow> char list \<Rightarrow> char list \<Rightarrow> sds option" where
  "sdsmapchars s from to = sds_map_bytes (map_char from to) s"

subsection \<open>Splitting and joining\<close>

text \<open>
  The loop of \<^verbatim>\<open>sdssplitlen\<close> over the position \<^verbatim>\<open>j\<close>: the array of tokens has
  \<^verbatim>\<open>slots\<close> places and a store outside of it is undefined.
\<close>

function split_loop :: "char list \<Rightarrow> char list \<Rightarrow> nat \<Rightarrow> sds list \<Rightarrow> nat \<Rightarrow> nat \<Rightarrow>
    (nat \<times> sds list \<times> nat) option" where
  "split_loop s sep slots tokens start j =
     (if sep \<noteq> [] \<and> int j < int (length s) - (int (length sep) - 1) then
        let slots = (if slots < length tokens + 2 then slots * 2 else slots)
        in if (length sep = 1 \<and> s ! j = sep ! 0) \<or> take (length sep) (drop j s) = sep then
             (if length tokens < slots then
                (case sdsnewlen (Some (drop start s)) (j - start) of
                   None \<Rightarrow> None
                 | Some tok \<Rightarrow>
                     split_loop s sep slots (tokens @ [tok]) (j + length sep) (Suc (j + length sep - 1)))
              else None)
           else split_loop s sep slots tokens start (Suc j)
      else Some (slots, tokens, start))"
  by pat_completeness auto
termination
  by (relation "measure (\<lambda>(s, sep, slots, tokens, start, j). length s - j)")
    (auto simp: less_diff_conv, (case_tac sep; auto)+)

declare split_loop.simps [simp del]

text \<open>The inner \<^term>\<open>None\<close> is the null result.\<close>

definition sdssplitlen :: "char list \<Rightarrow> char list \<Rightarrow> sds list option option" where
  "sdssplitlen s sep =
     (if length sep < 1 then Some None
      else if length s = 0 then Some (Some [])
      else do {
        (slots, tokens, start) \<leftarrow> split_loop s sep 5 [] 0 0;
        (if length tokens < slots
         then do {
           tok \<leftarrow> sdsnewlen (Some (drop start s)) (length s - start);
           Some (Some (tokens @ [tok]))
         }
         else None)
      })"

fun join_loop :: "sds \<Rightarrow> char list list \<Rightarrow> char list \<Rightarrow> sds option" where
  "join_loop join [] sep = Some join"
| "join_loop join (a # argv) sep =
     do {
       join \<leftarrow> sdscat join a;
       join \<leftarrow> (if argv \<noteq> [] then sdscat join sep else Some join);
       join_loop join argv sep
     }"

definition sdsjoin :: "char list list \<Rightarrow> char list \<Rightarrow> sds option" where
  "sdsjoin argv sep = do { join \<leftarrow> sdsempty; join_loop join argv sep }"

subsection \<open>Quoting\<close>

definition isprint :: "char \<Rightarrow> bool" where
  "isprint c \<longleftrightarrow> 32 \<le> (of_char c :: nat) \<and> (of_char c :: nat) \<le> 126"

definition isspace :: "char \<Rightarrow> bool" where
  "isspace c \<longleftrightarrow> of_char c = (32 :: nat) \<or> (9 \<le> (of_char c :: nat) \<and> (of_char c :: nat) \<le> 13)"

abbreviation BACKSLASH :: char where
  "BACKSLASH \<equiv> char_of (92 :: nat)"

abbreviation DQUOTE :: char where
  "DQUOTE \<equiv> char_of (34 :: nat)"

abbreviation SQUOTE :: char where
  "SQUOTE \<equiv> char_of (39 :: nat)"

text \<open>The digit of \<^verbatim>\<open>%x\<close>.\<close>

definition hex_digit :: "nat \<Rightarrow> char" where
  "hex_digit n = (if n < 10 then char_of (48 + n) else char_of (87 + n))"

definition repr_char :: "sds \<Rightarrow> char \<Rightarrow> sds option" where
  "repr_char s c =
     (let n = of_char c :: nat
      in if c = BACKSLASH \<or> c = DQUOTE then sdscatprintf s 3 [BACKSLASH, c]
         else if n = 10 then sdscatlen s [BACKSLASH, CHR ''n'']
         else if n = 13 then sdscatlen s [BACKSLASH, CHR ''r'']
         else if n = 9 then sdscatlen s [BACKSLASH, CHR ''t'']
         else if n = 7 then sdscatlen s [BACKSLASH, CHR ''a'']
         else if n = 8 then sdscatlen s [BACKSLASH, CHR ''b'']
         else if isprint c then sdscatprintf s 2 [c]
         else sdscatprintf s 6 [BACKSLASH, CHR ''x'', hex_digit (n div 16), hex_digit (n mod 16)])"

fun repr_loop :: "sds \<Rightarrow> char list \<Rightarrow> sds option" where
  "repr_loop s [] = Some s"
| "repr_loop s (c # p) = do { s \<leftarrow> repr_char s c; repr_loop s p }"

definition sdscatrepr :: "sds \<Rightarrow> char list \<Rightarrow> sds option" where
  "sdscatrepr s p =
     do {
       s \<leftarrow> sdscatlen s [DQUOTE];
       s \<leftarrow> repr_loop s p;
       sdscatlen s [DQUOTE]
     }"

subsection \<open>Parsing arguments\<close>

definition is_hex_digit :: "char \<Rightarrow> bool" where
  "is_hex_digit c \<longleftrightarrow>
     (let n = of_char c :: nat
      in (48 \<le> n \<and> n \<le> 57) \<or> (97 \<le> n \<and> n \<le> 102) \<or> (65 \<le> n \<and> n \<le> 70))"

definition hex_digit_to_int :: "char \<Rightarrow> nat" where
  "hex_digit_to_int c =
     (let n = of_char c :: nat
      in if 48 \<le> n \<and> n \<le> 57 then n - 48
         else if 97 \<le> n \<and> n \<le> 102 then n - 87
         else if 65 \<le> n \<and> n \<le> 70 then n - 55
         else 0)"

text \<open>The byte at \<^verbatim>\<open>p+n\<close>: past the end there is the terminator.\<close>

definition peek :: "char list \<Rightarrow> nat \<Rightarrow> char" where
  "peek p n = (if n < length p then p ! n else NUL)"

definition unescape :: "char \<Rightarrow> char" where
  "unescape c =
     (if c = CHR ''n'' then char_of (10 :: nat)
      else if c = CHR ''r'' then char_of (13 :: nat)
      else if c = CHR ''t'' then char_of (9 :: nat)
      else if c = CHR ''b'' then char_of (8 :: nat)
      else if c = CHR ''a'' then char_of (7 :: nat)
      else c)"

datatype quoting = NoQuotes | InQuotes | InSingleQuotes

text \<open>
  The loop over one argument. The outer \<^term>\<open>None\<close> is undefined behaviour, the inner one
  the jump to \<^verbatim>\<open>err\<close>; otherwise the argument and the rest of the line.
\<close>

function (sequential) arg_loop :: "quoting \<Rightarrow> char list \<Rightarrow> sds \<Rightarrow> (sds \<times> char list) option option" where
  "arg_loop InQuotes p current =
     (if peek p 0 = BACKSLASH \<and> peek p 1 = CHR ''x'' \<and> is_hex_digit (peek p 2) \<and> is_hex_digit (peek p 3) then
        (case sdscatlen current
                [char_of (hex_digit_to_int (peek p 2) * 16 + hex_digit_to_int (peek p 3))] of
           None \<Rightarrow> None
         | Some current \<Rightarrow> arg_loop InQuotes (drop 4 p) current)
      else if peek p 0 = BACKSLASH \<and> peek p 1 \<noteq> NUL then
        (case sdscatlen current [unescape (peek p 1)] of
           None \<Rightarrow> None
         | Some current \<Rightarrow> arg_loop InQuotes (drop 2 p) current)
      else if peek p 0 = DQUOTE then
        (if peek p 1 \<noteq> NUL \<and> \<not> isspace (peek p 1) then Some None
         else Some (Some (current, drop 1 p)))
      else if peek p 0 = NUL then Some None
      else (case sdscatlen current [peek p 0] of
              None \<Rightarrow> None
            | Some current \<Rightarrow> arg_loop InQuotes (drop 1 p) current))"
| "arg_loop InSingleQuotes p current =
     (if peek p 0 = BACKSLASH \<and> peek p 1 = SQUOTE then
        (case sdscatlen current [SQUOTE] of
           None \<Rightarrow> None
         | Some current \<Rightarrow> arg_loop InSingleQuotes (drop 2 p) current)
      else if peek p 0 = SQUOTE then
        (if peek p 1 \<noteq> NUL \<and> \<not> isspace (peek p 1) then Some None
         else Some (Some (current, drop 1 p)))
      else if peek p 0 = NUL then Some None
      else (case sdscatlen current [peek p 0] of
              None \<Rightarrow> None
            | Some current \<Rightarrow> arg_loop InSingleQuotes (drop 1 p) current))"
| "arg_loop NoQuotes p current =
     (if peek p 0 \<in> {CHR '' '', char_of (10 :: nat), char_of (13 :: nat), char_of (9 :: nat), NUL}
      then Some (Some (current, drop 1 p))
      else if peek p 0 = DQUOTE then arg_loop InQuotes (drop 1 p) current
      else if peek p 0 = SQUOTE then arg_loop InSingleQuotes (drop 1 p) current
      else (case sdscatlen current [peek p 0] of
              None \<Rightarrow> None
            | Some current \<Rightarrow> arg_loop NoQuotes (drop 1 p) current))"
  by pat_completeness auto
termination
  by (relation "measure (\<lambda>(q, p, c). length p)") (auto simp: peek_def NUL_def split: if_splits)

declare arg_loop.simps [simp del]

lemma arg_loop_shorter:
  "arg_loop q p current = Some (Some (current', p')) \<Longrightarrow> length p' \<le> length p - 1"
proof (induction "length p" arbitrary: q p current rule: less_induct)
  case less
  show ?case
  proof (cases "p = []")
    case True
    with less(2) show ?thesis by (cases q) (auto simp: arg_loop.simps peek_def NUL_def)
  next
    case False
    have IH: "length p' \<le> length p - 1"
      if "arg_loop q' (drop n p) c = Some (Some (current', p'))" "0 < n" for q' n c
      using less(1) [of "drop n p" q' c] that False by (simp add: diff_le_mono2 le_diff_conv)
    show ?thesis
      using less(2) IH
      by (cases q) (auto simp: arg_loop.simps(1) [of p current] arg_loop.simps(2) [of p current]
        arg_loop.simps(3) [of p current] simp del: One_nat_def split: if_splits option.splits)
  qed
qed

lemma arg_loop_dropWhile:
  assumes "arg_loop q (dropWhile P p) current = Some (Some (current', p'))" "dropWhile P p \<noteq> []"
  shows "length p' < length p"
proof -
  have "length p' < length (dropWhile P p)"
    using arg_loop_shorter [OF assms(1)] assms(2) by (cases "dropWhile P p") auto
  then show ?thesis using length_dropWhile_le [of P p] by simp
qed

text \<open>The loop over the line.\<close>

function args_loop :: "char list \<Rightarrow> sds list \<Rightarrow> sds list option option" where
  "args_loop p vector =
     (let p = dropWhile isspace p
      in if p = [] then Some (Some vector)
         else
           case sdsempty of
             None \<Rightarrow> None
           | Some current \<Rightarrow>
               (case arg_loop NoQuotes p current of
                  None \<Rightarrow> None
                | Some None \<Rightarrow> Some None
                | Some (Some (current, p)) \<Rightarrow> args_loop p (vector @ [current])))"
  by pat_completeness auto
termination
  by (relation "measure (\<lambda>(p, v). length p)") (auto dest: arg_loop_dropWhile)

declare args_loop.simps [simp del]

definition sdssplitargs :: "char list \<Rightarrow> sds list option option" where
  "sdssplitargs line = args_loop (cstr line) []"

end
