(* ===== verification/SdsProps.thy ===== *)
theory SdsProps
  imports SdsText
begin

text \<open>
  What the string operations do to the text a string holds. The predicate \<open>sds_wf s t\<close> says that
  the header and buffer \<open>s\<close> are well formed and hold the text \<open>t\<close>; every operation is shown to
  succeed, to keep well-formedness, and to change the text as documented, for all texts up to
  \<open>SDS_LIMIT\<close> bytes, the largest length whose preallocation still fits the \<^verbatim>\<open>int\<close> counters (the
  server limits strings to 512 MB, a quarter of it).
\<close>

subsection \<open>Counters and C strings\<close>

lemma int_field_le [mem_simps]: "n \<le> INT_MAX \<Longrightarrow> int_field n = Some n"
  by (simp add: int_field_def)

lemma NUL_iff: "c = NUL \<longleftrightarrow> (of_char c :: nat) = 0"
proof -
  have "(of_char NUL :: nat) = 0" by (simp add: NUL_def)
  then show ?thesis using of_char_eq_iff [of c NUL, where 'a = nat] by simp
qed

lemma cstr_le: "length (cstr t) \<le> length t"
  by (simp add: cstr_def length_takeWhile_le)

lemma cstr_id: "NUL \<notin> set t \<Longrightarrow> cstr t = t"
  by (simp add: cstr_def takeWhile_eq_all_conv) (metis)

lemma NUL_notin_cstr: "NUL \<notin> set (cstr t)"
  by (auto simp: cstr_def dest: set_takeWhileD)

subsection \<open>The invariant\<close>

definition sds_holds :: "sds \<Rightarrow> char list \<Rightarrow> bool" where
  "sds_holds s t \<longleftrightarrow> sds_len s = length t \<and> sds_len s + sds_free s \<le> INT_MAX \<and>
     (\<exists>rest. sds_buf s = map Some t @ rest \<and> length rest = sds_free s + 1)"

definition sds_wf :: "sds \<Rightarrow> char list \<Rightarrow> bool" where
  "sds_wf s t \<longleftrightarrow> sds_holds s t \<and> sds_buf s ! sds_len s = Some NUL"

definition SDS_LIMIT :: nat where
  "SDS_LIMIT = INT_MAX - SDS_MAX_PREALLOC"

lemma SDS_LIMIT_le: "n \<le> SDS_LIMIT \<Longrightarrow> n + SDS_MAX_PREALLOC \<le> INT_MAX" "n \<le> SDS_LIMIT \<Longrightarrow> n \<le> INT_MAX"
  by (simp_all add: SDS_LIMIT_def INT_MAX_def SDS_MAX_PREALLOC_def)

lemma sds_holdsE:
  assumes "sds_holds s t"
  obtains r rest where "sds_buf s = map Some t @ r # rest" "length rest = sds_free s"
    "sds_len s = length t" "length t + sds_free s \<le> INT_MAX"
proof -
  from assms obtain rest where "sds_buf s = map Some t @ rest" "length rest = sds_free s + 1"
    by (auto simp: sds_holds_def)
  with assms that show thesis by (cases rest) (auto simp: sds_holds_def)
qed

lemma sds_wfE:
  assumes "sds_wf s t"
  obtains rest where "sds_buf s = map Some t @ Some NUL # rest" "length rest = sds_free s"
    "sds_len s = length t" "length t + sds_free s \<le> INT_MAX"
  using assms by (auto simp: sds_wf_def nth_append elim!: sds_holdsE)

lemma sds_wfI:
  "length rest = f \<Longrightarrow> length t + f \<le> INT_MAX \<Longrightarrow> n = length t \<Longrightarrow>
   sds_wf \<lparr>sds_len = n, sds_free = f, sds_buf = map Some t @ Some NUL # rest\<rparr> t"
  by (auto simp: sds_wf_def sds_holds_def nth_append)

lemma sds_holdsI:
  "length rest = f + 1 \<Longrightarrow> length t + f \<le> INT_MAX \<Longrightarrow> n = length t \<Longrightarrow> b = map Some t @ rest \<Longrightarrow>
   sds_holds \<lparr>sds_len = n, sds_free = f, sds_buf = b\<rparr> t"
  by (auto simp: sds_holds_def)

lemma sds_wf_holds: "sds_wf s t \<Longrightarrow> sds_holds s t"
  by (simp add: sds_wf_def)

lemma sds_wf_read: "sds_wf s t \<Longrightarrow> mem_read (sds_buf s) 0 (sdslen s) = Some t"
  by (auto elim!: sds_wfE simp: mem_simps sdslen_def)

lemma sds_wf_len: "sds_wf s t \<Longrightarrow> sdslen s = length t"
  by (auto elim!: sds_wfE simp: sdslen_def)

subsection \<open>Creation\<close>

lemma sdsnewlen_ok:
  assumes "n \<le> length t" "n \<le> INT_MAX"
  obtains s where "sdsnewlen (Some t) n = Some s" "sds_wf s (take n t)" "sds_free s = 0"
proof
  let ?s = "\<lparr>sds_len = n, sds_free = 0, sds_buf = map Some (take n t) @ [Some NUL]\<rparr>"
  show "sdsnewlen (Some t) n = Some ?s"
    using assms by (simp add: sdsnewlen_def mem_simps)
  show "sds_wf ?s (take n t)" using assms by (intro sds_wfI) auto
qed simp

lemma sdsnewlen_null:
  assumes "n \<le> INT_MAX"
  obtains s where "sdsnewlen None n = Some s" "sds_wf s (replicate n NUL)"
proof
  let ?s = "\<lparr>sds_len = n, sds_free = 0, sds_buf = map Some (replicate n NUL) @ [Some NUL]\<rparr>"
  have "replicate (n + 1) (Some NUL) = map Some (replicate n NUL) @ [Some NUL]"
    by (simp add: replicate_append_same map_replicate)
  then show "sdsnewlen None n = Some ?s"
    using assms by (simp add: sdsnewlen_def mem_simps del: replicate_Suc map_replicate)
  show "sds_wf ?s (replicate n NUL)" using assms by (intro sds_wfI) auto
qed

lemma sdsempty_ok: obtains s where "sdsempty = Some s" "sds_wf s []"
  using sdsnewlen_ok [of 0 "[]"] by (auto simp: sdsempty_def)

subsection \<open>Room\<close>

lemma sdsMakeRoomFor_ok:
  assumes "sds_holds s t" "length t + n \<le> SDS_LIMIT"
  obtains s' where "sdsMakeRoomFor s n = Some s'" "sds_holds s' t" "n \<le> sds_free s'"
    "sds_buf s' ! length t = sds_buf s ! length t"
proof (cases "sds_free s \<ge> n")
  case True
  with assms that show thesis by (simp add: sdsMakeRoomFor_def sdsavail_def)
next
  case False
  from assms(1) obtain r rest where s: "sds_buf s = map Some t @ r # rest" "length rest = sds_free s"
    "sds_len s = length t" "length t + sds_free s \<le> INT_MAX" by (rule sds_holdsE)
  define m where "m = (if length t + n < SDS_MAX_PREALLOC then (length t + n) * 2
    else length t + n + SDS_MAX_PREALLOC)"
  have m: "length t + n \<le> m" "m \<le> INT_MAX"
    using SDS_LIMIT_le [OF assms(2)] by (auto simp: m_def SDS_MAX_PREALLOC_def)
  define s' where "s' = \<lparr>sds_len = length t, sds_free = m - length t,
    sds_buf = map Some t @ r # rest @ replicate (m - length t - sds_free s) None\<rparr>"
  have "zrealloc (sds_buf s) (m + 1) = sds_buf s'"
    using s m False by (simp add: zrealloc_def s'_def Suc_diff_le)
  moreover have "int_field (m - length t) = Some (m - length t)" using m by (intro int_field_le) simp
  ultimately have "sdsMakeRoomFor s n = Some s'"
    using False s by (simp add: sdsMakeRoomFor_def sdsavail_def sdslen_def flip: m_def)
      (simp add: s'_def)
  moreover have "sds_holds s' t" using m False s by (simp add: s'_def sds_holds_def)
  moreover have "n \<le> sds_free s'" using m by (simp add: s'_def)
  ultimately show thesis using that [of s'] s by (simp add: s'_def nth_append)
qed

lemma sdsMakeRoomFor_wf:
  assumes "sds_wf s t" "length t + n \<le> SDS_LIMIT"
  obtains s' where "sdsMakeRoomFor s n = Some s'" "sds_wf s' t" "n \<le> sds_free s'"
proof -
  have "sds_holds s t" using assms by (simp add: sds_wf_def)
  then obtain s' where s': "sdsMakeRoomFor s n = Some s'" "sds_holds s' t" "n \<le> sds_free s'"
      "sds_buf s' ! length t = sds_buf s ! length t"
    using assms(2) by (rule sdsMakeRoomFor_ok)
  moreover have "sds_len s' = length t" "sds_len s = length t"
    using s'(2) assms by (auto simp: sds_wf_def sds_holds_def)
  ultimately show thesis using that [of s'] assms(1) by (simp add: sds_wf_def)
qed

lemma drop_Suc_length:
  assumes "n \<le> length xs"
  obtains y ys where "drop n (x # xs) = y # ys" "length ys = length xs - n"
proof (cases "drop n (x # xs)")
  case Nil
  with assms show thesis by simp
next
  case (Cons y ys)
  then have "length (y # ys) = Suc (length xs) - n" by (metis length_Cons length_drop)
  with Cons assms that show thesis by simp
qed

subsection \<open>Appending\<close>

lemma sdscatlen_ok:
  assumes "sds_wf s t" "length t + length u \<le> SDS_LIMIT"
  obtains s' where "sdscatlen s u = Some s'" "sds_wf s' (t @ u)"
proof -
  obtain s1 where s1: "sdsMakeRoomFor s (length u) = Some s1" "sds_wf s1 t" "length u \<le> sds_free s1"
    using sdsMakeRoomFor_wf [OF assms] .
  from s1(2) obtain rest where b: "sds_buf s1 = map Some t @ Some NUL # rest" "length rest = sds_free s1"
    "sds_len s1 = length t" "length t + sds_free s1 \<le> INT_MAX" by (rule sds_wfE)
  obtain r ys where r: "drop (length u) (Some NUL # rest) = r # ys" "length ys = sds_free s1 - length u"
    using drop_Suc_length [of "length u" rest "Some NUL"] s1(3) b(2) by metis
  define s' where "s' = \<lparr>sds_len = length t + length u, sds_free = sds_free s1 - length u,
    sds_buf = map Some (t @ u) @ Some NUL # ys\<rparr>"
  have "mem_write (sds_buf s1) (length t) u = Some (map Some (t @ u) @ r # ys)"
    using b s1(3) r by (simp add: mem_simps)
  moreover have "mem_write (map Some (t @ u) @ r # ys) (length t + length u) [NUL] =
      Some (map Some (t @ u) @ Some NUL # ys)"
    by (subst mem_write_append) auto
  moreover have "int_field (length t + length u) = Some (length t + length u)"
    using s1(3) b(4) by (intro int_field_le) simp
  ultimately have "sdscatlen s u = Some s'"
    using s1(1) sds_wf_len [OF assms(1)] unfolding sdscatlen_def s'_def Let_def by simp
  moreover have "sds_wf s' (t @ u)"
    unfolding s'_def using r b s1(3) by (intro sds_wfI) auto
  ultimately show thesis using that by blast
qed

text \<open>
  The interface of a string under construction: what the functions that build a text piece by
  piece rely on. The pieces fit as long as the whole text stays within the limit.
\<close>

locale text_buffer =
  fixes holds :: "'b \<Rightarrow> char list \<Rightarrow> bool"
    and limit :: nat
    and cat :: "'b \<Rightarrow> char list \<Rightarrow> 'b option"
  assumes cat_ok: "holds b t \<Longrightarrow> length t + length u \<le> limit \<Longrightarrow>
    \<exists>b'. cat b u = Some b' \<and> holds b' (t @ u)"
begin

text \<open>A loop whose body appends the piece of each item builds the concatenation of the pieces.\<close>

lemma loop_ok:
  assumes "\<And>b x xs. loop b (x # xs) = Option.bind (cat b (piece x)) (\<lambda>b. loop b xs)"
    and "\<And>b. loop b [] = Some b"
    and "holds b t" "length t + length (concat (map piece xs)) \<le> limit"
  shows "\<exists>b'. loop b xs = Some b' \<and> holds b' (t @ concat (map piece xs))"
  using assms(3,4)
proof (induction xs arbitrary: b t)
  case Nil
  then show ?case by (simp add: assms(2))
next
  case (Cons x xs)
  then obtain b1 where "cat b (piece x) = Some b1" "holds b1 (t @ piece x)"
    using cat_ok [of b t "piece x"] by auto
  with Cons.IH [of b1 "t @ piece x"] Cons.prems(2) show ?case by (simp add: assms(1))
qed

end

interpretation sdsbuf: text_buffer sds_wf SDS_LIMIT sdscatlen
proof
  fix s t and u :: "char list"
  assume "sds_wf s t" "length t + length u \<le> SDS_LIMIT"
  then show "\<exists>s'. sdscatlen s u = Some s' \<and> sds_wf s' (t @ u)"
    by (rule sdscatlen_ok) blast
qed

lemma sdscat_ok:
  assumes "sds_wf s t" "length t + length (cstr u) \<le> SDS_LIMIT"
  obtains s' where "sdscat s u = Some s'" "sds_wf s' (t @ cstr u)"
  using sdscatlen_ok [OF assms] by (auto simp: sdscat_def)

subsection \<open>Overwriting\<close>

lemma mem_write_same: "mem_write (map Some t @ r) 0 (take n t) = Some (map Some t @ r)"
proof -
  have "map Some (take n t) @ drop (length (take n t)) (map Some t) = map Some t"
    by (cases "n \<le> length t") (simp_all flip: take_map)
  then show ?thesis by (simp add: mem_write_def flip: append_assoc)
qed

lemma sds_overwrite:
  assumes "sds_holds s t" "length u \<le> length t + sds_free s"
  obtains b1 b where "mem_write (sds_buf s) 0 u = Some b1" "mem_write b1 (length u) [NUL] = Some b"
    "sds_wf \<lparr>sds_len = length u, sds_free = length t + sds_free s - length u, sds_buf = b\<rparr> u"
proof -
  from assms(1) obtain r rest where s: "sds_buf s = map Some t @ r # rest" "length rest = sds_free s"
    "sds_len s = length t" "length t + sds_free s \<le> INT_MAX" by (rule sds_holdsE)
  define ys where "ys = drop (length u) (sds_buf s)"
  have l: "length ys = Suc (length t + sds_free s - length u)"
    using s assms(2) by (simp add: ys_def Suc_diff_le)
  then obtain y zs where y: "ys = y # zs" "length zs = length t + sds_free s - length u"
    by (cases ys) auto
  have "mem_write (sds_buf s) 0 u = Some (map Some u @ ys)"
    unfolding ys_def using s assms(2) by (intro mem_write_0) simp
  moreover have "mem_write (map Some u @ ys) (length u) [NUL] = Some (map Some u @ Some NUL # zs)"
    using y by (simp add: mem_simps)
  moreover have "sds_wf \<lparr>sds_len = length u, sds_free = length t + sds_free s - length u,
      sds_buf = map Some u @ Some NUL # zs\<rparr> u"
    using y s assms(2) by (intro sds_wfI) auto
  ultimately show thesis using that by blast
qed

lemma sdscpylen_ok:
  assumes "sds_wf s t" "length u \<le> SDS_LIMIT"
  obtains s' where "sdscpylen s u = Some s'" "sds_wf s' u"
proof -
  have len: "sds_len s = length t" and free: "length t + sds_free s \<le> INT_MAX"
    using assms(1) by (auto elim: sds_wfE)
  have "\<exists>s1. (if sds_free s + sds_len s < length u then sdsMakeRoomFor s (length u - sds_len s) else Some s)
      = Some s1 \<and> sds_wf s1 t \<and> length u \<le> length t + sds_free s1"
  proof (cases "sds_free s + sds_len s < length u")
    case True
    then have "length t + (length u - sds_len s) \<le> SDS_LIMIT" using assms(2) len by simp
    then obtain s1 where "sdsMakeRoomFor s (length u - sds_len s) = Some s1" "sds_wf s1 t"
        "length u - sds_len s \<le> sds_free s1"
      using sdsMakeRoomFor_wf [OF assms(1)] by blast
    with True len show ?thesis by auto
  qed (use assms len in auto)
  then obtain s1 where s1: "(if sds_free s + sds_len s < length u
      then sdsMakeRoomFor s (length u - sds_len s) else Some s) = Some s1"
      "sds_wf s1 t" "length u \<le> length t + sds_free s1" by blast
  obtain b1 b where b: "mem_write (sds_buf s1) 0 u = Some b1" "mem_write b1 (length u) [NUL] = Some b"
    "sds_wf \<lparr>sds_len = length u, sds_free = length t + sds_free s1 - length u, sds_buf = b\<rparr> u"
    using sds_overwrite [OF sds_wf_holds [OF s1(2)] s1(3)] .
  have l1: "sds_len s1 = length t" and f1: "length t + sds_free s1 \<le> INT_MAX"
    using s1(2) by (auto elim: sds_wfE)
  have "int_field (length u) = Some (length u)"
    "int_field (length t + sds_free s1 - length u) = Some (length t + sds_free s1 - length u)"
    using s1(3) f1 by (auto intro!: int_field_le)
  with b s1 l1 have "sdscpylen s u =
      Some \<lparr>sds_len = length u, sds_free = length t + sds_free s1 - length u, sds_buf = b\<rparr>"
    unfolding sdscpylen_def by (simp add: Let_def add.commute)
  with b that show thesis by blast
qed

lemma sdsclear_ok:
  assumes "sds_wf s t"
  obtains s' where "sdsclear s = Some s'" "sds_wf s' []" "sds_len s' + sds_free s' = sds_len s + sds_free s"
proof -
  have len: "sds_len s = length t" and free: "length t + sds_free s \<le> INT_MAX"
    using assms(1) by (auto elim: sds_wfE)
  obtain b1 b where b: "mem_write (sds_buf s) 0 [] = Some b1" "mem_write b1 0 [NUL] = Some b"
    "sds_wf \<lparr>sds_len = 0, sds_free = length t + sds_free s, sds_buf = b\<rparr> []"
    using sds_overwrite [OF sds_wf_holds [OF assms], of "[]"] by auto
  have "b1 = sds_buf s" using b(1) by (simp add: mem_simps)
  with b len free have "sdsclear s = Some \<lparr>sds_len = 0, sds_free = length t + sds_free s, sds_buf = b\<rparr>"
    by (simp add: sdsclear_def int_field_le add.commute)
  with b len that show thesis by auto
qed

lemma sdsgrowzero_ok:
  assumes "sds_wf s t" "n \<le> SDS_LIMIT"
  obtains s' where "sdsgrowzero s n = Some s'" "sds_wf s' (t @ replicate (n - length t) NUL)"
proof (cases "n \<le> length t")
  case True
  then have "sdsgrowzero s n = Some s"
    using sds_wf_len [OF assms(1)] by (simp add: sdsgrowzero_def Let_def sdslen_def)
  with True assms that [of s] show thesis by simp
next
  case False
  then have "length t + (n - length t) \<le> SDS_LIMIT" using assms(2) by simp
  then obtain s1 where s1: "sdsMakeRoomFor s (n - length t) = Some s1" "sds_wf s1 t" "n - length t \<le> sds_free s1"
    using sdsMakeRoomFor_wf [OF assms(1)] by blast
  from s1(2) obtain rest where b: "sds_buf s1 = map Some t @ Some NUL # rest" "length rest = sds_free s1"
    "sds_len s1 = length t" "length t + sds_free s1 \<le> INT_MAX" by (rule sds_wfE)
  have w: "mem_write (sds_buf s1) (length t) (replicate (n - length t + 1) NUL) =
      Some (map Some (t @ replicate (n - length t) NUL) @ Some NUL # drop (n - length t) rest)"
    unfolding b(1) using b s1(3) by (subst mem_write_append) (auto simp: replicate_append_same)
  have "int_field n = Some n" "int_field (length t + sds_free s1 - n) = Some (length t + sds_free s1 - n)"
    using SDS_LIMIT_le(2) [OF assms(2)] b(4) by (auto intro!: int_field_le)
  with w s1(1) b(3) False sds_wf_len [OF assms(1)] have "sdsgrowzero s n =
      Some \<lparr>sds_len = n, sds_free = length t + sds_free s1 - n,
        sds_buf = map Some (t @ replicate (n - length t) NUL) @ Some NUL # drop (n - length t) rest\<rparr>"
    by (simp add: sdsgrowzero_def Let_def sdslen_def)
  moreover have "sds_wf \<lparr>sds_len = n, sds_free = length t + sds_free s1 - n,
      sds_buf = map Some (t @ replicate (n - length t) NUL) @ Some NUL # drop (n - length t) rest\<rparr>
      (t @ replicate (n - length t) NUL)"
    using False b s1(3) by (intro sds_wfI) auto
  ultimately show thesis using that by blast
qed

end
