(* ===== verification/SdsEdit.thy ===== *)
theory SdsEdit
  imports SdsProps
begin

text \<open>
  Printing of numbers, formatting, trimming, ranges, comparison and byte maps: what each does to
  the text, and the theorem that any sequence of edits refines the same edits on plain texts.
\<close>

subsection \<open>Numbers\<close>

lemma length_swap_loop: "length (swap_loop b s p) = length b"
proof (induction b s p rule: swap_loop.induct)
  case (1 b s p)
  then show ?case by (subst swap_loop.simps) simp
qed

lemma swap_loop_nth:
  "p < length b \<Longrightarrow> i < length b \<Longrightarrow>
   swap_loop b s p ! i = (if s \<le> i \<and> i \<le> p then b ! (s + p - i) else b ! i)"
proof (induction b s p rule: swap_loop.induct)
  case (1 b s p)
  show ?case
  proof (cases "s < p")
    case True
    then have e: "swap_loop b s p = swap_loop (b[s := b ! p, p := b ! s]) (Suc s) (p - 1)"
      by (subst swap_loop.simps) simp
    show ?thesis
      unfolding e using 1(1) [OF True] 1(2,3) True
      by (auto simp: nth_list_update)
  next
    case False
    then show ?thesis using 1 by (subst swap_loop.simps) (auto intro: arg_cong [of _ _ "(!) b"])
  qed
qed

lemma swap_loop_rev: "swap_loop b 0 (length b - 1) = rev b"
proof (cases "b = []")
  case False
  then show ?thesis
    by (intro nth_equalityI) (auto simp: length_swap_loop swap_loop_nth rev_nth)
qed (simp add: swap_loop.simps)

lemma rev_digits_ull: "rev (rev_digits v) @ buf = ull_digits v buf"
proof (induction v arbitrary: buf rule: rev_digits.induct)
  case (1 v)
  show ?case
  proof (cases "v div 10 = 0")
    case True
    then show ?thesis by (simp add: rev_digits.simps [of v] ull_digits.simps [of v])
  next
    case False
    then show ?thesis
      using 1(1) [OF False, of "char_of (48 + v mod 10) # buf"]
      by (simp add: rev_digits.simps [of v] ull_digits.simps [of v] Let_def)
  qed
qed

lemma sdsull2str_eq: "sdsull2str v = ull_digits (unat v) []"
  unfolding sdsull2str_def Let_def swap_loop_rev using rev_digits_ull [of "unat v" "[]"] by simp

lemma sdsll2str_eq:
  assumes "LLONG_MIN \<le> val" "val \<le> LLONG_MAX"
  shows "sdsll2str val = ll2string 32 val"
  unfolding sdsll2str_def Let_def swap_loop_rev magnitude [OF assms] ll2string_value [OF assms]
  using rev_digits_ull [of "nat \<bar>val\<bar>" "[]"] by simp

lemma sdsll2str_length:
  assumes "LLONG_MIN \<le> val" "val \<le> LLONG_MAX"
  shows "length (sdsll2str val) \<le> 20"
proof -
  have "nat \<bar>val\<bar> < 10 ^ 19" using assms by (simp add: LLONG_MIN_def LLONG_MAX_def)
  then have "length (ull_digits (nat \<bar>val\<bar>) []) \<le> 19" by (rule ull_digits_length) simp
  then show ?thesis unfolding sdsll2str_eq [OF assms] ll2string_value [OF assms] by (cases "val < 0") auto
qed

text \<open>
  C40: \<^verbatim>\<open>sdsfromlonglong\<close>, for every long long, stays within its 21 byte buffer and makes the
  string that \<^verbatim>\<open>ll2string\<close> prints, which \<^verbatim>\<open>string2ll\<close> reads back as the same number.
\<close>

theorem sdsfromlonglong_correct:
  assumes "LLONG_MIN \<le> val" "val \<le> LLONG_MAX"
  shows "\<exists>s t. sdsfromlonglong val = Some s \<and> sds_wf s t \<and> t = ll2string 32 val \<and> string2ll t = Some val"
proof -
  have l: "length (sdsll2str val) \<le> 20" using sdsll2str_length [OF assms] .
  then have "length (sdsll2str val) \<le> INT_MAX" by (simp add: INT_MAX_def)
  then obtain s where s: "sdsnewlen (Some (sdsll2str val)) (length (sdsll2str val)) = Some s"
    "sds_wf s (sdsll2str val)"
    using sdsnewlen_ok [of "length (sdsll2str val)" "sdsll2str val"] by auto
  then have "sdsfromlonglong val = Some s"
    using l by (simp add: sdsfromlonglong_def Let_def SDS_LLSTR_SIZE_def)
  then show ?thesis
    using s(2) sdsll2str_eq [OF assms] string2ll_canonical [of val] assms by metis
qed

theorem sdsfromlonglong_correct_witness:
  "\<exists>s t. sdsfromlonglong (- 9223372036854775808) = Some s \<and> sds_wf s t \<and>
     t = ll2string 32 (- 9223372036854775808) \<and> string2ll t = Some (- 9223372036854775808)"
  by (rule sdsfromlonglong_correct) (simp_all add: LLONG_MIN_def LLONG_MAX_def)

subsection \<open>Formatting\<close>

lemma cstr_take: "length (cstr out) \<le> n \<Longrightarrow> cstr (take n out) = cstr out"
  unfolding cstr_def
proof (induction out arbitrary: n)
  case (Cons a out)
  then show ?case by (cases n) (auto split: if_splits)
qed simp

lemma cstr_length_nth: "i < length t \<Longrightarrow> t ! i = NUL \<Longrightarrow> length (cstr t) \<le> i"
  unfolding cstr_def by (metis (mono_tags, lifting) leI nth_length_takeWhile nth_mem set_takeWhileD takeWhile_nth)

lemma printf_loop_ok:
  assumes "2 \<le> n"
  shows "\<exists>buf. printf_loop out n = Some buf \<and> cstr buf = cstr out"
  using assms
proof (induction out n rule: printf_loop.induct)
  case (1 out n)
  define mark where "mark = (if n - 2 < length (take (n - 1) out @ [NUL])
    then (take (n - 1) out @ [NUL]) ! (n - 2) else NUL)"
  have e: "printf_loop out n = (if mark \<noteq> NUL then printf_loop out (n * 2) else Some (take (n - 1) out))"
    using 1(2) by (subst printf_loop.simps) (simp add: mark_def Let_def)
  show ?case
  proof (cases "mark = NUL")
    case True
    have "length (cstr out) \<le> n - 1"
    proof (cases "length out \<le> n - 1")
      case True
      then show ?thesis using cstr_le [of out] by simp
    next
      case False
      then have "out ! (n - 2) = NUL"
        using \<open>mark = NUL\<close> 1(2) by (auto simp: mark_def nth_append split: if_splits)
      then have "length (cstr out) \<le> n - 2" using False 1(2) by (intro cstr_length_nth) auto
      then show ?thesis by simp
    qed
    then show ?thesis using True e cstr_take [of out "n - 1"] by simp
  next
    case False
    with 1(1) [OF _ refl refl] 1(2) e show ?thesis by (simp add: mark_def)
  qed
qed

lemma sdscatvprintf_eq: "sdscatvprintf s fmtlen out = sdscat s out"
proof -
  have "2 \<le> (if fmtlen * 2 > 1024 then fmtlen * 2 else 1024)" by simp
  then obtain buf where "printf_loop out (if fmtlen * 2 > 1024 then fmtlen * 2 else 1024) = Some buf"
    "cstr buf = cstr out"
    using printf_loop_ok by blast
  then show ?thesis by (simp add: sdscatvprintf_def sdscat_def)
qed

text \<open>
  C38: The growing buffer of \<^verbatim>\<open>sdscatvprintf\<close>: whatever the length of the format and of its
  output, the loop ends, and the call appends the complete output up to its first nul byte.
\<close>

theorem sdscatvprintf_correct: "sdscatvprintf s fmtlen out = sdscat s out"
  by (rule sdscatvprintf_eq)

text \<open>The text a format stands for: the reference definition for \<^verbatim>\<open>sdscatfmt\<close>.\<close>

fun fmt_text :: "char list \<Rightarrow> fmt_arg list \<Rightarrow> char list option" where
  "fmt_text [] args = Some []"
| "fmt_text (c # f) args =
     (if c = CHR ''%'' then
        (case f of
           [] \<Rightarrow> None
         | next # f' \<Rightarrow>
             if next \<in> set ''sSiIuU'' then
               (case fmt_conv next args of
                  None \<Rightarrow> None
                | Some (bytes, args') \<Rightarrow> map_option ((@) bytes) (fmt_text f' args'))
             else map_option ((#) next) (fmt_text f' args))
      else map_option ((#) c) (fmt_text f args))"

lemma sdsMakeRoomFor_if:
  "(if sds_free s < n then sdsMakeRoomFor s n else Some s) = sdsMakeRoomFor s n"
  "(if sds_free s = 0 then sdsMakeRoomFor s 1 else Some s) = sdsMakeRoomFor s 1"
  by (auto simp: sdsMakeRoomFor_def sdsavail_def)

lemma fmt_put_ok:
  assumes "sds_holds s t" "length t + length b \<le> SDS_LIMIT"
  shows "\<exists>s'. fmt_put s (length t) b = Some s' \<and> sds_holds s' (t @ b)"
proof -
  obtain s1 where s1: "(if sds_free s < length b then sdsMakeRoomFor s (length b) else Some s) = Some s1"
    "sds_holds s1 t" "length b \<le> sds_free s1"
    unfolding sdsMakeRoomFor_if using sdsMakeRoomFor_ok [OF assms] by blast
  from s1(2) obtain r rest where b: "sds_buf s1 = map Some t @ r # rest" "length rest = sds_free s1"
    "sds_len s1 = length t" "length t + sds_free s1 \<le> INT_MAX" by (rule sds_holdsE)
  have "mem_write (sds_buf s1) (length t) b = Some (map Some (t @ b) @ drop (length b) (r # rest))"
    using b s1(3) by (simp add: mem_simps)
  moreover have "int_field (length t + length b) = Some (length t + length b)"
    using b s1(3) by (intro int_field_le) simp
  ultimately have "fmt_put s (length t) b = Some \<lparr>sds_len = length t + length b,
      sds_free = sds_free s1 - length b, sds_buf = map Some (t @ b) @ drop (length b) (r # rest)\<rparr>"
    using s1(1) b(3) by (simp add: fmt_put_def)
  moreover have "sds_holds \<lparr>sds_len = length t + length b, sds_free = sds_free s1 - length b,
      sds_buf = map Some (t @ b) @ drop (length b) (r # rest)\<rparr> (t @ b)"
    using b s1(3) by (intro sds_holdsI) (auto simp: Suc_diff_le)
  ultimately show ?thesis by blast
qed

lemma fmt_putc_put: "sds_free s \<noteq> 0 \<Longrightarrow> fmt_putc s i c = fmt_put s i [c]"
  by (simp add: fmt_putc_def fmt_put_def)

lemma catfmt_loop_ok:
  assumes "sds_holds s t" "fmt_text f args = Some u" "length t + length u < SDS_LIMIT"
  shows "\<exists>s'. catfmt_loop s (length t) f args = Some (s', length (t @ u)) \<and> sds_holds s' (t @ u)"
  using assms
proof (induction f args arbitrary: s t u rule: fmt_text.induct)
  case (2 c f args)
  have room: "length t + 1 \<le> SDS_LIMIT" using 2(6) by simp
  obtain s1 where s1: "(if sds_free s = 0 then sdsMakeRoomFor s 1 else Some s) = Some s1"
    "sds_holds s1 t" "sds_free s1 \<noteq> 0"
    unfolding sdsMakeRoomFor_if using sdsMakeRoomFor_ok [OF 2(4) room] by (metis not_one_le_zero)
  have one: "\<exists>s2. fmt_putc s1 (length t) c' = Some s2 \<and> sds_holds s2 (t @ [c'])" for c'
    using fmt_put_ok [OF s1(2), of "[c']"] room s1(3) by (simp add: fmt_putc_put)
  show ?case
  proof (cases "c = CHR ''%''")
    case False
    then obtain v where v: "fmt_text f args = Some v" "u = c # v" using 2(5) by auto
    obtain s2 where s2: "fmt_putc s1 (length t) c = Some s2" "sds_holds s2 (t @ [c])" using one by blast
    have "length (t @ [c]) + length v < SDS_LIMIT" using 2(6) v by simp
    from 2(3) [OF False s2(2) v(1) this] False s1(1) s2(1) v(2) show ?thesis by simp
  next
    case True
    with 2(5) obtain nx f' where f: "f = nx # f'" by (auto split: list.splits)
    show ?thesis
    proof (cases "nx \<in> set ''sSiIuU''")
      case nx: True
      then obtain b args' v where v: "fmt_conv nx args = Some (b, args')" "fmt_text f' args' = Some v" "u = b @ v"
        using 2(5) True f by (auto split: option.splits)
      have l: "length t + length b \<le> SDS_LIMIT" "length (t @ b) + length v < SDS_LIMIT" using 2(6) v by auto
      obtain s2 where s2: "fmt_put s1 (length t) b = Some s2" "sds_holds s2 (t @ b)"
        using fmt_put_ok [OF s1(2) l(1)] by blast
      from 2(1) [OF True f nx v(1) refl s2(2) v(2) l(2)] True f nx s1(1) s2(1) v(1,3) show ?thesis by simp
    next
      case nx: False
      then obtain v where v: "fmt_text f' args = Some v" "u = nx # v" using 2(5) True f by auto
      obtain s2 where s2: "fmt_putc s1 (length t) nx = Some s2" "sds_holds s2 (t @ [nx])" using one by blast
      have "length (t @ [nx]) + length v < SDS_LIMIT" using 2(6) v by simp
      from 2(2) [OF True f nx s2(2) v(1) this] True f nx s1(1) s2(1) v(2) show ?thesis by simp
    qed
  qed
qed auto

lemma sds_terminate:
  assumes "sds_holds s t"
  obtains b where "mem_write (sds_buf s) (length t) [NUL] = Some b" "sds_wf (s\<lparr>sds_buf := b\<rparr>) t"
proof -
  from assms obtain r rest where s: "sds_buf s = map Some t @ r # rest" "length rest = sds_free s"
    "sds_len s = length t" "length t + sds_free s \<le> INT_MAX" by (rule sds_holdsE)
  with that [of "map Some t @ Some NUL # rest"] show thesis
    by (auto simp: mem_simps sds_wf_def sds_holds_def nth_append)
qed


definition ex_sds :: sds where
  "ex_sds = \<lparr>sds_len = 2, sds_free = 1, sds_buf = [Some CHR ''h'', Some CHR ''i'', Some NUL, None]\<rparr>"

lemma sds_wf_ex_sds: "sds_wf ex_sds ''hi''"
  by (simp add: sds_wf_def sds_holds_def ex_sds_def INT_MAX_def)


subsection \<open>Trimming\<close>

text \<open>The reference definition: drop the characters of the set at both ends.\<close>

definition trim_text :: "char list \<Rightarrow> char list \<Rightarrow> char list" where
  "trim_text cset t = rev (dropWhile (in_cset cset) (rev (dropWhile (in_cset cset) t)))"

lemma trim_sp_eq: "sp \<le> length t \<Longrightarrow> trim_sp t cset sp = sp + length (takeWhile (in_cset cset) (drop sp t))"
proof (induction t cset sp rule: trim_sp.induct)
  case (1 t cset sp)
  show ?case
  proof (cases "sp < length t")
    case True
    then have "drop sp t = t ! sp # drop (Suc sp) t" by (simp add: Cons_nth_drop_Suc)
    then show ?thesis using True 1 by (subst trim_sp.simps) auto
  qed (use 1(2) in \<open>subst trim_sp.simps, auto\<close>)
qed

lemma trim_ep_bounds:
  "trim_ep t cset ep \<le> ep \<and> (0 \<le> ep \<longrightarrow> 0 \<le> trim_ep t cset ep) \<and>
   (\<forall>i. trim_ep t cset ep < i \<and> i \<le> ep \<longrightarrow> in_cset cset (t ! nat i)) \<and>
   (0 < trim_ep t cset ep \<longrightarrow> \<not> in_cset cset (t ! nat (trim_ep t cset ep)))"
proof (induction t cset ep rule: trim_ep.induct)
  case (1 t cset ep)
  show ?case
  proof (cases "ep > 0 \<and> in_cset cset (t ! nat ep)")
    case True
    then have e: "trim_ep t cset ep = trim_ep t cset (ep - 1)" by (subst trim_ep.simps) simp
    have "in_cset cset (t ! nat i)" if "trim_ep t cset (ep - 1) < i" "i \<le> ep" for i
      using 1 [OF True] that True by (cases "i = ep") auto
    with 1 [OF True] True show ?thesis unfolding e by auto
  qed (subst (1 2 3 4 5) trim_ep.simps, auto)
qed

lemma rev_dropWhile_rev:
  "\<not> P x \<Longrightarrow> \<forall>y \<in> set b. P y \<Longrightarrow> rev (dropWhile P (rev (a @ x # b))) = a @ [x]"
  by (simp add: dropWhile_append3)

lemma trim_eq:
  defines "sp \<equiv> \<lambda>t cset. trim_sp t cset 0"
    and "ep \<equiv> \<lambda>t cset. trim_ep t cset (int (length t) - 1)"
  shows "trim_text cset t = (if int (sp t cset) > ep t cset then []
    else take (nat (ep t cset - int (sp t cset)) + 1) (drop (sp t cset) t))" (is "_ = ?r")
    and "\<not> int (sp t cset) > ep t cset \<Longrightarrow> ep t cset < int (length t)"
proof -
  let ?P = "in_cset cset" and ?sp = "sp t cset" and ?ep = "ep t cset"
  have s: "?sp = length (takeWhile ?P t)" by (simp add: sp_def trim_sp_eq)
  then have d: "drop ?sp t = dropWhile ?P t" by (simp add: dropWhile_eq_drop)
  have e: "?ep \<le> int (length t) - 1" "t \<noteq> [] \<longrightarrow> 0 \<le> ?ep"
      "\<And>i. ?ep < i \<Longrightarrow> i \<le> int (length t) - 1 \<Longrightarrow> ?P (t ! nat i)" "0 < ?ep \<Longrightarrow> \<not> ?P (t ! nat ?ep)"
    using trim_ep_bounds [of t cset "int (length t) - 1"] by (auto simp: ep_def Suc_le_eq)
  show "\<not> int ?sp > ?ep \<Longrightarrow> ?ep < int (length t)" using e(1) by simp
  show "trim_text cset t = ?r"
  proof (cases "dropWhile ?P t = []")
    case True
    then have "takeWhile ?P t = t" by (simp add: takeWhile_eq_all_conv dropWhile_eq_Nil_conv)
    then have "?sp = length t" unfolding s by (rule arg_cong)
    with e(1) show ?thesis unfolding trim_text_def True by simp
  next
    case False
    then have lt: "?sp < length t" using d by (metis drop_all not_le)
    have np: "\<not> ?P (t ! ?sp)" using hd_dropWhile [OF False] d lt by (metis hd_drop_conv_nth)
    have le: "int ?sp \<le> ?ep" using e(3) [of "int ?sp"] np lt by (cases "?ep < int ?sp") auto
    define j where "j = nat ?ep"
    have j: "?ep = int j" "?sp \<le> j" "j < length t" using le e(1) by (auto simp: j_def)
    have nj: "\<not> ?P (t ! j)" using e(4) np j by (cases "j = 0") auto
    have "drop ?sp t = take (j - ?sp) (drop ?sp t) @ t ! j # drop (Suc j) t"
      using j id_take_nth_drop [of "j - ?sp" "drop ?sp t"] by simp
    moreover have "\<forall>y \<in> set (drop (Suc j) t). ?P y"
    proof
      fix y
      assume "y \<in> set (drop (Suc j) t)"
      then obtain k where k: "y = t ! (Suc j + k)" "Suc j + k < length t" by (auto simp: in_set_conv_nth)
      define m where "m = Suc j + k"
      show "?P y" using e(3) [of "int m"] j(1) k by (simp add: m_def [symmetric]) (simp add: m_def)
    qed
    ultimately have "trim_text cset t = take (j - ?sp) (drop ?sp t) @ [t ! j]"
      unfolding trim_text_def d [symmetric] using rev_dropWhile_rev [of ?P "t ! j", OF nj] by metis
    also have "\<dots> = take (Suc (j - ?sp)) (drop ?sp t)" using j by (simp add: take_Suc_conv_app_nth)
    also have "j - ?sp = nat (int j - int ?sp)" using j(2) by linarith
    finally show ?thesis using j by simp
  qed
qed

text \<open>A move of a part of the text to the front of the buffer.\<close>

lemma sds_move_front:
  assumes "sds_wf s t" "i + n \<le> length t"
  obtains b where "mem_read (sds_buf s) i n = Some (take n (drop i t))"
    "mem_write (sds_buf s) 0 (take n (drop i t)) = Some b"
    "i = 0 \<Longrightarrow> b = sds_buf s"
    "\<exists>b'. mem_write b n [NUL] = Some b' \<and>
      sds_wf \<lparr>sds_len = n, sds_free = sds_free s + (sds_len s - n), sds_buf = b'\<rparr> (take n (drop i t))"
    "int_field (sds_free s + (sds_len s - n)) = Some (sds_free s + (sds_len s - n))"
proof -
  from assms(1) obtain rest where b: "sds_buf s = map Some t @ Some NUL # rest" "length rest = sds_free s"
    "sds_len s = length t" "length t + sds_free s \<le> INT_MAX" by (rule sds_wfE)
  have l: "length (take n (drop i t)) = n" using assms(2) by simp
  then have "length (take n (drop i t)) \<le> length t + sds_free s" using assms(2) by simp
  from sds_overwrite [OF sds_wf_holds [OF assms(1)] this] obtain b1 b' where
    w: "mem_write (sds_buf s) 0 (take n (drop i t)) = Some b1" "mem_write b1 n [NUL] = Some b'"
    "sds_wf \<lparr>sds_len = n, sds_free = length t + sds_free s - n, sds_buf = b'\<rparr> (take n (drop i t))"
    unfolding l by blast
  have f: "length t + sds_free s - n = sds_free s + (sds_len s - n)" using assms(2) b(3) by simp
  moreover have "b1 = sds_buf s" if "i = 0" using w(1) that b(1) by (simp add: mem_write_same)
  moreover have "mem_read (sds_buf s) i n = Some (take n (drop i t))"
    using b(1) assms(2) by (simp add: mem_read_mid)
  moreover have "int_field (sds_free s + (sds_len s - n)) = Some (sds_free s + (sds_len s - n))"
    using b assms(2) by (intro int_field_le) simp
  ultimately show thesis using that [of b1] w by auto
qed

lemma sdstrim_ok:
  assumes "sds_wf s t"
  obtains s' where "sdstrim s cset = Some s'" "sds_wf s' (trim_text cset t)"
proof -
  define sp where "sp = trim_sp t cset 0"
  define ep where "ep = trim_ep t cset (int (length t) - 1)"
  define n where "n = (if int sp > ep then 0 else nat (ep - int sp) + 1)"
  have sp: "sp \<le> length t" by (simp add: sp_def trim_sp_eq length_takeWhile_le)
  have n: "sp + n \<le> length t" using trim_eq(2) [of t cset] sp by (auto simp: n_def sp_def ep_def)
  have tt: "trim_text cset t = take n (drop sp t)"
    using trim_eq(1) [of cset t] by (auto simp: n_def sp_def ep_def)
  obtain b b' where w: "mem_read (sds_buf s) sp n = Some (take n (drop sp t))"
    "mem_write (sds_buf s) 0 (take n (drop sp t)) = Some b" "sp = 0 \<Longrightarrow> b = sds_buf s"
    "mem_write b n [NUL] = Some b'"
    "sds_wf \<lparr>sds_len = n, sds_free = sds_free s + (sds_len s - n), sds_buf = b'\<rparr> (take n (drop sp t))"
    "int_field (sds_free s + (sds_len s - n)) = Some (sds_free s + (sds_len s - n))"
    using sds_move_front [OF assms n] by metis
  have "sdstrim s cset = Some \<lparr>sds_len = n, sds_free = sds_free s + (sds_len s - n), sds_buf = b'\<rparr>"
    unfolding sdstrim_def sds_wf_read [OF assms] Option.bind.simps Let_def
      sp_def [symmetric] ep_def [symmetric] n_def [symmetric]
    using w by (cases "sp = 0") simp_all
  with w(5) tt that show thesis by metis
qed

subsection \<open>Ranges\<close>

text \<open>
  The reference definition: negative indices count from the end, both ends are included and
  clamped to the string.
\<close>

definition range_index :: "nat \<Rightarrow> int \<Rightarrow> nat" where
  "range_index n i = nat (if i < 0 then max 0 (int n + i) else i)"

definition range_text :: "int \<Rightarrow> int \<Rightarrow> char list \<Rightarrow> char list" where
  "range_text start end1 t =
     drop (range_index (length t) start) (take (Suc (range_index (length t) end1)) t)"

lemma range_newlen_small:
  "0 \<le> a \<Longrightarrow> b < 2 ^ 31 - 1 \<Longrightarrow> range_newlen a b = nat (b - a + 1)"
  by (auto simp: range_newlen_def signed_take_bit_int_eq_self)

lemma range_newlen_0_iff:
  assumes "0 \<le> a" "b < 2 ^ 31"
  shows "range_newlen a b = 0 \<longleftrightarrow> b < a"
proof (cases "b < 2 ^ 31 - 1 \<or> b < a \<or> 0 < a")
  case True
  then have "range_newlen a b = nat (b - a + 1)"
    using assms by (auto simp: range_newlen_def signed_take_bit_int_eq_self)
  with assms show ?thesis by auto
next
  case False
  with assms have "a = 0" "b = 2 ^ 31 - 1" by auto
  then show ?thesis by (simp add: range_newlen_def signed_take_bit_eq_if_positive)
qed

lemma sdsrange_ok:
  assumes "sds_wf s t" "- (2 ^ 31) \<le> start" "start < 2 ^ 31" "- (2 ^ 31) \<le> end1" "end1 < 2 ^ 31"
  obtains s' where "sdsrange s start end1 = Some s'" "sds_wf s' (range_text start end1 t)"
proof (cases "t = []")
  case True
  with assms that show thesis by (auto simp: sdsrange_def sds_wf_len range_text_def)
next
  case False
  define a where "a = (if start < 0 then max 0 (int (length t) + start) else start)"
  define e where "e = (if end1 < 0 then max 0 (int (length t) + end1) else end1)"
  define p where "p = (if range_newlen a e \<noteq> 0 then
      (if a \<ge> int (length t) then (a, 0)
       else if e \<ge> int (length t) then (a, range_newlen a (int (length t) - 1)) else (a, range_newlen a e))
    else (0, range_newlen a e))"
  have lt: "length t \<le> INT_MAX" using assms(1) by (auto elim: sds_wfE)
  then have a: "0 \<le> a" "a < 2 ^ 31" and e: "0 \<le> e" "e < 2 ^ 31"
    using assms by (auto simp: a_def e_def INT_MAX_def)
  define i n where "i = nat (fst p)" and "n = snd p"
  have p: "p = (int i, n)" using a by (auto simp: p_def i_def n_def)
  have r: "range_newlen a x = nat (x - a + 1)" if "x < int (length t)" for x
    using that a lt by (intro range_newlen_small) (auto simp: INT_MAX_def)
  have bnd: "n \<noteq> 0 \<Longrightarrow> i + n \<le> length t"
    using p r a e by (auto simp: p_def split: if_splits)
  have "nat (e - int i + 1) = Suc (nat e) - i" if "int i \<le> e" using that by linarith
  then have tt: "take n (drop i t) = range_text start end1 t"
    using p r a e range_newlen_0_iff [OF a(1) e(2)] False
    by (auto simp: p_def range_text_def range_index_def drop_take simp flip: a_def e_def
      split: if_splits)
  define j where "j = (if n = 0 then 0 else i)"
  have j: "take n (drop j t) = take n (drop i t)" "j + n \<le> length t" using bnd by (auto simp: j_def)
  obtain b b' where w: "mem_read (sds_buf s) j n = Some (take n (drop j t))"
    "mem_write (sds_buf s) 0 (take n (drop j t)) = Some b" "j = 0 \<Longrightarrow> b = sds_buf s"
    "mem_write b n [NUL] = Some b'"
    "sds_wf \<lparr>sds_len = n, sds_free = sds_free s + (sds_len s - n), sds_buf = b'\<rparr> (take n (drop j t))"
    "int_field (sds_free s + (sds_len s - n)) = Some (sds_free s + (sds_len s - n))"
    using sds_move_front [OF assms(1) j(2)] by metis
  have "int_field n = Some n" using j(2) lt by (intro int_field_le) simp
  then have "sdsrange s start end1 =
      Some \<lparr>sds_len = n, sds_free = sds_free s + (sds_len s - n), sds_buf = b'\<rparr>"
    unfolding sdsrange_def Let_def sds_wf_len [OF assms(1)] a_def [symmetric] e_def [symmetric]
      p_def [symmetric] p
    using False w by (cases "i = 0"; cases "n = 0") (simp_all add: j_def)
  with w(5) j(1) tt that show thesis by metis
qed

text \<open>
  C39: \<^verbatim>\<open>sdsrange\<close> keeps exactly the bytes between the two indices, for all values of its
  \<^verbatim>\<open>int\<close> arguments: negative indices count from the end, both ends are clamped, an empty
  range gives the empty string, and nothing outside the buffer is touched.
\<close>

theorem sdsrange_correct:
  assumes "sds_wf s t" "- (2 ^ 31) \<le> start" "start < 2 ^ 31" "- (2 ^ 31) \<le> end1" "end1 < 2 ^ 31"
  shows "\<exists>s'. sdsrange s start end1 = Some s' \<and> sds_wf s' (range_text start end1 t)"
  by (rule sdsrange_ok [OF assms]) blast

theorem sdsrange_correct_witness:
  "\<exists>s'. sdsrange ex_sds (-1) 2147483647 = Some s' \<and> sds_wf s' (range_text (-1) 2147483647 ''hi'')"
  by (rule sdsrange_correct [OF sds_wf_ex_sds]) simp_all

subsection \<open>Byte maps and comparison\<close>

lemma sds_map_bytes_ok:
  assumes "sds_wf s t"
  obtains s' where "sds_map_bytes f s = Some s'" "sds_wf s' (map f t)"
proof -
  from assms(1) obtain rest where b: "sds_buf s = map Some t @ Some NUL # rest" "length rest = sds_free s"
    "sds_len s = length t" "length t + sds_free s \<le> INT_MAX" by (rule sds_wfE)
  have "sds_map_bytes f s = Some (s\<lparr>sds_buf := map Some (map f t) @ Some NUL # rest\<rparr>)"
    unfolding sds_map_bytes_def sds_wf_read [OF assms] using b by (simp add: mem_simps)
  moreover have "sds_wf (s\<lparr>sds_buf := map Some (map f t) @ Some NUL # rest\<rparr>) (map f t)"
    using b by (simp add: sds_wf_def sds_holds_def nth_append)
  ultimately show thesis using that by blast
qed

lemma memcmp_take:
  "memcmp (take (min (length s) (length t)) s) (take (min (length s) (length t)) t) = memcmp s t"
  by (induction s t rule: memcmp.induct) auto

lemma memcmp_cases:
  "(memcmp s t = 0 \<longrightarrow> take (min (length s) (length t)) s = take (min (length s) (length t)) t) \<and>
   (memcmp s t < 0 \<longrightarrow> (s, t) \<in> lexord {(a, b). (of_char a :: nat) < of_char b}) \<and>
   (memcmp s t > 0 \<longrightarrow> (t, s) \<in> lexord {(a, b). (of_char a :: nat) < of_char b})"
proof (induction s t rule: memcmp.induct)
  case (1 a s b t)
  have "(of_char b :: nat) < of_char a" if "a \<noteq> b" "\<not> (of_char a :: nat) < of_char b"
    using that by (metis linorder_neqE_nat of_char_eq_iff)
  with 1 show ?case by (auto simp: lexord_cons_cons)
qed auto

lemma lexord_asym_byte:
  "(s, t) \<in> lexord {(a :: char, b). (of_char a :: nat) < of_char b} \<Longrightarrow>
   (t, s) \<notin> lexord {(a, b). (of_char a :: nat) < of_char b}"
  by (rule lexord_asymmetric [of _ s t]) (auto intro!: asymI)

text \<open>The comparison of the common prefix, with the lengths to break the tie.\<close>

lemma memcmp_length_lexord:
  assumes c: "c = (if memcmp t1 t2 = 0 then int (length t1) - int (length t2) else memcmp t1 t2)"
  shows "(c = 0 \<longleftrightarrow> t1 = t2) \<and> (c < 0 \<longleftrightarrow> (t1, t2) \<in> lexord {(a, b). (of_char a :: nat) < of_char b})"
proof -
  let ?m = "min (length t1) (length t2)" and ?R = "{(a, b). (of_char a :: nat) < of_char b}"
  show ?thesis
  proof (cases "memcmp t1 t2 = 0")
    case True
    with memcmp_cases [of t1 t2] have p: "take ?m t1 = take ?m t2" by simp
    show ?thesis
    proof (cases "length t1 < length t2")
      case True
      then have "t2 = t1 @ drop (length t1) t2" "drop (length t1) t2 \<noteq> []"
        using p by (auto, metis append_take_drop_id min.strict_order_iff take_all order_refl)
      then have "(t1, t2) \<in> lexord ?R" by (metis lexord_append_rightI neq_Nil_conv)
      with True \<open>memcmp t1 t2 = 0\<close> c show ?thesis by auto
    next
      case False
      have "t1 = t2" if "length t1 = length t2" using p that by simp
      moreover have "(t1, t2) \<notin> lexord ?R"
      proof (cases "length t1 = length t2")
        case True
        with \<open>length t1 = length t2 \<Longrightarrow> t1 = t2\<close> show ?thesis by (auto dest: lexord_asym_byte)
      next
        case ne: False
        then have "t1 = t2 @ drop (length t2) t1" "drop (length t2) t1 \<noteq> []"
          using p False by (auto, metis append_take_drop_id min_absorb2 nat_le_linear take_all)
        then have "(t2, t1) \<in> lexord ?R" by (metis lexord_append_rightI neq_Nil_conv)
        then show ?thesis by (rule lexord_asym_byte)
      qed
      ultimately show ?thesis using False \<open>memcmp t1 t2 = 0\<close> c by auto
    qed
  next
    case False
    then have "t1 \<noteq> t2" using memcmp_cases [of t1 t2] by (auto dest: lexord_asym_byte simp: neq_iff)
    with False c memcmp_cases [of t1 t2] show ?thesis
      by (auto dest: lexord_asym_byte simp: neq_iff)
  qed
qed

text \<open>
  \<^verbatim>\<open>sdscmp\<close> is the lexicographic order on bytes: its result is zero exactly for equal texts
  (nul bytes included) and negative exactly when the first text comes first.
\<close>

theorem sdscmp_correct:
  assumes "sds_wf s1 t1" "sds_wf s2 t2"
  shows "\<exists>c. sdscmp s1 s2 = Some c \<and> (c = 0 \<longleftrightarrow> t1 = t2) \<and>
    (c < 0 \<longleftrightarrow> (t1, t2) \<in> lexord {(a, b). (of_char a :: nat) < of_char b})"
proof -
  let ?m = "min (length t1) (length t2)"
  have r: "mem_read (sds_buf s1) 0 ?m = Some (take ?m t1)" "mem_read (sds_buf s2) 0 ?m = Some (take ?m t2)"
    using assms by (auto elim!: sds_wfE simp: mem_read_mid)
  have "(if length t1 < length t2 then length t1 else length t2) = ?m" by auto
  then have "sdscmp s1 s2 = Some (if memcmp t1 t2 = 0 then int (length t1) - int (length t2) else memcmp t1 t2)"
    using r assms by (simp add: sdscmp_def Let_def sds_wf_len memcmp_take)
  then show ?thesis using memcmp_length_lexord [OF refl, of t1 t2] by blast
qed

theorem sdscmp_correct_witness:
  "\<exists>c. sdscmp ex_sds ex_sds = Some c \<and> (c = 0 \<longleftrightarrow> ''hi'' = ''hi'') \<and>
    (c < 0 \<longleftrightarrow> (''hi'', ''hi'') \<in> lexord {(a, b). (of_char a :: nat) < of_char b})"
  by (rule sdscmp_correct [OF sds_wf_ex_sds sds_wf_ex_sds])

subsection \<open>Length updates, shrinking, copying\<close>

lemma mem_strlen_ok: "mem_strlen (map Some t @ Some NUL # rest) = Some (length (cstr t))"
  by (induction t) (auto simp: cstr_def)

lemma cstr_prefix: "\<exists>r. t = cstr t @ r \<and> (r = [] \<or> hd r = NUL)"
proof (induction t)
  case (Cons c t)
  then show ?case by (cases "c = NUL") (auto simp: cstr_def)
qed (simp add: cstr_def)

lemma sdsupdatelen_ok:
  assumes "sds_wf s t"
  obtains s' where "sdsupdatelen s = Some s'" "sds_wf s' (cstr t)"
proof -
  from assms(1) obtain rest where b: "sds_buf s = map Some t @ Some NUL # rest" "length rest = sds_free s"
    "sds_len s = length t" "length t + sds_free s \<le> INT_MAX" by (rule sds_wfE)
  obtain r where r: "t = cstr t @ r" "r = [] \<or> hd r = NUL" using cstr_prefix by blast
  obtain ys where ys: "map Some r @ Some NUL # rest = Some NUL # ys" "length ys = length r + sds_free s"
    using r(2) b(2) by (cases r) auto
  define f where "f = length r + sds_free s"
  have l: "length t = length (cstr t) + length r" by (metis r(1) length_append)
  have "nat (int (sds_free s) + (int (sds_len s) - int (length (cstr t)))) = f"
    using l b(3) by (simp add: f_def)
  moreover have "int_field f = Some f" "int_field (length (cstr t)) = Some (length (cstr t))"
    using b(4) l by (auto simp: f_def intro!: int_field_le)
  ultimately have "sdsupdatelen s = Some (s\<lparr>sds_free := f, sds_len := length (cstr t)\<rparr>)"
    using b(1) by (simp add: sdsupdatelen_def mem_strlen_ok)
  moreover have "sds_buf s = map Some (cstr t) @ Some NUL # ys"
    unfolding b(1) using ys(1) r(1) by (metis append_assoc map_append)
  then have "sds_wf (s\<lparr>sds_free := f, sds_len := length (cstr t)\<rparr>) (cstr t)"
    using ys(2) l b(4) by (simp add: sds_wf_def sds_holds_def nth_append f_def)
  ultimately show thesis using that by blast
qed

lemma sdsRemoveFreeSpace_ok:
  assumes "sds_wf s t"
  shows "sds_wf (sdsRemoveFreeSpace s) t"
  using assms by (auto elim!: sds_wfE
    simp: sdsRemoveFreeSpace_def zrealloc_def sds_wf_def sds_holds_def nth_append)

lemma sdsdup_ok:
  assumes "sds_wf s t"
  obtains s' where "sdsdup s = Some s'" "sds_wf s' t" "sds_free s' = 0"
proof -
  have "length t \<le> INT_MAX" using assms by (auto elim: sds_wfE)
  then obtain s' where "sdsnewlen (Some t) (length t) = Some s'" "sds_wf s' t" "sds_free s' = 0"
    using sdsnewlen_ok [of "length t" t] by auto
  then show thesis using that sds_wf_read [OF assms] sds_wf_len [OF assms] by (simp add: sdsdup_def)
qed

lemma sdsIncrLen_grow:
  assumes "sds_wf s t" and u: "length u \<le> sds_free s"
  shows "\<exists>b s'. mem_write (sds_buf s) (length t) u = Some b \<and>
    sdsIncrLen (s\<lparr>sds_buf := b\<rparr>) (int (length u)) = Some s' \<and> sds_wf s' (t @ u)"
proof -
  from assms(1) obtain rest where b: "sds_buf s = map Some t @ Some NUL # rest" "length rest = sds_free s"
    "sds_len s = length t" "length t + sds_free s \<le> INT_MAX" by (rule sds_wfE)
  obtain r ys where r: "drop (length u) (Some NUL # rest) = r # ys" "length ys = sds_free s - length u"
    using drop_Suc_length [of "length u" rest "Some NUL"] u b(2) by metis
  let ?b = "map Some (t @ u) @ r # ys"
  have w: "mem_write (sds_buf s) (length t) u = Some ?b" using b r u by (simp add: mem_simps)
  have "nat (int (length t) + int (length u)) = length (t @ u)" by simp
  moreover have "nat (int (sds_free s) - int (length u)) = sds_free s - length u" using u by simp
  moreover have "mem_write ?b (length (t @ u)) [NUL] = Some (map Some (t @ u) @ Some NUL # ys)"
    by (subst mem_write_append) auto
  moreover have "int_field (length (t @ u)) = Some (length (t @ u))"
      "int_field (sds_free s - length u) = Some (sds_free s - length u)"
    using u b(4) by (auto intro!: int_field_le)
  ultimately have "sdsIncrLen (s\<lparr>sds_buf := ?b\<rparr>) (int (length u)) = Some \<lparr>sds_len = length (t @ u),
      sds_free = sds_free s - length u, sds_buf = map Some (t @ u) @ Some NUL # ys\<rparr>"
    using u b(3) by (simp add: sdsIncrLen_def Let_def)
  moreover have "sds_wf \<lparr>sds_len = length (t @ u), sds_free = sds_free s - length u,
      sds_buf = map Some (t @ u) @ Some NUL # ys\<rparr> (t @ u)"
    using r b u by (intro sds_wfI) auto
  ultimately show ?thesis using w by blast
qed

lemma sdsIncrLen_cut:
  assumes "sds_wf s t" "k \<le> length t"
  shows "\<exists>s'. sdsIncrLen s (- int k) = Some s' \<and> sds_wf s' (take (length t - k) t)"
proof -
  define n where "n = length t - k"
  have len: "sds_len s = length t" "length t \<le> INT_MAX" using assms(1) by (auto elim: sds_wfE)
  then have n: "0 + n \<le> length t" "sds_len s - n = k" using assms(2) by (auto simp: n_def)
  obtain b' where w: "mem_write (sds_buf s) n [NUL] = Some b'"
    "sds_wf \<lparr>sds_len = n, sds_free = sds_free s + k, sds_buf = b'\<rparr> (take n t)"
    "int_field (sds_free s + k) = Some (sds_free s + k)"
    using sds_move_front [OF assms(1) n(1)] unfolding n(2) by (metis drop_0)
  have "nat (int (sds_len s) - int k) = n" "nat (int (sds_free s) + int k) = sds_free s + k"
    using assms(2) len by (auto simp: n_def)
  moreover have "int_field n = Some n" using n len by (intro int_field_le) simp
  ultimately show ?thesis
    using w assms(2) len by (simp add: sdsIncrLen_def Let_def flip: n_def)
qed

text \<open>
  The documented use of \<^verbatim>\<open>sdsIncrLen\<close>: after a reader wrote bytes straight into the free space
  behind the string, a call with their number appends them; a call with a negative number that
  is not larger than the length cuts the string on the right.
\<close>

theorem sdsIncrLen_correct:
  assumes "sds_wf s t"
  shows "(length u \<le> sds_free s \<longrightarrow> (\<exists>b s'. mem_write (sds_buf s) (length t) u = Some b \<and>
      sdsIncrLen (s\<lparr>sds_buf := b\<rparr>) (int (length u)) = Some s' \<and> sds_wf s' (t @ u))) \<and>
    (k \<le> length t \<longrightarrow> (\<exists>s'. sdsIncrLen s (- int k) = Some s' \<and> sds_wf s' (take (length t - k) t)))"
  using sdsIncrLen_grow [OF assms] sdsIncrLen_cut [OF assms] by blast

theorem sdsIncrLen_correct_witness:
  "(\<exists>b s'. mem_write (sds_buf ex_sds) 2 ''!'' = Some b \<and>
      sdsIncrLen (ex_sds\<lparr>sds_buf := b\<rparr>) 1 = Some s' \<and> sds_wf s' ''hi!'') \<and>
    (\<exists>s'. sdsIncrLen ex_sds (- 1) = Some s' \<and> sds_wf s' ''h'')"
  using sdsIncrLen_correct [OF sds_wf_ex_sds, of "''!''" 1] by (simp add: ex_sds_def numeral_2_eq_2)

subsection \<open>Sequences of edits\<close>

datatype sds_edit =
  EdCat "char list" | EdCatStr "char list" | EdCpy "char list" | EdClear | EdGrowZero nat
| EdMakeRoom nat | EdRemoveFree | EdTrim "char list" | EdRange int int | EdLower | EdUpper
| EdMapChars "char list" "char list" | EdUpdateLen | EdDup

fun sds_edit_step :: "sds_edit \<Rightarrow> sds \<Rightarrow> sds option" where
  "sds_edit_step (EdCat u) s = sdscatlen s u"
| "sds_edit_step (EdCatStr u) s = sdscat s u"
| "sds_edit_step (EdCpy u) s = sdscpylen s u"
| "sds_edit_step EdClear s = sdsclear s"
| "sds_edit_step (EdGrowZero n) s = sdsgrowzero s n"
| "sds_edit_step (EdMakeRoom n) s = sdsMakeRoomFor s n"
| "sds_edit_step EdRemoveFree s = Some (sdsRemoveFreeSpace s)"
| "sds_edit_step (EdTrim cset) s = sdstrim s cset"
| "sds_edit_step (EdRange i j) s = sdsrange s i j"
| "sds_edit_step EdLower s = sdstolower s"
| "sds_edit_step EdUpper s = sdstoupper s"
| "sds_edit_step (EdMapChars f t) s = sdsmapchars s f t"
| "sds_edit_step EdUpdateLen s = sdsupdatelen s"
| "sds_edit_step EdDup s = sdsdup s"

fun sds_edits :: "sds_edit list \<Rightarrow> sds \<Rightarrow> sds option" where
  "sds_edits [] s = Some s"
| "sds_edits (e # es) s = do { s \<leftarrow> sds_edit_step e s; sds_edits es s }"

text \<open>The same edits on a text, with the arguments the contract allows.\<close>

fun text_edit :: "sds_edit \<Rightarrow> char list \<Rightarrow> char list" where
  "text_edit (EdCat u) t = t @ u"
| "text_edit (EdCatStr u) t = t @ cstr u"
| "text_edit (EdCpy u) t = u"
| "text_edit EdClear t = []"
| "text_edit (EdGrowZero n) t = t @ replicate (n - length t) NUL"
| "text_edit (EdMakeRoom n) t = t"
| "text_edit EdRemoveFree t = t"
| "text_edit (EdTrim cset) t = trim_text cset t"
| "text_edit (EdRange i j) t = range_text i j t"
| "text_edit EdLower t = map ctolower t"
| "text_edit EdUpper t = map ctoupper t"
| "text_edit (EdMapChars f to) t = map (map_char f to) t"
| "text_edit EdUpdateLen t = cstr t"
| "text_edit EdDup t = t"

fun edit_ok :: "sds_edit \<Rightarrow> char list \<Rightarrow> bool" where
  "edit_ok (EdCat u) t \<longleftrightarrow> length t + length u \<le> SDS_LIMIT"
| "edit_ok (EdCatStr u) t \<longleftrightarrow> length t + length (cstr u) \<le> SDS_LIMIT"
| "edit_ok (EdCpy u) t \<longleftrightarrow> length u \<le> SDS_LIMIT"
| "edit_ok (EdGrowZero n) t \<longleftrightarrow> n \<le> SDS_LIMIT"
| "edit_ok (EdMakeRoom n) t \<longleftrightarrow> length t + n \<le> SDS_LIMIT"
| "edit_ok (EdRange i j) t \<longleftrightarrow> - (2 ^ 31) \<le> i \<and> i < 2 ^ 31 \<and> - (2 ^ 31) \<le> j \<and> j < 2 ^ 31"
| "edit_ok _ t \<longleftrightarrow> True"

fun edits_ok :: "sds_edit list \<Rightarrow> char list \<Rightarrow> bool" where
  "edits_ok [] t \<longleftrightarrow> True"
| "edits_ok (e # es) t \<longleftrightarrow> edit_ok e t \<and> edits_ok es (text_edit e t)"

lemma sds_edit_step_ok:
  assumes "sds_wf s t" "edit_ok e t"
  shows "\<exists>s'. sds_edit_step e s = Some s' \<and> sds_wf s' (text_edit e t)"
proof (cases e)
  case (EdRange i j)
  with assms show ?thesis by (auto intro: sdsrange_ok [OF assms(1)])
next
  case (EdMakeRoom n)
  with assms show ?thesis by (auto intro: sdsMakeRoomFor_wf [OF assms(1)])
qed (use assms in \<open>auto simp: sdstolower_def sdstoupper_def sdsmapchars_def sdsRemoveFreeSpace_ok
  intro: sdscatlen_ok [OF assms(1)] sdscat_ok [OF assms(1)] sdscpylen_ok [OF assms(1)] sdsclear_ok [OF assms(1)]
    sdsgrowzero_ok [OF assms(1)] sdstrim_ok [OF assms(1)] sds_map_bytes_ok [OF assms(1)]
    sdsupdatelen_ok [OF assms(1)] sdsdup_ok [OF assms(1)]\<close>)

text \<open>
  C4: Refinement of texts. Any sequence of edits within the size limit succeeds on a well-formed
  string without reading or writing outside its buffer, keeps the header, buffer and terminator
  consistent, and leaves exactly the text that the same edits make of a plain list of bytes.
\<close>

theorem sds_edits_refine:
  assumes "sds_wf s t" "edits_ok es t"
  shows "\<exists>s'. sds_edits es s = Some s' \<and> sds_wf s' (fold text_edit es t)"
  using assms
proof (induction es arbitrary: s t)
  case (Cons e es)
  then obtain s1 where "sds_edit_step e s = Some s1" "sds_wf s1 (text_edit e t)"
    using sds_edit_step_ok [of s t e] by auto
  with Cons show ?case by auto
qed simp

theorem sds_edits_refine_witness:
  "\<exists>s'. sds_edits [EdCat '' there  '', EdTrim '' '', EdRange 1 (-2), EdUpper] ex_sds = Some s' \<and>
     sds_wf s' (fold text_edit [EdCat '' there  '', EdTrim '' '', EdRange 1 (-2), EdUpper] ''hi'')"
  by (rule sds_edits_refine [OF sds_wf_ex_sds])
    (simp add: SDS_LIMIT_def INT_MAX_def SDS_MAX_PREALLOC_def)

end
