(* ===== verification/SdsSplit.thy ===== *)
theory SdsSplit
  imports SdsEdit "HOL-Library.Sublist"
begin

text \<open>
  Splitting and joining, quoting and parsing of arguments: the two pairs of functions are inverse
  to each other.
\<close>

subsection \<open>Joining\<close>

text \<open>The texts with the separator between them.\<close>

fun join_text :: "char list \<Rightarrow> char list list \<Rightarrow> char list" where
  "join_text sep [] = []"
| "join_text sep (t # ts) = t @ (if ts = [] then [] else sep @ join_text sep ts)"

lemma join_text_snoc:
  "join_text sep (ts @ [t]) = concat (map (\<lambda>x. x @ sep) ts) @ t"
  by (induction ts) auto

lemma join_loop_ok:
  assumes "sds_wf s t" "length t + length (join_text (cstr sep) (map cstr argv)) \<le> SDS_LIMIT"
  shows "\<exists>s'. join_loop s argv sep = Some s' \<and> sds_wf s' (t @ join_text (cstr sep) (map cstr argv))"
  using assms
proof (induction argv arbitrary: s t)
  case (Cons a argv)
  have "length t + length (cstr a) \<le> SDS_LIMIT" using Cons.prems(2) by simp
  then obtain s1 where s1: "sdscat s a = Some s1" "sds_wf s1 (t @ cstr a)"
    using sdscat_ok [OF Cons.prems(1)] by blast
  show ?case
  proof (cases "argv = []")
    case True
    with s1 show ?thesis by simp
  next
    case False
    then have "length (t @ cstr a) + length (cstr sep) \<le> SDS_LIMIT" using Cons.prems(2) by simp
    then obtain s2 where s2: "sdscat s1 sep = Some s2" "sds_wf s2 ((t @ cstr a) @ cstr sep)"
      using sdscat_ok [OF s1(2)] by blast
    from Cons.IH [OF s2(2)] Cons.prems(2) False s1(1) s2(1) show ?thesis by simp
  qed
qed simp

lemma sdsjoin_ok:
  assumes "length (join_text (cstr sep) (map cstr argv)) \<le> SDS_LIMIT"
  shows "\<exists>s. sdsjoin argv sep = Some s \<and> sds_wf s (join_text (cstr sep) (map cstr argv))"
proof -
  obtain s where s: "sdsempty = Some s" "sds_wf s []" using sdsempty_ok .
  from join_loop_ok [OF s(2), of sep argv] assms show ?thesis unfolding sdsjoin_def s(1) by simp
qed

subsection \<open>Splitting\<close>

definition occ :: "char list \<Rightarrow> char list \<Rightarrow> nat \<Rightarrow> bool" where
  "occ s sep i \<longleftrightarrow> take (length sep) (drop i s) = sep"

lemma occ_length: "occ s sep i \<Longrightarrow> sep \<noteq> [] \<Longrightarrow> i + length sep \<le> length s"
proof -
  assume "occ s sep i" and ne: "sep \<noteq> []"
  then have "min (length s - i) (length sep) = length sep" by (metis occ_def length_drop length_take)
  moreover have "0 < length sep" using ne by simp
  ultimately show ?thesis by linarith
qed

lemma occ_sublist:
  assumes "sublist sep (take n (drop i s))" "sep \<noteq> []"
  shows "\<exists>k. i \<le> k \<and> k + length sep \<le> i + n \<and> occ s sep k"
proof -
  from assms(1) obtain a b where ab: "take n (drop i s) = a @ sep @ b" by (auto simp: sublist_def)
  then have "length (take n (drop i s)) = length a + length sep + length b" by simp
  then have l: "length a + length sep \<le> n" by simp
  have "drop i s = a @ sep @ b @ drop n (drop i s)"
    by (metis ab append_assoc append_take_drop_id)
  then have "drop (i + length a) s = sep @ b @ drop n (drop i s)"
    by (metis add.commute append_eq_conv_conj drop_drop)
  then have "occ s sep (i + length a)" by (simp add: occ_def)
  with l show ?thesis by (intro exI [of _ "i + length a"]) simp
qed

lemma split_test_occ:
  "j < length s \<Longrightarrow> sep \<noteq> [] \<Longrightarrow>
   (length sep = 1 \<and> s ! j = sep ! 0) \<or> take (length sep) (drop j s) = sep \<longleftrightarrow> occ s sep j"
  by (auto simp: occ_def take_Suc_conv_app_nth length_Suc_conv)

lemma split_loop_step:
  assumes "sep \<noteq> []" "j + length sep \<le> length s"
  defines "slots1 \<equiv> \<lambda>slots tokens. if slots < length tokens + 2 then slots * 2 else slots"
  shows "split_loop s sep slots tokens start j =
    (if occ s sep j then
       (if length tokens < slots1 slots tokens then
          (case sdsnewlen (Some (drop start s)) (j - start) of
             None \<Rightarrow> None
           | Some tok \<Rightarrow>
               split_loop s sep (slots1 slots tokens) (tokens @ [tok]) (j + length sep) (j + length sep))
        else None)
     else split_loop s sep (slots1 slots tokens) tokens start (Suc j))"
proof -
  have "0 < length sep" using assms(1) by simp
  then have j: "j < length s" "int j < int (length s) - (int (length sep) - 1)"
      "Suc (j + length sep - 1) = j + length sep"
    using assms(2) by linarith+
  show ?thesis
    by (subst split_loop.simps)
      (simp only: split_test_occ [OF j(1) assms(1)] j(2,3) assms(1) slots1_def Let_def simp_thms if_True)
qed

lemma split_loop_ok:
  assumes "sep \<noteq> []" "length s \<le> INT_MAX" "start \<le> j" "j \<le> length s"
    "\<forall>k. start \<le> k \<and> k < j \<longrightarrow> \<not> occ s sep k" "list_all2 sds_wf tokens ts" "length tokens < slots"
  shows "\<exists>slots' tokens' start' us. split_loop s sep slots tokens start j = Some (slots', tokens', start') \<and>
    list_all2 sds_wf tokens' (ts @ us) \<and> length tokens' < slots' \<and> start' \<le> length s \<and>
    drop start s = concat (map (\<lambda>x. x @ sep) us) @ drop start' s \<and>
    (\<forall>u \<in> set us. \<not> sublist sep u) \<and> (\<forall>k \<ge> start'. \<not> occ s sep k)"
  using assms(3-7)
proof (induction "length s - j" arbitrary: j start tokens ts slots rule: less_induct)
  case less
  define slots1 where "slots1 = (if slots < length tokens + 2 then slots * 2 else slots)"
  have sl: "length tokens + 2 \<le> slots1" using less.prems(5) by (auto simp: slots1_def)
  show ?case
  proof (cases "int j < int (length s) - (int (length sep) - 1)")
    case False
    then have "\<not> occ s sep k" if "start \<le> k" for k
      using less.prems(3) that occ_length [of s sep k] assms(1) by (cases "k < j") auto
    moreover have "split_loop s sep slots tokens start j = Some (slots, tokens, start)"
      using False by (subst split_loop.simps) simp
    ultimately show ?thesis using less.prems by (intro exI [of _ slots] exI [of _ tokens] exI [of _ start] exI [of _ "[]"]) auto
  next
    case True
    then have jl: "j + length sep \<le> length s" by linarith
    then have js: "j < length s" using assms(1) by (cases sep) auto
    show ?thesis
    proof (cases "occ s sep j")
      case False
      have e: "split_loop s sep slots tokens start j = split_loop s sep slots1 tokens start (Suc j)"
        using False by (simp only: split_loop_step [OF assms(1) jl] slots1_def simp_thms if_False)
      have "\<forall>k. start \<le> k \<and> k < Suc j \<longrightarrow> \<not> occ s sep k"
        using less.prems(3) False less_Suc_eq by auto
      then show ?thesis unfolding e using less.prems js sl by (intro less.hyps) auto
    next
      case occ: True
      let ?u = "take (j - start) (drop start s)"
      have "j - start \<le> length (drop start s)" "j - start \<le> INT_MAX"
        using js assms(2) less.prems(1) by auto
      then obtain tok where tok: "sdsnewlen (Some (drop start s)) (j - start) = Some tok" "sds_wf tok ?u"
        by (rule sdsnewlen_ok)
      have e: "split_loop s sep slots tokens start j =
          split_loop s sep slots1 (tokens @ [tok]) (j + length sep) (j + length sep)"
        unfolding split_loop_step [OF assms(1) jl] slots1_def [symmetric] using occ tok(1) sl by simp
      have la: "list_all2 sds_wf (tokens @ [tok]) (ts @ [?u])"
        using less.prems(4) tok(2) by (simp add: list_all2_appendI)
      have lt: "length s - (j + length sep) < length s - j"
        using assms(1) js by (intro diff_less_mono2) auto
      have vac: "\<forall>k. j + length sep \<le> k \<and> k < j + length sep \<longrightarrow> \<not> occ s sep k" by auto
      have "length (tokens @ [tok]) < slots1" using sl by simp
      from less.hyps [OF lt order_refl jl vac la this] obtain slots' tokens' start' us where r:
        "split_loop s sep slots1 (tokens @ [tok]) (j + length sep) (j + length sep) = Some (slots', tokens', start')"
        "list_all2 sds_wf tokens' ((ts @ [?u]) @ us)" "length tokens' < slots'" "start' \<le> length s"
        "drop (j + length sep) s = concat (map (\<lambda>x. x @ sep) us) @ drop start' s"
        "\<forall>u \<in> set us. \<not> sublist sep u" "\<forall>k \<ge> start'. \<not> occ s sep k"
        by blast
      have "\<not> sublist sep ?u"
      proof
        assume "sublist sep ?u"
        from occ_sublist [OF this assms(1)] obtain k where
          k: "start \<le> k" "k + length sep \<le> start + (j - start)" "occ s sep k" by blast
        have "0 < length sep" using assms(1) by simp
        with k less.prems(1) have "k < j" by linarith
        with k less.prems(3) show False by blast
      qed
      moreover have "drop j s = sep @ drop (j + length sep) s"
        using occ unfolding occ_def by (metis add.commute append_take_drop_id drop_drop)
      then have "drop start s = ?u @ sep @ drop (j + length sep) s"
        by (metis append_take_drop_id drop_drop le_add_diff_inverse2 less.prems(1))
      ultimately show ?thesis unfolding e using r by (intro exI [of _ slots'] exI [of _ tokens'] exI [of _ start'] exI [of _ "?u # us"]) auto
    qed
  qed
qed

lemma sdssplitlen_ok:
  assumes "sep \<noteq> []" "s \<noteq> []" "length s \<le> INT_MAX"
  obtains tokens ts where "sdssplitlen s sep = Some (Some tokens)" "list_all2 sds_wf tokens ts"
    "join_text sep ts = s" "\<forall>t \<in> set ts. \<not> sublist sep t"
proof -
  obtain slots tokens start us where r:
      "split_loop s sep 5 [] 0 0 = Some (slots, tokens, start)" "list_all2 sds_wf tokens us"
      "length tokens < slots" "start \<le> length s" "s = concat (map (\<lambda>x. x @ sep) us) @ drop start s"
      "\<forall>u \<in> set us. \<not> sublist sep u" "\<forall>k \<ge> start. \<not> occ s sep k"
    using split_loop_ok [OF assms(1,3), of 0 0 "[]" "[]" 5] by auto
  have "length s - start \<le> length (drop start s)" "length s - start \<le> INT_MAX" using assms(3) by auto
  then obtain tok where tok: "sdsnewlen (Some (drop start s)) (length s - start) = Some tok"
      "sds_wf tok (take (length s - start) (drop start s))"
    by (rule sdsnewlen_ok)
  have "sdssplitlen s sep = Some (Some (tokens @ [tok]))"
    using assms r(1,3) tok(1) by (cases sep) (simp_all add: sdssplitlen_def)
  moreover have "list_all2 sds_wf (tokens @ [tok]) (us @ [drop start s])"
    using r(2) tok(2) by (simp add: list_all2_appendI)
  moreover have "join_text sep (us @ [drop start s]) = s" using r(5) by (simp add: join_text_snoc)
  moreover have "\<not> sublist sep (drop start s)"
    using occ_sublist [of sep "length s - start" start s] assms(1) r(7) by auto
  then have "\<forall>t \<in> set (us @ [drop start s]). \<not> sublist sep t" using r(6) by auto
  ultimately show thesis using that by blast
qed





subsection \<open>Quoting\<close>

text \<open>The bytes that quote one character.\<close>

definition repr_text :: "char \<Rightarrow> char list" where
  "repr_text c =
     (let n = of_char c :: nat
      in if c = BACKSLASH \<or> c = DQUOTE then [BACKSLASH, c]
         else if n = 10 then [BACKSLASH, CHR ''n'']
         else if n = 13 then [BACKSLASH, CHR ''r'']
         else if n = 9 then [BACKSLASH, CHR ''t'']
         else if n = 7 then [BACKSLASH, CHR ''a'']
         else if n = 8 then [BACKSLASH, CHR ''b'']
         else if isprint c then [c]
         else [BACKSLASH, CHR ''x'', hex_digit (n div 16), hex_digit (n mod 16)])"

lemma of_char_hex_digit: "n < 16 \<Longrightarrow> of_char (hex_digit n) = (if n < 10 then 48 + n else 87 + n)"
  by (simp add: hex_digit_def)

lemma NUL_notin_repr: "NUL \<notin> set (repr_text c)"
proof -
  have "(of_char c :: nat) div 16 < 16" using of_char_less [of c] by (simp add: div_less_iff_less_mult)
  then show ?thesis
    by (auto simp: repr_text_def Let_def NUL_iff eq_commute [of NUL] of_char_hex_digit isprint_def split: if_splits)
qed

lemma repr_char_eq: "repr_char s c = sdscatlen s (repr_text c)"
proof -
  have p: "sdscatprintf s n out = sdscatlen s out" if "NUL \<notin> set out" for n out
    using that unfolding sdscatprintf_def sdscatvprintf_eq sdscat_def by (simp add: cstr_id)
  show ?thesis
    using NUL_notin_repr [of c]
    by (auto simp: repr_char_def repr_text_def Let_def p split: if_splits)
qed

lemma repr_loop_cat: "repr_loop s (c # p) = Option.bind (sdscatlen s (repr_text c)) (\<lambda>s. repr_loop s p)"
  by (simp add: repr_char_eq)

lemma sdscatrepr_ok:
  assumes "sds_wf s t" "length t + length (concat (map repr_text p)) + 2 \<le> SDS_LIMIT"
  shows "\<exists>s'. sdscatrepr s p = Some s' \<and> sds_wf s' (t @ DQUOTE # concat (map repr_text p) @ [DQUOTE])"
proof -
  have "length t + length [DQUOTE] \<le> SDS_LIMIT" using assms(2) by simp
  then obtain s1 where s1: "sdscatlen s [DQUOTE] = Some s1" "sds_wf s1 (t @ [DQUOTE])"
    using sdscatlen_ok [OF assms(1)] by blast
  obtain s2 where s2: "repr_loop s1 p = Some s2" "sds_wf s2 ((t @ [DQUOTE]) @ concat (map repr_text p))"
    using sdsbuf.loop_ok [where loop = repr_loop and piece = repr_text, OF repr_loop_cat _ s1(2), of p] assms(2)
    by auto
  have "length ((t @ [DQUOTE]) @ concat (map repr_text p)) + length [DQUOTE] \<le> SDS_LIMIT"
    using assms(2) by simp
  from sdscatlen_ok [OF s2(2) this] obtain s3 where "sdscatlen s2 [DQUOTE] = Some s3"
      "sds_wf s3 (((t @ [DQUOTE]) @ concat (map repr_text p)) @ [DQUOTE])" .
  with s1 s2 show ?thesis by (simp add: sdscatrepr_def)
qed

lemma hex_digit_back:
  "n < 16 \<Longrightarrow> is_hex_digit (hex_digit n) \<and> hex_digit_to_int (hex_digit n) = n"
  by (auto simp: is_hex_digit_def hex_digit_to_int_def of_char_hex_digit Let_def)

text \<open>The parser reads back one quoted character.\<close>

lemma peek_simps: "peek (c # p) 0 = c" "0 < n \<Longrightarrow> peek (c # p) n = peek p (n - 1)" "peek [] n = NUL"
  by (auto simp: peek_def)

lemma char_of_nat_eq: "(of_char c :: nat) = n \<Longrightarrow> char_of n = c"
  by auto

lemma arg_loop_repr:
  "arg_loop InQuotes (repr_text c @ p) current =
     (case sdscatlen current [c] of None \<Rightarrow> None | Some current \<Rightarrow> arg_loop InQuotes p current)"
proof -
  let ?n = "of_char c :: nat"
  have esc: ?thesis if "repr_text c = [BACKSLASH, d]" "d \<noteq> CHR ''x''" "d \<noteq> NUL" "unescape d = c" for d
    unfolding that(1) using that(2-4)
    by (simp add: arg_loop.simps(1) [of "BACKSLASH # d # p"] peek_simps drop_Cons' cong: option.case_cong)
  consider "c = BACKSLASH \<or> c = DQUOTE" | "?n \<in> {10, 13, 9, 7, 8}"
    | "c \<noteq> BACKSLASH" "c \<noteq> DQUOTE" "?n \<notin> {10, 13, 9, 7, 8}" "isprint c"
    | "c \<noteq> BACKSLASH" "c \<noteq> DQUOTE" "?n \<notin> {10, 13, 9, 7, 8}" "\<not> isprint c"
    by blast
  then show ?thesis
  proof cases
    case 1
    then have "?n = 92 \<or> ?n = 34" by auto
    then have "c \<notin> {CHR ''x'', CHR ''n'', CHR ''r'', CHR ''t'', CHR ''b'', CHR ''a''}" "c \<noteq> NUL"
      by (auto simp: NUL_iff)
    with 1 show ?thesis
      by (intro esc [of c]) (simp_all add: repr_text_def unescape_def)
  next
    case 2
    then have "c \<noteq> BACKSLASH" "c \<noteq> DQUOTE" by auto
    with 2 show ?thesis
      using esc [of "CHR ''n''"] esc [of "CHR ''r''"] esc [of "CHR ''t''"] esc [of "CHR ''a''"] esc [of "CHR ''b''"]
      by (auto simp: repr_text_def Let_def NUL_iff unescape_def char_of_nat_eq)
  next
    case 3
    then have "repr_text c = [c]" by (auto simp: repr_text_def Let_def)
    moreover have "c \<noteq> NUL" using 3(4) by (auto simp: NUL_iff isprint_def)
    ultimately show ?thesis
      using 3 by (simp add: arg_loop.simps(1) [of "c # p"] peek_simps cong: option.case_cong)
  next
    case 4
    have h: "?n div 16 < 16" "?n mod 16 < 16" using of_char_less [of c] by (auto simp: div_less_iff_less_mult)
    have "repr_text c = [BACKSLASH, CHR ''x'', hex_digit (?n div 16), hex_digit (?n mod 16)]"
      using 4 by (auto simp: repr_text_def Let_def)
    moreover have "char_of (hex_digit_to_int (hex_digit (?n div 16)) * 16 + hex_digit_to_int (hex_digit (?n mod 16))) = c"
      using hex_digit_back [OF h(1)] hex_digit_back [OF h(2)] by simp
    ultimately show ?thesis
      using hex_digit_back [OF h(1)] hex_digit_back [OF h(2)]
      by (simp add: arg_loop.simps(1) [of "BACKSLASH # _ # _ # _ # p"] peek_simps drop_Cons' cong: option.case_cong)
  qed
qed

lemma arg_loop_repr_all:
  assumes "sds_wf current t" "length t + length q \<le> SDS_LIMIT"
  shows "\<exists>s. arg_loop InQuotes (concat (map repr_text q) @ [DQUOTE]) current = Some (Some (s, [])) \<and>
    sds_wf s (t @ q)"
  using assms
proof (induction q arbitrary: current t)
  case Nil
  have "arg_loop InQuotes [DQUOTE] current = Some (Some (current, []))"
    by (simp add: arg_loop.simps(1) [of "[DQUOTE]"] peek_simps NUL_iff)
  with Nil show ?case by simp
next
  case (Cons c q)
  have "length t + length [c] \<le> SDS_LIMIT" using Cons.prems(2) by simp
  from sdscatlen_ok [OF Cons.prems(1) this] obtain s1 where
    "sdscatlen current [c] = Some s1" "sds_wf s1 (t @ [c])" .
  with Cons.IH [of s1 "t @ [c]"] Cons.prems(2) show ?case by (simp add: arg_loop_repr)
qed

text \<open>
  C5: Quoting and parsing are inverse: for every byte string, with nul, control and non-ASCII
  bytes, quotes and backslashes, \<^verbatim>\<open>sdssplitargs\<close> applied to what \<^verbatim>\<open>sdscatrepr\<close> appends to an empty
  string returns exactly one argument, which holds that byte string.
\<close>

theorem sdssplitargs_sdscatrepr:
  assumes "sds_wf e []" "4 * length p + 2 \<le> SDS_LIMIT"
  shows "\<exists>s line v. sdscatrepr e p = Some s \<and> sds_wf s line \<and>
    sdssplitargs line = Some (Some [v]) \<and> sds_wf v p"
proof -
  have "length (repr_text c) \<le> 4" for c by (simp add: repr_text_def Let_def)
  then have "length (concat (map repr_text p)) \<le> 4 * length p"
    by (induction p) (simp_all add: add_mono)
  then have "length ([] :: char list) + length (concat (map repr_text p)) + 2 \<le> SDS_LIMIT"
    using assms(2) by simp
  from sdscatrepr_ok [OF assms(1) this] obtain s where s: "sdscatrepr e p = Some s"
    "sds_wf s (DQUOTE # concat (map repr_text p) @ [DQUOTE])" (is "sds_wf s ?line") by auto
  obtain e0 where e0: "sdsempty = Some e0" "sds_wf e0 []" using sdsempty_ok .
  from arg_loop_repr_all [OF e0(2), of p] assms(2) obtain v where
    v: "arg_loop InQuotes (concat (map repr_text p) @ [DQUOTE]) e0 = Some (Some (v, []))" "sds_wf v p"
    by auto
  have "NUL \<notin> set ?line" using NUL_notin_repr by (auto simp: NUL_iff eq_commute [of NUL])
  then have c: "cstr ?line = ?line" by (rule cstr_id)
  have "DQUOTE \<noteq> CHR '' ''" by (auto dest: arg_cong [of _ _ "of_char :: char \<Rightarrow> nat"])
  then have "arg_loop NoQuotes ?line e0 = arg_loop InQuotes (concat (map repr_text p) @ [DQUOTE]) e0"
    by (simp add: arg_loop.simps(3) [of ?line] peek_simps NUL_iff)
  moreover have "dropWhile isspace ?line = ?line" by (simp add: isspace_def)
  moreover have "args_loop [] [v] = Some (Some [v])" by (simp add: args_loop.simps)
  ultimately have "args_loop ?line [] = Some (Some [v])"
    using v(1) unfolding args_loop.simps [of ?line] e0(1) by simp
  then have "sdssplitargs ?line = Some (Some [v])" by (simp add: sdssplitargs_def c)
  with s v show ?thesis by blast
qed

theorem sdssplitargs_sdscatrepr_witness:
  "\<exists>s line v. sdscatrepr \<lparr>sds_len = 0, sds_free = 0, sds_buf = [Some NUL]\<rparr> [CHR ''a'', NUL, DQUOTE] = Some s \<and>
    sds_wf s line \<and> sdssplitargs line = Some (Some [v]) \<and> sds_wf v [CHR ''a'', NUL, DQUOTE]"
  by (rule sdssplitargs_sdscatrepr)
    (simp_all add: sds_wf_def sds_holds_def SDS_LIMIT_def INT_MAX_def SDS_MAX_PREALLOC_def)

end
