(* ===== verification/Object.thy ===== *)
theory Object
  imports SdsSplit
begin

text \<open>
  The reference-counted objects of \<^verbatim>\<open>redis-3.0/src/object.c\<close>, as far as strings are concerned:
  a store maps addresses to objects, creation hands out increasing addresses, and an address
  without an object is dangling. A string object holds an SDS string (encodings RAW and EMBSTR)
  or a long in the pointer itself (encoding INT); the payload of the other types is opaque here.
  Every access is checked, so \<^term>\<open>None\<close> stands for a dangling pointer, a failed assertion
  or a call of \<^verbatim>\<open>redisPanic\<close>.
\<close>

subsection \<open>Objects and the store\<close>

datatype obj_type = REDIS_STRING | REDIS_LIST | REDIS_SET | REDIS_ZSET | REDIS_HASH

datatype obj_encoding =
  REDIS_ENCODING_RAW | REDIS_ENCODING_INT | REDIS_ENCODING_HT | REDIS_ENCODING_ZIPMAP
| REDIS_ENCODING_LINKEDLIST | REDIS_ENCODING_ZIPLIST | REDIS_ENCODING_INTSET
| REDIS_ENCODING_SKIPLIST | REDIS_ENCODING_EMBSTR

datatype obj_ptr = PtrNull | PtrSds sds | PtrLong uint64 | PtrData nat

record robj =
  rtype :: obj_type
  encoding :: obj_encoding
  lru :: nat
  refcount :: int
  ptr :: obj_ptr

record obj_state =
  objs :: "nat \<Rightarrow> robj option"
  next_obj :: nat
  shared_integers :: "nat list"
  maxmemory :: nat
  lruclock :: nat

definition REDIS_SHARED_INTEGERS :: int where
  "REDIS_SHARED_INTEGERS = 10000"

definition REDIS_ENCODING_EMBSTR_SIZE_LIMIT :: nat where
  "REDIS_ENCODING_EMBSTR_SIZE_LIMIT = 39"

definition sdsEncodedObject :: "robj \<Rightarrow> bool" where
  "sdsEncodedObject o1 \<longleftrightarrow> encoding o1 = REDIS_ENCODING_RAW \<or> encoding o1 = REDIS_ENCODING_EMBSTR"

text \<open>A new object at a fresh address.\<close>

definition alloc_obj :: "obj_state \<Rightarrow> robj \<Rightarrow> obj_state \<times> nat" where
  "alloc_obj st o1 =
     (st\<lparr>objs := (objs st)(next_obj st \<mapsto> o1), next_obj := Suc (next_obj st)\<rparr>, next_obj st)"

definition createObject :: "obj_state \<Rightarrow> obj_type \<Rightarrow> obj_ptr \<Rightarrow> obj_state \<times> nat" where
  "createObject st type1 p =
     alloc_obj st \<lparr>rtype = type1, encoding = REDIS_ENCODING_RAW, lru = lruclock st, refcount = 1, ptr = p\<rparr>"

definition createRawStringObject :: "obj_state \<Rightarrow> char list option \<Rightarrow> nat \<Rightarrow> (obj_state \<times> nat) option" where
  "createRawStringObject st p len =
     do { s \<leftarrow> sdsnewlen p len; Some (createObject st REDIS_STRING (PtrSds s)) }"

text \<open>The header and buffer that lie behind the object in the same block.\<close>

definition createEmbeddedStringObject :: "obj_state \<Rightarrow> char list option \<Rightarrow> nat \<Rightarrow> (obj_state \<times> nat) option" where
  "createEmbeddedStringObject st p len =
     do {
       l \<leftarrow> int_field len;
       buf \<leftarrow> (case p of
                 Some bytes \<Rightarrow>
                   (if len \<le> length bytes
                    then do {
                      buf \<leftarrow> mem_write (replicate (len + 1) None) 0 (take len bytes);
                      mem_write buf len [NUL]
                    }
                    else None)
               | None \<Rightarrow> mem_write (replicate (len + 1) None) 0 (replicate (len + 1) NUL));
       Some (alloc_obj st \<lparr>rtype = REDIS_STRING, encoding = REDIS_ENCODING_EMBSTR, lru = lruclock st,
         refcount = 1, ptr = PtrSds \<lparr>sds_len = l, sds_free = 0, sds_buf = buf\<rparr>\<rparr>)
     }"

definition createStringObject :: "obj_state \<Rightarrow> char list option \<Rightarrow> nat \<Rightarrow> (obj_state \<times> nat) option" where
  "createStringObject st p len =
     (if len \<le> REDIS_ENCODING_EMBSTR_SIZE_LIMIT then createEmbeddedStringObject st p len
      else createRawStringObject st p len)"

subsection \<open>Reference counts\<close>

definition incrRefCount :: "obj_state \<Rightarrow> nat \<Rightarrow> obj_state option" where
  "incrRefCount st a =
     do { o1 \<leftarrow> objs st a; Some (st\<lparr>objs := (objs st)(a \<mapsto> o1\<lparr>refcount := refcount o1 + 1\<rparr>)\<rparr>) }"

text \<open>
  The functions that free an object's payload by type: which encodings they accept. The payload
  itself goes with the object.
\<close>

definition freeable :: "robj \<Rightarrow> bool" where
  "freeable o1 \<longleftrightarrow>
     (case rtype o1 of
        REDIS_STRING \<Rightarrow> True
      | REDIS_LIST \<Rightarrow> encoding o1 \<in> {REDIS_ENCODING_LINKEDLIST, REDIS_ENCODING_ZIPLIST}
      | REDIS_SET \<Rightarrow> encoding o1 \<in> {REDIS_ENCODING_HT, REDIS_ENCODING_INTSET}
      | REDIS_ZSET \<Rightarrow> encoding o1 \<in> {REDIS_ENCODING_SKIPLIST, REDIS_ENCODING_ZIPLIST}
      | REDIS_HASH \<Rightarrow> encoding o1 \<in> {REDIS_ENCODING_HT, REDIS_ENCODING_ZIPLIST})"

definition decrRefCount :: "obj_state \<Rightarrow> nat \<Rightarrow> obj_state option" where
  "decrRefCount st a =
     do {
       o1 \<leftarrow> objs st a;
       if refcount o1 \<le> 0 then None
       else if refcount o1 = 1 then
         (if freeable o1 then Some (st\<lparr>objs := (objs st)(a := None)\<rparr>) else None)
       else Some (st\<lparr>objs := (objs st)(a \<mapsto> o1\<lparr>refcount := refcount o1 - 1\<rparr>)\<rparr>)
     }"

definition resetRefCount :: "obj_state \<Rightarrow> nat \<Rightarrow> (obj_state \<times> nat) option" where
  "resetRefCount st a =
     do { o1 \<leftarrow> objs st a; Some (st\<lparr>objs := (objs st)(a \<mapsto> o1\<lparr>refcount := 0\<rparr>)\<rparr>, a) }"

text \<open>\<^verbatim>\<open>shared.integers[value]\<close> with one more reference.\<close>

definition share_integer :: "obj_state \<Rightarrow> int \<Rightarrow> (obj_state \<times> nat) option" where
  "share_integer st value =
     do {
       a \<leftarrow> arr_get (shared_integers st) (nat value);
       st' \<leftarrow> incrRefCount st a;
       Some (st', a)
     }"

definition createStringObjectFromLongLong :: "obj_state \<Rightarrow> int \<Rightarrow> (obj_state \<times> nat) option" where
  "createStringObjectFromLongLong st value =
     (if value \<ge> 0 \<and> value < REDIS_SHARED_INTEGERS then share_integer st value
      else if value \<ge> LLONG_MIN \<and> value \<le> LLONG_MAX then
        Some (alloc_obj st \<lparr>rtype = REDIS_STRING, encoding = REDIS_ENCODING_INT, lru = lruclock st,
          refcount = 1, ptr = PtrLong (word_of_int value)\<rparr>)
      else do {
        s \<leftarrow> sdsfromlonglong value;
        Some (createObject st REDIS_STRING (PtrSds s))
      })"

definition dupStringObject :: "obj_state \<Rightarrow> nat \<Rightarrow> (obj_state \<times> nat) option" where
  "dupStringObject st a =
     do {
       o1 \<leftarrow> objs st a;
       if rtype o1 \<noteq> REDIS_STRING then None
       else
         (case (encoding o1, ptr o1) of
            (REDIS_ENCODING_RAW, PtrSds s) \<Rightarrow>
              do { bytes \<leftarrow> mem_read (sds_buf s) 0 (sdslen s); createRawStringObject st (Some bytes) (sdslen s) }
          | (REDIS_ENCODING_EMBSTR, PtrSds s) \<Rightarrow>
              do { bytes \<leftarrow> mem_read (sds_buf s) 0 (sdslen s); createEmbeddedStringObject st (Some bytes) (sdslen s) }
          | (REDIS_ENCODING_INT, p) \<Rightarrow>
              Some (alloc_obj st \<lparr>rtype = REDIS_STRING, encoding = REDIS_ENCODING_INT, lru = lruclock st,
                refcount = 1, ptr = p\<rparr>)
          | _ \<Rightarrow> None)
     }"

subsection \<open>Encoding and decoding\<close>

text \<open>The inner \<^term>\<open>None\<close> is \<^verbatim>\<open>REDIS_ERR\<close>, otherwise the value stored.\<close>

definition isObjectRepresentableAsLongLong :: "robj \<Rightarrow> int option option" where
  "isObjectRepresentableAsLongLong o1 =
     (if rtype o1 \<noteq> REDIS_STRING then None
      else
        case ptr o1 of
          PtrLong n \<Rightarrow> if encoding o1 = REDIS_ENCODING_INT then Some (Some (sint n)) else None
        | PtrSds s \<Rightarrow>
            if encoding o1 = REDIS_ENCODING_INT then None
            else do { t \<leftarrow> mem_read (sds_buf s) 0 (sdslen s); Some (string2ll t) }
        | _ \<Rightarrow> None)"

definition tryObjectEncoding :: "obj_state \<Rightarrow> nat \<Rightarrow> (obj_state \<times> nat) option" where
  "tryObjectEncoding st a =
     do {
       o1 \<leftarrow> objs st a;
       if rtype o1 \<noteq> REDIS_STRING then None
       else if \<not> sdsEncodedObject o1 then Some (st, a)
       else if refcount o1 > 1 then Some (st, a)
       else
         case ptr o1 of
           PtrSds s \<Rightarrow>
             do {
               t \<leftarrow> mem_read (sds_buf s) 0 (sdslen s);
               (let len = sdslen s; value = (if len \<le> 21 then string2l t else None)
                in case value of
                     Some v \<Rightarrow>
                       if maxmemory st = 0 \<and> v \<ge> 0 \<and> v < REDIS_SHARED_INTEGERS then
                         do { st \<leftarrow> decrRefCount st a; share_integer st v }
                       else
                         Some (st\<lparr>objs := (objs st)(a \<mapsto>
                           o1\<lparr>encoding := REDIS_ENCODING_INT, ptr := PtrLong (word_of_int v)\<rparr>)\<rparr>, a)
                   | None \<Rightarrow>
                       if len \<le> REDIS_ENCODING_EMBSTR_SIZE_LIMIT then
                         (if encoding o1 = REDIS_ENCODING_EMBSTR then Some (st, a)
                          else do {
                            (st, emb) \<leftarrow> createEmbeddedStringObject st (Some t) len;
                            st \<leftarrow> decrRefCount st a;
                            Some (st, emb)
                          })
                       else if encoding o1 = REDIS_ENCODING_RAW \<and> sdsavail s > len div 10 then
                         Some (st\<lparr>objs := (objs st)(a \<mapsto> o1\<lparr>ptr := PtrSds (sdsRemoveFreeSpace s)\<rparr>)\<rparr>, a)
                       else Some (st, a))
             }
         | _ \<Rightarrow> None
     }"

definition getDecodedObject :: "obj_state \<Rightarrow> nat \<Rightarrow> (obj_state \<times> nat) option" where
  "getDecodedObject st a =
     do {
       o1 \<leftarrow> objs st a;
       if sdsEncodedObject o1 then do { st \<leftarrow> incrRefCount st a; Some (st, a) }
       else if rtype o1 = REDIS_STRING \<and> encoding o1 = REDIS_ENCODING_INT then
         (case ptr o1 of
            PtrLong n \<Rightarrow>
              (let buf = ll2string 32 (sint n) in createStringObject st (Some buf) (length (cstr buf)))
          | _ \<Rightarrow> None)
       else None
     }"

subsection \<open>Comparison and conversion\<close>

text \<open>The text that the comparison sees: the string itself or the printed number.\<close>

definition cmp_text :: "robj \<Rightarrow> char list option" where
  "cmp_text o1 =
     (case ptr o1 of
        PtrSds s \<Rightarrow> if sdsEncodedObject o1 then mem_read (sds_buf s) 0 (sdslen s) else None
      | PtrLong n \<Rightarrow> if sdsEncodedObject o1 then None else Some (ll2string 128 (sint n))
      | _ \<Rightarrow> None)"

text \<open>The flag for the collation order of the locale is not set; the C library provides that order.\<close>

definition compareStringObjects :: "obj_state \<Rightarrow> nat \<Rightarrow> nat \<Rightarrow> int option" where
  "compareStringObjects st a b =
     do {
       oa \<leftarrow> objs st a;
       ob \<leftarrow> objs st b;
       if \<not> (rtype oa = REDIS_STRING \<and> rtype ob = REDIS_STRING) then None
       else if a = b then Some 0
       else do {
         astr \<leftarrow> cmp_text oa;
         bstr \<leftarrow> cmp_text ob;
         (let alen = length astr; blen = length bstr;
              minlen = (if alen < blen then alen else blen);
              cmp = memcmp (take minlen astr) (take minlen bstr)
          in if cmp = 0 then Some (int alen - int blen) else Some cmp)
       }
     }"

definition equalStringObjects :: "obj_state \<Rightarrow> nat \<Rightarrow> nat \<Rightarrow> bool option" where
  "equalStringObjects st a b =
     do {
       oa \<leftarrow> objs st a;
       ob \<leftarrow> objs st b;
       if encoding oa = REDIS_ENCODING_INT \<and> encoding ob = REDIS_ENCODING_INT then Some (ptr oa = ptr ob)
       else map_option (\<lambda>c. c = 0) (compareStringObjects st a b)
     }"

definition stringObjectLen :: "robj \<Rightarrow> nat option" where
  "stringObjectLen o1 =
     (if rtype o1 \<noteq> REDIS_STRING then None
      else if sdsEncodedObject o1 then (case ptr o1 of PtrSds s \<Rightarrow> Some (sdslen s) | _ \<Rightarrow> None)
      else (case ptr o1 of PtrLong n \<Rightarrow> Some (length (ll2string 32 (sint n))) | _ \<Rightarrow> None))"

text \<open>
  \<^verbatim>\<open>strtoll(s, &eptr, 10)\<close> of the C library on the bytes of a C string: the value, the rest from
  \<^verbatim>\<open>eptr\<close> on, and whether \<^verbatim>\<open>errno\<close> is \<^verbatim>\<open>ERANGE\<close>.
\<close>

definition strtoll :: "char list \<Rightarrow> int \<times> char list \<times> bool" where
  "strtoll s =
     (let p = dropWhile isspace s;
          neg = (p \<noteq> [] \<and> hd p = CHR ''-'');
          p = (if p \<noteq> [] \<and> hd p \<in> {CHR ''-'', CHR ''+''} then tl p else p);
          digits = takeWhile is_digit p;
          v = (if neg then - int (dec_value digits) else int (dec_value digits))
      in if digits = [] then (0, s, False)
         else if v < LLONG_MIN then (LLONG_MIN, dropWhile is_digit p, True)
         else if v > LLONG_MAX then (LLONG_MAX, dropWhile is_digit p, True)
         else (v, dropWhile is_digit p, False))"

text \<open>The argument \<^term>\<open>None\<close> is the null pointer, the inner result \<^term>\<open>None\<close> is \<^verbatim>\<open>REDIS_ERR\<close>.\<close>

definition getLongLongFromObject :: "robj option \<Rightarrow> int option option" where
  "getLongLongFromObject o1 =
     (case o1 of
        None \<Rightarrow> Some (Some 0)
      | Some o1 \<Rightarrow>
          if rtype o1 \<noteq> REDIS_STRING then None
          else if sdsEncodedObject o1 then
            (case ptr o1 of
               PtrSds s \<Rightarrow>
                 do {
                   t \<leftarrow> mem_read (sds_buf s) 0 (sdslen s);
                   (let (value, eptr, erange) = strtoll (cstr t)
                    in if isspace (peek (cstr t) 0) \<or> eptr \<noteq> [] \<or> erange then Some None
                       else Some (Some value))
                 }
             | _ \<Rightarrow> None)
          else if encoding o1 = REDIS_ENCODING_INT then
            (case ptr o1 of PtrLong n \<Rightarrow> Some (Some (sint n)) | _ \<Rightarrow> None)
          else None)"

text \<open>
  \<^verbatim>\<open>getLongFromObjectOrReply\<close> on a platform whose long has 64 bits; the reply on an error is the
  given message or the default one.
\<close>

definition getLongLongFromObjectOrReply ::
  "robj option \<Rightarrow> char list option \<Rightarrow> (char list + int) option" where
  "getLongLongFromObjectOrReply o1 msg =
     do {
       r \<leftarrow> getLongLongFromObject o1;
       case r of
         None \<Rightarrow> Some (Inl (case msg of Some m \<Rightarrow> m | None \<Rightarrow> ''value is not an integer or out of range''))
       | Some value \<Rightarrow> Some (Inr value)
     }"

definition getLongFromObjectOrReply ::
  "robj option \<Rightarrow> char list option \<Rightarrow> (char list + int) option" where
  "getLongFromObjectOrReply o1 msg =
     do {
       r \<leftarrow> getLongLongFromObjectOrReply o1 msg;
       case r of
         Inl e \<Rightarrow> Some (Inl e)
       | Inr value \<Rightarrow>
           if value < LLONG_MIN \<or> value > LLONG_MAX
           then Some (Inl (case msg of Some m \<Rightarrow> m | None \<Rightarrow> ''value is out of range''))
           else Some (Inr value)
     }"

definition strEncoding :: "obj_encoding \<Rightarrow> char list" where
  "strEncoding e =
     (case e of
        REDIS_ENCODING_RAW \<Rightarrow> ''raw''
      | REDIS_ENCODING_INT \<Rightarrow> ''int''
      | REDIS_ENCODING_HT \<Rightarrow> ''hashtable''
      | REDIS_ENCODING_LINKEDLIST \<Rightarrow> ''linkedlist''
      | REDIS_ENCODING_ZIPLIST \<Rightarrow> ''ziplist''
      | REDIS_ENCODING_INTSET \<Rightarrow> ''intset''
      | REDIS_ENCODING_SKIPLIST \<Rightarrow> ''skiplist''
      | REDIS_ENCODING_EMBSTR \<Rightarrow> ''embstr''
      | _ \<Rightarrow> ''unknown'')"

text \<open>The clock of the LRU counters wraps around; units of \<^verbatim>\<open>REDIS_LRU_CLOCK_RESOLUTION\<close> ms.\<close>

definition REDIS_LRU_CLOCK_MAX :: nat where
  "REDIS_LRU_CLOCK_MAX = 2 ^ 24 - 1"

definition estimateObjectIdleTime :: "nat \<Rightarrow> robj \<Rightarrow> nat" where
  "estimateObjectIdleTime clock o1 =
     (if clock \<ge> lru o1 then (clock - lru o1) * 1000
      else (clock + (REDIS_LRU_CLOCK_MAX - lru o1)) * 1000)"

end
