(* ===== verification/ObjectProps.thy ===== *)
theory ObjectProps
  imports Object
begin

text \<open>
  What the operations on string objects do to the text an object stands for, whatever its
  encoding: encoding, decoding and duplication keep the text, comparison and length depend on the
  text alone, and reference counts are neither lost nor dropped.
\<close>

subsection \<open>The text of an object and the invariant of the store\<close>

definition obj_holds :: "robj \<Rightarrow> char list \<Rightarrow> bool" where
  "obj_holds o1 t \<longleftrightarrow> rtype o1 = REDIS_STRING \<and>
     (case ptr o1 of
        PtrSds s \<Rightarrow> sdsEncodedObject o1 \<and> sds_wf s t
      | PtrLong n \<Rightarrow> encoding o1 = REDIS_ENCODING_INT \<and> t = ll2string 32 (sint n)
      | _ \<Rightarrow> False)"

definition obj_inv :: "obj_state \<Rightarrow> bool" where
  "obj_inv st \<longleftrightarrow>
     (\<forall>a o1. objs st a = Some o1 \<longrightarrow> a < next_obj st) \<and>
     int (length (shared_integers st)) = REDIS_SHARED_INTEGERS \<and>
     (\<forall>i < length (shared_integers st). \<exists>o1. objs st (shared_integers st ! i) = Some o1 \<and>
        rtype o1 = REDIS_STRING \<and> encoding o1 = REDIS_ENCODING_INT \<and> ptr o1 = PtrLong (word_of_nat i) \<and>
        1 \<le> refcount o1)"

lemma obj_holds_cases:
  assumes "obj_holds o1 t"
  obtains (sds) s where "ptr o1 = PtrSds s" "sdsEncodedObject o1" "sds_wf s t" "rtype o1 = REDIS_STRING"
    | (int) n where "ptr o1 = PtrLong n" "encoding o1 = REDIS_ENCODING_INT" "\<not> sdsEncodedObject o1"
        "t = ll2string 32 (sint n)" "rtype o1 = REDIS_STRING"
  using assms by (cases "ptr o1") (auto simp: obj_holds_def sdsEncodedObject_def)

lemma obj_holds_refcount [simp]: "obj_holds (o1\<lparr>refcount := n\<rparr>) t = obj_holds o1 t"
  by (cases "ptr o1") (simp_all add: obj_holds_def sdsEncodedObject_def)

lemma sint_range64: "LLONG_MIN \<le> sint (n :: uint64)" "sint n \<le> LLONG_MAX"
  using sint_ge [of n] sint_lt [of n] by (simp_all add: LLONG_MIN_def LLONG_MAX_def)

lemma ll2string_sint_inj: "ll2string 32 (sint m) = ll2string 32 (sint n) \<longleftrightarrow> m = (n :: uint64)"
proof
  assume "ll2string 32 (sint m) = ll2string 32 (sint n)"
  then have "Some (sint m) = Some (sint n)"
    using sint_range64 string2ll_canonical by metis
  then show "m = n" by (simp add: signed_word_eqI)
qed simp

lemma ll2string_128: "ll2string 128 (sint (n :: uint64)) = ll2string 32 (sint n)"
proof -
  note r = sint_range64 [of n]
  have "nat \<bar>sint n\<bar> < 10 ^ 19" using r by (simp add: LLONG_MIN_def LLONG_MAX_def)
  then have "length (ull_digits (nat \<bar>sint n\<bar>) []) \<le> 19" by (rule ull_digits_length) simp
  then show ?thesis
    unfolding ll2string_value [OF r] unfolding ll2string_def Let_def magnitude [OF r]
    by (cases "sint n < 0") auto
qed

lemma NUL_notin_ll2string: "NUL \<notin> set (ll2string 32 (sint (n :: uint64)))"
proof -
  have "list_all is_digit (ull_digits v [])" for v using ull_digits_ok by blast
  moreover have "\<not> is_digit NUL" by (simp add: is_digit_def NUL_def)
  ultimately have "NUL \<notin> set (ull_digits v [])" for v by (metis list_all_iff)
  then show ?thesis
    unfolding ll2string_value [OF sint_range64] by (auto simp: NUL_iff eq_commute [of NUL])
qed

lemma ll2string_sint_length: "length (ll2string 32 (sint (n :: uint64))) \<le> 20"
  using sdsll2str_length [OF sint_range64] sdsll2str_eq [OF sint_range64] by metis

subsection \<open>Creation\<close>

lemma obj_inv_alloc:
  assumes "obj_inv st" "alloc_obj st o1 = (st', a)"
  shows "obj_inv st'" "objs st' a = Some o1" "objs st a = None" "\<And>b. b \<noteq> a \<Longrightarrow> objs st' b = objs st b"
    "a = next_obj st" "maxmemory st' = maxmemory st" "shared_integers st' = shared_integers st"
proof -
  have a: "objs st a = None" using assms by (cases "objs st a") (auto simp: obj_inv_def alloc_obj_def)
  then show "objs st a = None" .
  have st': "st' = st\<lparr>objs := (objs st)(a \<mapsto> o1), next_obj := Suc (next_obj st)\<rparr>" "a = next_obj st"
    using assms(2) by (auto simp: alloc_obj_def)
  have "\<exists>o2. objs st' (shared_integers st ! i) = Some o2 \<and> rtype o2 = REDIS_STRING \<and>
      encoding o2 = REDIS_ENCODING_INT \<and> ptr o2 = PtrLong (word_of_nat i) \<and> 1 \<le> refcount o2"
    if "i < length (shared_integers st)" for i
    using assms(1) that a st' by (cases "shared_integers st ! i = a") (auto simp: obj_inv_def)
  moreover have "b < next_obj st'" if "objs st' b = Some o2" for b o2
    using assms(1) that st' by (cases "b = a") (auto simp: obj_inv_def less_Suc_eq)
  ultimately show "obj_inv st'" using assms(1) st'(1) by (simp add: obj_inv_def)
qed (use assms in \<open>auto simp: alloc_obj_def\<close>)

lemma createEmbeddedStringObject_ok:
  assumes "len \<le> length bytes" "len \<le> INT_MAX"
  obtains s where "createEmbeddedStringObject st (Some bytes) len =
      Some (alloc_obj st \<lparr>rtype = REDIS_STRING, encoding = REDIS_ENCODING_EMBSTR, lru = lruclock st,
        refcount = 1, ptr = PtrSds s\<rparr>)" "sds_wf s (take len bytes)"
proof -
  let ?s = "\<lparr>sds_len = len, sds_free = 0, sds_buf = map Some (take len bytes) @ [Some NUL]\<rparr>"
  have "sds_wf ?s (take len bytes)" using assms by (intro sds_wfI) auto
  then show thesis
    using that [of ?s] assms by (simp add: createEmbeddedStringObject_def mem_simps)
qed

lemma createRawStringObject_ok:
  assumes "len \<le> length bytes" "len \<le> INT_MAX"
  obtains s where "createRawStringObject st (Some bytes) len =
      Some (alloc_obj st \<lparr>rtype = REDIS_STRING, encoding = REDIS_ENCODING_RAW, lru = lruclock st,
        refcount = 1, ptr = PtrSds s\<rparr>)" "sds_wf s (take len bytes)"
proof -
  obtain s where "sdsnewlen (Some bytes) len = Some s" "sds_wf s (take len bytes)"
    using sdsnewlen_ok [OF assms] by blast
  with that show thesis by (simp add: createRawStringObject_def createObject_def)
qed

text \<open>A new object: well formed, one reference, and nothing else changed.\<close>

definition new_string :: "obj_state \<Rightarrow> obj_state \<Rightarrow> nat \<Rightarrow> char list \<Rightarrow> bool" where
  "new_string st st' a t \<longleftrightarrow> obj_inv st' \<and> objs st a = None \<and>
     (\<exists>o1. objs st' a = Some o1 \<and> obj_holds o1 t \<and> refcount o1 = 1) \<and>
     (\<forall>b. b \<noteq> a \<longrightarrow> objs st' b = objs st b) \<and> maxmemory st' = maxmemory st \<and>
     shared_integers st' = shared_integers st"

lemma new_string_alloc:
  "obj_inv st \<Longrightarrow> alloc_obj st o1 = (st', a) \<Longrightarrow> obj_holds o1 t \<Longrightarrow> refcount o1 = 1 \<Longrightarrow> new_string st st' a t"
  using obj_inv_alloc [of st o1 st' a] by (auto simp: new_string_def)

lemma createStringObject_ok:
  assumes "obj_inv st" "len \<le> length bytes" "len \<le> INT_MAX"
  obtains st' a where "createStringObject st (Some bytes) len = Some (st', a)"
    "new_string st st' a (take len bytes)" "\<exists>o1 s. objs st' a = Some o1 \<and> ptr o1 = PtrSds s"
proof (cases "len \<le> REDIS_ENCODING_EMBSTR_SIZE_LIMIT")
  case True
  obtain s where s: "createEmbeddedStringObject st (Some bytes) len =
      Some (alloc_obj st \<lparr>rtype = REDIS_STRING, encoding = REDIS_ENCODING_EMBSTR, lru = lruclock st,
        refcount = 1, ptr = PtrSds s\<rparr>)" (is "_ = Some (alloc_obj st ?o)") "sds_wf s (take len bytes)"
    using createEmbeddedStringObject_ok [OF assms(2,3)] .
  obtain st' a where a: "alloc_obj st ?o = (st', a)" by (cases "alloc_obj st ?o")
  have "new_string st st' a (take len bytes)"
    using assms(1) a s(2) by (intro new_string_alloc) (auto simp: obj_holds_def sdsEncodedObject_def)
  moreover have "objs st' a = Some ?o" using obj_inv_alloc [OF assms(1) a] by blast
  ultimately show thesis using that [of st' a] True a s(1) by (auto simp: createStringObject_def)
next
  case False
  obtain s where s: "createRawStringObject st (Some bytes) len =
      Some (alloc_obj st \<lparr>rtype = REDIS_STRING, encoding = REDIS_ENCODING_RAW, lru = lruclock st,
        refcount = 1, ptr = PtrSds s\<rparr>)" (is "_ = Some (alloc_obj st ?o)") "sds_wf s (take len bytes)"
    using createRawStringObject_ok [OF assms(2,3)] .
  obtain st' a where a: "alloc_obj st ?o = (st', a)" by (cases "alloc_obj st ?o")
  have "new_string st st' a (take len bytes)"
    using assms(1) a s(2) by (intro new_string_alloc) (auto simp: obj_holds_def sdsEncodedObject_def)
  moreover have "objs st' a = Some ?o" using obj_inv_alloc [OF assms(1) a] by blast
  ultimately show thesis using that [of st' a] False a s(1) by (auto simp: createStringObject_def)
qed

subsection \<open>References\<close>

lemma obj_inv_update:
  assumes "obj_inv st" "objs st a = Some o1" "a \<notin> set (shared_integers st)"
  shows "obj_inv (st\<lparr>objs := (objs st)(a := x)\<rparr>)"
proof -
  have "shared_integers st ! i \<noteq> a" if "i < length (shared_integers st)" for i
    using assms(3) that nth_mem by blast
  moreover have "a < next_obj st" using assms(1,2) by (auto simp: obj_inv_def)
  ultimately show ?thesis using assms(1) by (auto simp: obj_inv_def)
qed

lemma incrRefCount_inv:
  assumes "obj_inv st" "objs st a = Some o1"
  shows "obj_inv (st\<lparr>objs := (objs st)(a \<mapsto> o1\<lparr>refcount := refcount o1 + 1\<rparr>)\<rparr>)"
proof -
  have "\<exists>o2. ((objs st)(a \<mapsto> o1\<lparr>refcount := refcount o1 + 1\<rparr>)) (shared_integers st ! i) = Some o2 \<and>
      rtype o2 = REDIS_STRING \<and> encoding o2 = REDIS_ENCODING_INT \<and> ptr o2 = PtrLong (word_of_nat i) \<and>
      1 \<le> refcount o2" if i: "i < length (shared_integers st)" for i
  proof -
    obtain o2 where "objs st (shared_integers st ! i) = Some o2" "rtype o2 = REDIS_STRING"
        "encoding o2 = REDIS_ENCODING_INT" "ptr o2 = PtrLong (word_of_nat i)" "1 \<le> refcount o2"
      using assms(1) i by (auto simp: obj_inv_def)
    with assms(2) show ?thesis by (cases "shared_integers st ! i = a") auto
  qed
  moreover have "a < next_obj st" using assms by (auto simp: obj_inv_def)
  ultimately show ?thesis using assms(1) by (auto simp: obj_inv_def)
qed

lemma sds_not_shared:
  assumes "obj_inv st" "objs st a = Some o1" "ptr o1 = PtrSds s"
  shows "a \<notin> set (shared_integers st)"
  using assms by (auto simp: obj_inv_def in_set_conv_nth)

lemma share_integer_ok:
  assumes "obj_inv st" "0 \<le> v" "v < REDIS_SHARED_INTEGERS"
  obtains st' a o1 where "share_integer st v = Some (st', a)" "obj_inv st'" "objs st a = Some o1"
    "objs st' = (objs st)(a \<mapsto> o1\<lparr>refcount := refcount o1 + 1\<rparr>)" "obj_holds o1 (ll2string 32 v)"
    "1 \<le> refcount o1" "a \<in> set (shared_integers st)"
proof -
  let ?a = "shared_integers st ! nat v"
  have l: "nat v < length (shared_integers st)" using assms by (auto simp: obj_inv_def)
  then obtain o1 where o1: "objs st ?a = Some o1" "rtype o1 = REDIS_STRING"
      "encoding o1 = REDIS_ENCODING_INT" "ptr o1 = PtrLong (word_of_nat (nat v))" "1 \<le> refcount o1"
    using assms(1) by (auto simp: obj_inv_def)
  have "sint (word_of_nat (nat v) :: uint64) = v"
    using assms(2,3) by (subst sint_of_nat) (auto simp: REDIS_SHARED_INTEGERS_def)
  then have "obj_holds o1 (ll2string 32 v)" using o1 by (simp add: obj_holds_def)
  moreover have "share_integer st v =
      Some (st\<lparr>objs := (objs st)(?a \<mapsto> o1\<lparr>refcount := refcount o1 + 1\<rparr>)\<rparr>, ?a)"
    using l o1(1) by (simp add: share_integer_def arr_get_in incrRefCount_def)
  ultimately show thesis
    using that o1 incrRefCount_inv [OF assms(1) o1(1)] nth_mem [OF l] by auto
qed

subsection \<open>Encoding\<close>

text \<open>
  The caller's reference moves from \<open>a\<close> to \<open>a'\<close> without a change of the text: when the address
  changes, the old object is gone and the new one has exactly one reference more than before.
\<close>

definition reencoded :: "obj_state \<Rightarrow> nat \<Rightarrow> char list \<Rightarrow> obj_state \<Rightarrow> nat \<Rightarrow> bool" where
  "reencoded st a t st' a' \<longleftrightarrow> obj_inv st' \<and>
     (\<exists>o'. objs st' a' = Some o' \<and> obj_holds o' t \<and> 1 \<le> refcount o' \<and>
       (a' = a \<longrightarrow> map_option refcount (objs st a) = Some (refcount o')) \<and>
       (a' \<noteq> a \<longrightarrow> objs st' a = None \<and>
          refcount o' = (case objs st a' of None \<Rightarrow> 1 | Some o2 \<Rightarrow> refcount o2 + 1))) \<and>
     (\<forall>b. b \<noteq> a \<and> b \<noteq> a' \<longrightarrow> objs st' b = objs st b)"

lemma reencoded_same:
  "obj_inv st \<Longrightarrow> objs st a = Some o1 \<Longrightarrow> obj_holds o1 t \<Longrightarrow> 1 \<le> refcount o1 \<Longrightarrow> reencoded st a t st a"
  by (simp add: reencoded_def)

lemma reencoded_in_place:
  assumes "obj_inv st" "objs st a = Some o1" "a \<notin> set (shared_integers st)" "1 \<le> refcount o1"
    "obj_holds o' t" "refcount o' = refcount o1"
  shows "reencoded st a t (st\<lparr>objs := (objs st)(a \<mapsto> o')\<rparr>) a"
  using assms obj_inv_update [OF assms(1-3)] by (simp add: reencoded_def)

lemma string2l_Some: "string2l t = Some v \<Longrightarrow> t = ll2string 32 v \<and> LLONG_MIN \<le> v \<and> v \<le> LLONG_MAX"
  by (auto simp: string2l_def string2ll_canonical_iff split: option.splits if_splits)

lemma sint_of_int64: "LLONG_MIN \<le> v \<Longrightarrow> v \<le> LLONG_MAX \<Longrightarrow> sint (word_of_int v :: uint64) = v"
  by (simp add: signed_of_int signed_take_bit_int_eq_self LLONG_MIN_def LLONG_MAX_def)

lemma encode_shared:
  assumes inv: "obj_inv st" and o1: "objs st a = Some o1" "ptr o1 = PtrSds s" "refcount o1 = 1"
    "rtype o1 = REDIS_STRING" and v: "0 \<le> v" "v < REDIS_SHARED_INTEGERS"
  shows "\<exists>st' a'. Option.bind (decrRefCount st a) (\<lambda>st. share_integer st v) = Some (st', a') \<and>
    reencoded st a (ll2string 32 v) st' a'"
proof -
  let ?st = "st\<lparr>objs := (objs st)(a := None)\<rparr>"
  have ns: "a \<notin> set (shared_integers st)" using sds_not_shared [OF inv o1(1,2)] .
  have inv1: "obj_inv ?st" using obj_inv_update [OF inv o1(1) ns] .
  from share_integer_ok [OF inv1 v] obtain st' a' o2 where r: "share_integer ?st v = Some (st', a')"
    "obj_inv st'" "objs ?st a' = Some o2" "objs st' = (objs ?st)(a' \<mapsto> o2\<lparr>refcount := refcount o2 + 1\<rparr>)"
    "obj_holds o2 (ll2string 32 v)" "1 \<le> refcount o2" "a' \<in> set (shared_integers ?st)" .
  have ne: "a' \<noteq> a" using r(7) ns by auto
  have d: "decrRefCount st a = Some ?st" using o1 by (simp add: decrRefCount_def freeable_def)
  have "obj_holds (o2\<lparr>refcount := refcount o2 + 1\<rparr>) (ll2string 32 v)"
    using r(5) by simp
  then have "reencoded st a (ll2string 32 v) st' a'" using r ne by (simp add: reencoded_def)
  with d r(1) show ?thesis by simp
qed

lemma encode_embstr:
  assumes inv: "obj_inv st" and o1: "objs st a = Some o1" "ptr o1 = PtrSds s" "refcount o1 = 1"
    "rtype o1 = REDIS_STRING" and t: "length t \<le> INT_MAX"
  shows "\<exists>st' a'. Option.bind (createEmbeddedStringObject st (Some t) (length t))
      (\<lambda>(st, emb). Option.bind (decrRefCount st a) (\<lambda>st. Some (st, emb))) = Some (st', a') \<and>
    reencoded st a t st' a'"
proof -
  obtain es where es: "createEmbeddedStringObject st (Some t) (length t) =
      Some (alloc_obj st \<lparr>rtype = REDIS_STRING, encoding = REDIS_ENCODING_EMBSTR, lru = lruclock st,
        refcount = 1, ptr = PtrSds es\<rparr>)" (is "_ = Some (alloc_obj st ?o)") "sds_wf es t"
    using createEmbeddedStringObject_ok [of "length t" t st] t by auto
  obtain st1 a' where a: "alloc_obj st ?o = (st1, a')" by (cases "alloc_obj st ?o")
  note al = obj_inv_alloc [OF inv a]
  have ne: "a' \<noteq> a" using al(3) o1(1) by auto
  have oa: "objs st1 a = Some o1" using al(4) ne o1(1) by metis
  have ns: "a \<notin> set (shared_integers st1)" using sds_not_shared [OF al(1) oa o1(2)] .
  let ?st = "st1\<lparr>objs := (objs st1)(a := None)\<rparr>"
  have "obj_inv ?st" using obj_inv_update [OF al(1) oa ns] .
  moreover have "decrRefCount st1 a = Some ?st" using oa o1 by (simp add: decrRefCount_def freeable_def)
  moreover have "obj_holds ?o t" using es(2) by (simp add: obj_holds_def sdsEncodedObject_def)
  ultimately have "reencoded st a t ?st a'" using al ne by (simp add: reencoded_def)
  with es(1) a \<open>decrRefCount st1 a = Some ?st\<close> show ?thesis by simp
qed

text \<open>
  C8: \<^verbatim>\<open>tryObjectEncoding\<close> never changes the text of the object, whatever it does to the encoding: to a
  shared integer, to an integer in place, to an embedded string, to a string without free space,
  or nothing. The caller's reference is transferred: no object is leaked, freed twice or left
  with a wrong count, and no other object changes.
\<close>

theorem tryObjectEncoding_correct:
  assumes "obj_inv st" "objs st a = Some o1" "obj_holds o1 t" "1 \<le> refcount o1"
  shows "\<exists>st' a'. tryObjectEncoding st a = Some (st', a') \<and> reencoded st a t st' a'"
  using assms(3)
proof (cases rule: obj_holds_cases)
  case (int n)
  then show ?thesis using reencoded_same [OF assms] assms(2) by (simp add: tryObjectEncoding_def)
next
  case (sds s)
  note rd = sds_wf_read [OF sds(3)] and len = sds_wf_len [OF sds(3)]
  have ns: "a \<notin> set (shared_integers st)" using sds_not_shared [OF assms(1,2) sds(1)] .
  have lt: "length t \<le> INT_MAX" using sds(3) by (auto elim: sds_wfE)
  show ?thesis
  proof (cases "refcount o1 > 1")
    case True
    then show ?thesis using reencoded_same [OF assms] assms(2) sds by (simp add: tryObjectEncoding_def)
  next
    case False
    with assms(4) have one: "refcount o1 = 1" by simp
    show ?thesis
    proof (cases "if length t \<le> 21 then string2l t else None")
      case (Some v)
      then have v: "t = ll2string 32 v" "LLONG_MIN \<le> v" "v \<le> LLONG_MAX"
        using string2l_Some by (auto split: if_splits)
      have "obj_holds (o1\<lparr>encoding := REDIS_ENCODING_INT, ptr := PtrLong (word_of_int v)\<rparr>) t"
        using sds(4) v sint_of_int64 by (simp add: obj_holds_def)
      from reencoded_in_place [OF assms(1,2) ns assms(4) this] Some
        encode_shared [OF assms(1,2) sds(1) one sds(4), of v] v(1) sds assms(2) one rd len
      show ?thesis by (auto simp: tryObjectEncoding_def Let_def)
    next
      case None
      have "obj_holds (o1\<lparr>ptr := PtrSds (sdsRemoveFreeSpace s)\<rparr>) t"
        using sds sdsRemoveFreeSpace_ok [OF sds(3)] by (simp add: obj_holds_def sdsEncodedObject_def)
      from reencoded_in_place [OF assms(1,2) ns assms(4) this] reencoded_same [OF assms] None
        encode_embstr [OF assms(1,2) sds(1) one sds(4) lt] sds assms(2) one rd len
      show ?thesis by (simp add: tryObjectEncoding_def Let_def)
    qed
  qed
qed

subsection \<open>A store with all shared integers\<close>

text \<open>
  The state after \<^verbatim>\<open>createSharedObjects\<close> made the shared integers, with one more raw string object.
\<close>

definition ex_obj :: robj where
  "ex_obj = \<lparr>rtype = REDIS_STRING, encoding = REDIS_ENCODING_RAW, lru = 0, refcount = 1, ptr = PtrSds ex_sds\<rparr>"

definition ex_store :: obj_state where
  "ex_store = \<lparr>objs = (\<lambda>a. if a < 10000 then Some \<lparr>rtype = REDIS_STRING, encoding = REDIS_ENCODING_INT, lru = 0,
       refcount = 1, ptr = PtrLong (word_of_nat a)\<rparr> else if a = 10000 then Some ex_obj else None),
     next_obj = 10001, shared_integers = [0..<10000], maxmemory = 0, lruclock = 0\<rparr>"

lemma obj_inv_ex_store: "obj_inv ex_store"
  by (auto simp: obj_inv_def ex_store_def REDIS_SHARED_INTEGERS_def split: if_splits)

lemma objs_ex_store: "objs ex_store 10000 = Some ex_obj"
  by (simp add: ex_store_def)

lemma obj_holds_ex_obj: "obj_holds ex_obj ''hi''"
  by (simp add: obj_holds_def ex_obj_def sdsEncodedObject_def sds_wf_ex_sds)

theorem tryObjectEncoding_correct_witness:
  "\<exists>st' a'. tryObjectEncoding ex_store 10000 = Some (st', a') \<and> reencoded ex_store 10000 ''hi'' st' a'"
  by (rule tryObjectEncoding_correct [OF obj_inv_ex_store objs_ex_store obj_holds_ex_obj])
    (simp add: ex_obj_def)

subsection \<open>Decoding\<close>

text \<open>
  \<^verbatim>\<open>getDecodedObject\<close> returns an object with an SDS encoding and the same text, and the reference
  it adds is released exactly by \<^verbatim>\<open>decrRefCount\<close>: the store is then as before.
\<close>

theorem getDecodedObject_correct:
  assumes "obj_inv st" "objs st a = Some o1" "obj_holds o1 t" "1 \<le> refcount o1"
  shows "\<exists>st1 a1 d st2. getDecodedObject st a = Some (st1, a1) \<and> objs st1 a1 = Some d \<and>
    sdsEncodedObject d \<and> obj_holds d t \<and> decrRefCount st1 a1 = Some st2 \<and> objs st2 = objs st"
  using assms(3)
proof (cases rule: obj_holds_cases)
  case (sds s)
  let ?o = "o1\<lparr>refcount := refcount o1 + 1\<rparr>"
  let ?st = "st\<lparr>objs := (objs st)(a \<mapsto> ?o)\<rparr>"
  have "getDecodedObject st a = Some (?st, a)"
    using assms(2) sds by (simp add: getDecodedObject_def incrRefCount_def)
  moreover have "decrRefCount ?st a = Some (?st\<lparr>objs := (objs ?st)(a \<mapsto> o1)\<rparr>)"
    using assms(4) by (simp add: decrRefCount_def)
  moreover have "(objs ?st)(a \<mapsto> o1) = objs st" using assms(2) by auto
  moreover have "sdsEncodedObject ?o" using sds(2) by (simp add: sdsEncodedObject_def)
  ultimately show ?thesis using assms(3) by auto
next
  case (int n)
  have c: "cstr t = t" using NUL_notin_ll2string int(4) by (simp add: cstr_id)
  have "length t \<le> length t" "length t \<le> INT_MAX"
    using ll2string_sint_length [of n] int(4) by (auto simp: INT_MAX_def)
  from createStringObject_ok [OF assms(1) this] obtain st1 a1 where
    n: "createStringObject st (Some t) (length t) = Some (st1, a1)" "new_string st st1 a1 (take (length t) t)"
    "\<exists>o1 s. objs st1 a1 = Some o1 \<and> ptr o1 = PtrSds s" .
  then obtain o2 s where r: "createStringObject st (Some t) (length t) = Some (st1, a1)"
    "new_string st st1 a1 t" "objs st1 a1 = Some o2" "ptr o2 = PtrSds s" by auto
  have o2: "obj_holds o2 t" "refcount o2 = 1" "rtype o2 = REDIS_STRING" "sdsEncodedObject o2"
    using r(2-4) by (auto simp: new_string_def obj_holds_def)
  have "getDecodedObject st a = Some (st1, a1)"
    using assms(2) int c r(1) by (simp add: getDecodedObject_def Let_def)
  moreover have "decrRefCount st1 a1 = Some (st1\<lparr>objs := (objs st1)(a1 := None)\<rparr>)"
    using r(3) o2 by (simp add: decrRefCount_def freeable_def)
  moreover have "(objs st1)(a1 := None) = objs st"
    using r(2) by (auto simp: new_string_def fun_eq_iff)
  ultimately show ?thesis using r(3) o2 by auto
qed

theorem getDecodedObject_correct_witness:
  "\<exists>st1 a1 d st2. getDecodedObject ex_store 10000 = Some (st1, a1) \<and> objs st1 a1 = Some d \<and>
    sdsEncodedObject d \<and> obj_holds d ''hi'' \<and> decrRefCount st1 a1 = Some st2 \<and> objs st2 = objs ex_store"
  by (rule getDecodedObject_correct [OF obj_inv_ex_store objs_ex_store obj_holds_ex_obj])
    (simp add: ex_obj_def)

subsection \<open>Comparison\<close>

lemma cmp_text_ok: "obj_holds o1 t \<Longrightarrow> cmp_text o1 = Some t"
  by (erule obj_holds_cases) (simp_all add: cmp_text_def sds_wf_read ll2string_128)

lemma compareStringObjects_ok:
  assumes "objs st a = Some oa" "obj_holds oa ta" "objs st b = Some ob" "obj_holds ob tb"
  shows "\<exists>c. compareStringObjects st a b = Some c \<and> (c = 0 \<longleftrightarrow> ta = tb) \<and>
    (c < 0 \<longleftrightarrow> (ta, tb) \<in> lexord {(a, b). (of_char a :: nat) < of_char b})"
proof (cases "a = b")
  case True
  then have "ta = tb" using assms cmp_text_ok by (metis option.inject)
  moreover have "(tb, tb) \<notin> lexord {(a, b). (of_char a :: nat) < of_char b}"
    using lexord_asym_byte by blast
  ultimately show ?thesis using True assms by (auto simp: compareStringObjects_def obj_holds_def)
next
  case False
  have "(if length ta < length tb then length ta else length tb) = min (length ta) (length tb)" by auto
  then have "compareStringObjects st a b =
      Some (if memcmp ta tb = 0 then int (length ta) - int (length tb) else memcmp ta tb)"
    using assms False by (simp add: compareStringObjects_def cmp_text_ok Let_def memcmp_take)
      (auto simp: obj_holds_def)
  then show ?thesis using memcmp_length_lexord [OF refl, of ta tb] by blast
qed

text \<open>
  C32: Comparison does not see encodings: \<^verbatim>\<open>compareStringObjects\<close> orders any two string objects by the
  bytes of their texts, and \<^verbatim>\<open>equalStringObjects\<close>, with its shortcut for two integers, is
  equality of the texts.
\<close>

theorem string_objects_compare:
  assumes "objs st a = Some oa" "obj_holds oa ta" "objs st b = Some ob" "obj_holds ob tb"
  shows "(\<exists>c. compareStringObjects st a b = Some c \<and> (c = 0 \<longleftrightarrow> ta = tb) \<and>
      (c < 0 \<longleftrightarrow> (ta, tb) \<in> lexord {(a, b). (of_char a :: nat) < of_char b})) \<and>
    equalStringObjects st a b = Some (ta = tb)"
proof -
  from compareStringObjects_ok [OF assms] obtain c where c: "compareStringObjects st a b = Some c"
    "c = 0 \<longleftrightarrow> ta = tb" "c < 0 \<longleftrightarrow> (ta, tb) \<in> lexord {(a, b). (of_char a :: nat) < of_char b}" by blast
  have "equalStringObjects st a b = Some (ta = tb)"
  proof (cases "encoding oa = REDIS_ENCODING_INT \<and> encoding ob = REDIS_ENCODING_INT")
    case True
    with assms(2,4) obtain m n where "ptr oa = PtrLong m" "ta = ll2string 32 (sint m)"
        "ptr ob = PtrLong n" "tb = ll2string 32 (sint n)"
      by (auto elim!: obj_holds_cases simp: sdsEncodedObject_def)
    with True assms(1,3) show ?thesis by (simp add: equalStringObjects_def ll2string_sint_inj)
  next
    case False
    with assms(1,3) c(1,2) show ?thesis by (auto simp: equalStringObjects_def)
  qed
  with c show ?thesis by blast
qed

theorem string_objects_compare_witness:
  "(\<exists>c. compareStringObjects ex_store 10000 10000 = Some c \<and> (c = 0 \<longleftrightarrow> ''hi'' = ''hi'') \<and>
      (c < 0 \<longleftrightarrow> (''hi'', ''hi'') \<in> lexord {(a, b). (of_char a :: nat) < of_char b})) \<and>
    equalStringObjects ex_store 10000 10000 = Some (''hi'' = ''hi'')"
  by (rule string_objects_compare [OF objs_ex_store obj_holds_ex_obj objs_ex_store obj_holds_ex_obj])

lemma stringObjectLen_ok: "obj_holds o1 t \<Longrightarrow> stringObjectLen o1 = Some (length t)"
  by (erule obj_holds_cases) (simp_all add: stringObjectLen_def sds_wf_len)

subsection \<open>Numbers\<close>

lemma digit_facts: "is_digit c \<Longrightarrow> \<not> isspace c \<and> c \<noteq> CHR ''-'' \<and> c \<noteq> CHR ''+''"
  by (auto simp: is_digit_def isspace_def)

lemma isspace_minus: "\<not> isspace CHR ''-''"
  by (simp add: isspace_def)

lemma strtoll_digits:
  assumes "d \<noteq> []" "list_all is_digit d"
  shows "takeWhile is_digit d = d" "dropWhile is_digit d = []" "\<not> isspace (hd d)" "hd d \<noteq> CHR ''-''"
    "hd d \<noteq> CHR ''+''" "dropWhile isspace d = d"
  using assms digit_facts [of "hd d"]
  by (auto simp: list_all_iff takeWhile_eq_all_conv dropWhile_eq_Nil_conv neq_Nil_conv)

lemma strtoll_signed:
  assumes "d \<noteq> []" "list_all is_digit d"
  shows "int (dec_value d) \<le> LLONG_MAX \<Longrightarrow> strtoll d = (int (dec_value d), [], False)"
    and "LLONG_MIN \<le> - int (dec_value d) \<Longrightarrow> strtoll (CHR ''-'' # d) = (- int (dec_value d), [], False)"
  using assms(1)
  by (simp_all add: strtoll_def Let_def strtoll_digits [OF assms] isspace_minus, simp_all add: LLONG_MIN_def LLONG_MAX_def)

lemma strtoll_canonical:
  assumes "LLONG_MIN \<le> i" "i \<le> LLONG_MAX"
  shows "strtoll (ll2string 32 i) = (i, [], False)" "\<not> isspace (peek (ll2string 32 i) 0)"
proof -
  define d where "d = ull_digits (nat \<bar>i\<bar>) []"
  have d: "d \<noteq> []" "list_all is_digit d" "dec_value d = nat \<bar>i\<bar>" using ull_digits_ok by (auto simp: d_def)
  show "strtoll (ll2string 32 i) = (i, [], False)"
    unfolding ll2string_value [OF assms] d_def [symmetric]
    using strtoll_signed [OF d(1,2)] d(3) assms by (cases "i < 0") auto
  show "\<not> isspace (peek (ll2string 32 i) 0)"
    unfolding ll2string_value [OF assms] d_def [symmetric]
    using d(1) strtoll_digits(3) [OF d(1,2)] isspace_minus by (cases "i < 0") (auto simp: peek_def hd_conv_nth)
qed

lemma isObjectRepresentable_ok: "obj_holds o1 t \<Longrightarrow> isObjectRepresentableAsLongLong o1 = Some (string2ll t)"
proof (erule obj_holds_cases)
  fix s
  assume "ptr o1 = PtrSds s" "sdsEncodedObject o1" "sds_wf s t" "rtype o1 = REDIS_STRING"
  then show ?thesis
    by (auto simp: isObjectRepresentableAsLongLong_def sds_wf_read sdsEncodedObject_def)
next
  fix n
  assume "ptr o1 = PtrLong n" "encoding o1 = REDIS_ENCODING_INT" "t = ll2string 32 (sint n)"
    "rtype o1 = REDIS_STRING"
  then show ?thesis
    using string2ll_canonical [of "sint n"] sint_range64 [of n]
    by (simp add: isObjectRepresentableAsLongLong_def)
qed

lemma cstr_append_NUL: "NUL \<notin> set t \<Longrightarrow> cstr (t @ NUL # u) = t"
  unfolding cstr_def by (induction t) auto

lemma getLongLong_sds:
  assumes "obj_holds o1 t" "ptr o1 = PtrSds s"
  shows "getLongLongFromObject (Some o1) =
    (let (value, eptr, erange) = strtoll (cstr t)
     in if isspace (peek (cstr t) 0) \<or> eptr \<noteq> [] \<or> erange then Some None else Some (Some value))"
  using assms by (auto simp: getLongLongFromObject_def obj_holds_def sds_wf_read)

lemma getLongLong_canonical:
  assumes "obj_holds o1 (ll2string 32 i)" "LLONG_MIN \<le> i" "i \<le> LLONG_MAX"
  shows "getLongLongFromObject (Some o1) = Some (Some i)"
  using assms(1)
proof (cases rule: obj_holds_cases)
  case (sds s)
  have "sint (word_of_int i :: uint64) = i" using assms by (intro sint_of_int64)
  then have "cstr (ll2string 32 i) = ll2string 32 i"
    using NUL_notin_ll2string [of "word_of_int i"] by (simp add: cstr_id)
  then show ?thesis
    using strtoll_canonical [OF assms(2,3)] getLongLong_sds [OF assms(1) sds(1)] by simp
next
  case (int n)
  then have "Some i = Some (sint n)"
    using string2ll_canonical [of i] string2ll_canonical [of "sint n"] sint_range64 [of n] assms by metis
  then show ?thesis using int by (simp add: getLongLongFromObject_def sdsEncodedObject_def)
qed

text \<open>
  C33: Integers round-trip through string objects: \<^verbatim>\<open>createStringObjectFromLongLong\<close> makes, for every
  long long, an object whose text is the printed number, and all three ways to read it back
  (\<^verbatim>\<open>getLongLongFromObject\<close>, \<^verbatim>\<open>isObjectRepresentableAsLongLong\<close>, the length of the text) agree.
\<close>

theorem longlong_object_roundtrip:
  assumes "obj_inv st" "LLONG_MIN \<le> i" "i \<le> LLONG_MAX"
  shows "\<exists>st' a o1. createStringObjectFromLongLong st i = Some (st', a) \<and> obj_inv st' \<and>
    objs st' a = Some o1 \<and> obj_holds o1 (ll2string 32 i) \<and> getLongLongFromObject (Some o1) = Some (Some i) \<and>
    isObjectRepresentableAsLongLong o1 = Some (Some i) \<and> stringObjectLen o1 = Some (length (ll2string 32 i))"
proof -
  have "\<exists>st' a o1. createStringObjectFromLongLong st i = Some (st', a) \<and> obj_inv st' \<and>
    objs st' a = Some o1 \<and> obj_holds o1 (ll2string 32 i)"
  proof (cases "0 \<le> i \<and> i < REDIS_SHARED_INTEGERS")
    case True
    then obtain st' a o1 where "share_integer st i = Some (st', a)"
      "obj_inv st'" "objs st' = (objs st)(a \<mapsto> o1\<lparr>refcount := refcount o1 + 1\<rparr>)" "obj_holds o1 (ll2string 32 i)"
      using share_integer_ok [OF assms(1), of i] by blast
    with True show ?thesis by (simp add: createStringObjectFromLongLong_def)
  next
    case False
    let ?o = "\<lparr>rtype = REDIS_STRING, encoding = REDIS_ENCODING_INT, lru = lruclock st, refcount = 1,
      ptr = PtrLong (word_of_int i)\<rparr>"
    obtain st' a where a: "alloc_obj st ?o = (st', a)" by (cases "alloc_obj st ?o")
    have "obj_holds ?o (ll2string 32 i)" using sint_of_int64 [OF assms(2,3)] by (simp add: obj_holds_def)
    with obj_inv_alloc [OF assms(1) a] False assms a show ?thesis
      by (auto simp: createStringObjectFromLongLong_def)
  qed
  then obtain st' a o1 where r: "createStringObjectFromLongLong st i = Some (st', a)" "obj_inv st'"
    "objs st' a = Some o1" "obj_holds o1 (ll2string 32 i)" by blast
  with getLongLong_canonical [OF r(4) assms(2,3)] isObjectRepresentable_ok [OF r(4)]
    stringObjectLen_ok [OF r(4)] string2ll_canonical [of i] assms(2,3) show ?thesis by auto
qed

theorem longlong_object_roundtrip_witness:
  "\<exists>st' a o1. createStringObjectFromLongLong ex_store (-5) = Some (st', a) \<and> obj_inv st' \<and>
    objs st' a = Some o1 \<and> obj_holds o1 (ll2string 32 (-5)) \<and> getLongLongFromObject (Some o1) = Some (Some (-5)) \<and>
    isObjectRepresentableAsLongLong o1 = Some (Some (-5)) \<and>
    stringObjectLen o1 = Some (length (ll2string 32 (-5)))"
  by (rule longlong_object_roundtrip [OF obj_inv_ex_store]) (simp_all add: LLONG_MIN_def LLONG_MAX_def)



text \<open>
  The idle time across a wrap of the clock is one unit short of the true distance of the two
  readings.
\<close>

lemma estimateObjectIdleTime_wrap:
  assumes "lru o1 \<le> REDIS_LRU_CLOCK_MAX" "clock < lru o1"
  shows "estimateObjectIdleTime clock o1 + 1000 = (clock + 2 ^ 24 - lru o1) * 1000"
  using assms by (simp add: estimateObjectIdleTime_def REDIS_LRU_CLOCK_MAX_def)

end
