(* ===== verification/DictTypes.thy ===== *)
theory DictTypes
  imports DictMap ObjectProps
begin

text \<open>
  The hash functions of \<^verbatim>\<open>dict.c\<close> and the dictionary types of \<^verbatim>\<open>redis.c\<close>, with the
  proof that they satisfy the laws of the locale \<open>dict_type\<close>. An SDS key is the list of its
  bytes; a key that is a string object is either an SDS string or an integer, as its encoding
  says. The seed of the hash functions is the value of \<^verbatim>\<open>dict_hash_function_seed\<close>; words
  are read in little-endian order.
\<close>

subsection \<open>Hash functions\<close>

text \<open>Thomas Wang's 32 bit mix function.\<close>

definition dictIntHashFunction :: "uint32 \<Rightarrow> uint32" where
  "dictIntHashFunction key =
     (let key = key + NOT (push_bit 15 key);
          key = key XOR drop_bit 10 key;
          key = key + push_bit 3 key;
          key = key XOR drop_bit 6 key;
          key = key + NOT (push_bit 11 key);
          key = key XOR drop_bit 16 key
      in key)"

definition dictIdentityHashFunction :: "uint32 \<Rightarrow> uint32" where
  "dictIdentityHashFunction key = key"

definition byte32 :: "char \<Rightarrow> uint32" where
  "byte32 c = word_of_nat (of_char c)"

definition load32 :: "char \<Rightarrow> char \<Rightarrow> char \<Rightarrow> char \<Rightarrow> uint32" where
  "load32 a b c d = byte32 a OR push_bit 8 (byte32 b) OR push_bit 16 (byte32 c) OR push_bit 24 (byte32 d)"

text \<open>MurmurHash2: four bytes at a time, then the last up to three.\<close>

fun murmur_body :: "char list \<Rightarrow> uint32 \<Rightarrow> uint32 \<times> char list" where
  "murmur_body (a # b # c # d # data) h =
     (let m = 0x5bd1e995;
          k = load32 a b c d * m;
          k = (k XOR drop_bit 24 k) * m
      in murmur_body data (h * m XOR k))"
| "murmur_body data h = (h, data)"

definition murmur_tail :: "char list \<Rightarrow> uint32 \<Rightarrow> uint32" where
  "murmur_tail data h =
     (let m = 0x5bd1e995;
          h = (if length data \<ge> 3 then h XOR push_bit 16 (byte32 (data ! 2)) else h);
          h = (if length data \<ge> 2 then h XOR push_bit 8 (byte32 (data ! 1)) else h);
          h = (if length data \<ge> 1 then (h XOR byte32 (data ! 0)) * m else h);
          h = (h XOR drop_bit 13 h) * m
      in h XOR drop_bit 15 h)"

definition dictGenHashFunction :: "uint32 \<Rightarrow> char list \<Rightarrow> uint32" where
  "dictGenHashFunction seed key =
     (case murmur_body key (seed XOR word_of_nat (length key)) of (h, data) \<Rightarrow> murmur_tail data h)"

fun djb_loop :: "char list \<Rightarrow> uint32 \<Rightarrow> uint32" where
  "djb_loop [] h = h"
| "djb_loop (c # buf) h = djb_loop buf (push_bit 5 h + h + byte32 (ctolower c))"

definition dictGenCaseHashFunction :: "uint32 \<Rightarrow> char list \<Rightarrow> uint32" where
  "dictGenCaseHashFunction seed buf = djb_loop buf seed"

subsection \<open>Types with SDS keys\<close>

definition dictSdsHash :: "uint32 \<Rightarrow> char list \<Rightarrow> uint32" where
  "dictSdsHash seed key = dictGenHashFunction seed key"

definition dictSdsCaseHash :: "uint32 \<Rightarrow> char list \<Rightarrow> uint32" where
  "dictSdsCaseHash seed key = dictGenCaseHashFunction seed key"

definition dictSdsKeyCompare :: "char list \<Rightarrow> char list \<Rightarrow> bool" where
  "dictSdsKeyCompare key1 key2 =
     (if length key1 \<noteq> length key2 then False else take (length key1) key1 = take (length key1) key2)"

text \<open>
  \<^verbatim>\<open>strcasecmp(key1, key2) == 0\<close>: the strings up to their first nul byte, up to case.
\<close>

definition dictSdsKeyCaseCompare :: "char list \<Rightarrow> char list \<Rightarrow> bool" where
  "dictSdsKeyCaseCompare key1 key2 \<longleftrightarrow> map ctolower (cstr key1) = map ctolower (cstr key2)"

definition dbDictType :: "uint32 \<Rightarrow> (char list, 'v) dictType" where
  "dbDictType seed = \<lparr>hashFunction = dictSdsHash seed, keyDup = None, valDup = None,
     keyCompare = Some dictSdsKeyCompare, keyDestructor = True, valDestructor = True\<rparr>"

definition keyptrDictType :: "uint32 \<Rightarrow> (char list, 'v) dictType" where
  "keyptrDictType seed = \<lparr>hashFunction = dictSdsHash seed, keyDup = None, valDup = None,
     keyCompare = Some dictSdsKeyCompare, keyDestructor = False, valDestructor = False\<rparr>"

definition commandTableDictType :: "uint32 \<Rightarrow> (char list, 'v) dictType" where
  "commandTableDictType seed = \<lparr>hashFunction = dictSdsCaseHash seed, keyDup = None, valDup = None,
     keyCompare = Some dictSdsKeyCaseCompare, keyDestructor = True, valDestructor = False\<rparr>"

definition shaScriptObjectDictType :: "uint32 \<Rightarrow> (char list, 'v) dictType" where
  "shaScriptObjectDictType seed = \<lparr>hashFunction = dictSdsCaseHash seed, keyDup = None, valDup = None,
     keyCompare = Some dictSdsKeyCaseCompare, keyDestructor = True, valDestructor = True\<rparr>"

definition clusterNodesDictType :: "uint32 \<Rightarrow> (char list, 'v) dictType" where
  "clusterNodesDictType seed = \<lparr>hashFunction = dictSdsHash seed, keyDup = None, valDup = None,
     keyCompare = Some dictSdsKeyCompare, keyDestructor = True, valDestructor = False\<rparr>"

definition clusterNodesBlackListDictType :: "uint32 \<Rightarrow> (char list, 'v) dictType" where
  "clusterNodesBlackListDictType seed = \<lparr>hashFunction = dictSdsCaseHash seed, keyDup = None, valDup = None,
     keyCompare = Some dictSdsKeyCaseCompare, keyDestructor = True, valDestructor = False\<rparr>"

definition migrateCacheDictType :: "uint32 \<Rightarrow> (char list, 'v) dictType" where
  "migrateCacheDictType seed = \<lparr>hashFunction = dictSdsHash seed, keyDup = None, valDup = None,
     keyCompare = Some dictSdsKeyCompare, keyDestructor = True, valDestructor = False\<rparr>"

definition replScriptCacheDictType :: "uint32 \<Rightarrow> (char list, 'v) dictType" where
  "replScriptCacheDictType seed = \<lparr>hashFunction = dictSdsCaseHash seed, keyDup = None, valDup = None,
     keyCompare = Some dictSdsKeyCaseCompare, keyDestructor = True, valDestructor = False\<rparr>"

subsection \<open>Types with string objects as keys\<close>

text \<open>
  The part of a string object that hashing and comparison see: an SDS string (encodings RAW and
  EMBSTR) or a long (encoding INT).
\<close>

datatype str_key = SdsKey "char list" | IntKey uint64

definition key_string :: "str_key \<Rightarrow> char list" where
  "key_string o1 = (case o1 of SdsKey s \<Rightarrow> s | IntKey n \<Rightarrow> ll2string 32 (sint n))"

definition dictEncObjKeyCompare :: "str_key \<Rightarrow> str_key \<Rightarrow> bool" where
  "dictEncObjKeyCompare o1 o2 =
     (case (o1, o2) of
        (IntKey n1, IntKey n2) \<Rightarrow> n1 = n2
      | _ \<Rightarrow> dictSdsKeyCompare (key_string o1) (key_string o2))"

definition dictEncObjHash :: "uint32 \<Rightarrow> str_key \<Rightarrow> uint32" where
  "dictEncObjHash seed o1 =
     (case o1 of
        SdsKey s \<Rightarrow> dictGenHashFunction seed s
      | IntKey n \<Rightarrow> dictGenHashFunction seed (ll2string 32 (sint n)))"

definition setDictType :: "uint32 \<Rightarrow> (str_key, 'v) dictType" where
  "setDictType seed = \<lparr>hashFunction = dictEncObjHash seed, keyDup = None, valDup = None,
     keyCompare = Some dictEncObjKeyCompare, keyDestructor = True, valDestructor = False\<rparr>"

definition hashDictType :: "uint32 \<Rightarrow> (str_key, 'v) dictType" where
  "hashDictType seed = \<lparr>hashFunction = dictEncObjHash seed, keyDup = None, valDup = None,
     keyCompare = Some dictEncObjKeyCompare, keyDestructor = True, valDestructor = True\<rparr>"

definition zsetDictType :: "uint32 \<Rightarrow> (str_key, 'v) dictType" where
  "zsetDictType seed = \<lparr>hashFunction = dictEncObjHash seed, keyDup = None, valDup = None,
     keyCompare = Some dictEncObjKeyCompare, keyDestructor = True, valDestructor = False\<rparr>"

text \<open>The keys of a list of blocked keys are string objects that hold an SDS string.\<close>

definition dictObjKeyCompare :: "char list \<Rightarrow> char list \<Rightarrow> bool" where
  "dictObjKeyCompare o1 o2 = dictSdsKeyCompare o1 o2"

definition dictObjHash :: "uint32 \<Rightarrow> char list \<Rightarrow> uint32" where
  "dictObjHash seed o1 = dictGenHashFunction seed o1"

definition keylistDictType :: "uint32 \<Rightarrow> (char list, 'v) dictType" where
  "keylistDictType seed = \<lparr>hashFunction = dictObjHash seed, keyDup = None, valDup = None,
     keyCompare = Some dictObjKeyCompare, keyDestructor = True, valDestructor = True\<rparr>"

subsection \<open>The laws hold\<close>

lemma dictSdsKeyCompare_eq: "dictSdsKeyCompare k1 k2 \<longleftrightarrow> k1 = k2"
  by (auto simp: dictSdsKeyCompare_def)

lemma key_string_int_inj: "key_string (IntKey m) = key_string (IntKey n) \<longleftrightarrow> m = n"
  by (simp add: key_string_def ll2string_sint_inj)

lemma dictEncObjKeyCompare_eq: "dictEncObjKeyCompare k1 k2 \<longleftrightarrow> key_string k1 = key_string k2"
  using key_string_int_inj
  by (cases k1; cases k2) (auto simp: dictEncObjKeyCompare_def dictSdsKeyCompare_eq)

lemma dictEncObjHash_string: "dictEncObjHash seed k = dictGenHashFunction seed (key_string k)"
  by (cases k) (auto simp: dictEncObjHash_def key_string_def)

lemmas dictType_defs = dictCompareKeys_def dupKey_def dbDictType_def keyptrDictType_def
  setDictType_def hashDictType_def zsetDictType_def keylistDictType_def clusterNodesDictType_def
  migrateCacheDictType_def dictSdsKeyCompare_eq dictEncObjKeyCompare_eq dictObjKeyCompare_def
  dictEncObjHash_string

interpretation db: dict_type "dbDictType seed" for seed
  by unfold_locales (auto simp: dictType_defs)

interpretation keyptr: dict_type "keyptrDictType seed" for seed
  by unfold_locales (auto simp: dictType_defs)

interpretation sets: dict_type "setDictType seed" for seed
  by unfold_locales (auto simp: dictType_defs)

interpretation hashes: dict_type "hashDictType seed" for seed
  by unfold_locales (auto simp: dictType_defs)

interpretation zsets: dict_type "zsetDictType seed" for seed
  by unfold_locales (auto simp: dictType_defs)

interpretation keylist: dict_type "keylistDictType seed" for seed
  by unfold_locales (auto simp: dictType_defs)

interpretation clusterNodes: dict_type "clusterNodesDictType seed" for seed
  by unfold_locales (auto simp: dictType_defs)

interpretation migrateCache: dict_type "migrateCacheDictType seed" for seed
  by unfold_locales (auto simp: dictType_defs)

subsection \<open>Case-insensitive keys\<close>

lemma ctolower_idem: "ctolower (ctolower c) = ctolower c"
  by (simp add: ctolower_def Let_def)

lemma CHR_char_of:
  "CHR ''a'' = char_of (97 :: nat)" "CHR ''e'' = char_of (101 :: nat)" "CHR ''g'' = char_of (103 :: nat)"
  "CHR ''t'' = char_of (116 :: nat)"
  by (rule sym, simp add: char_of_eq_iff)+

lemma djb_loop_lower: "map ctolower a = map ctolower b \<Longrightarrow> djb_loop a h = djb_loop b h"
proof (induction a arbitrary: b h)
  case (Cons c a)
  then obtain d b' where "b = d # b'" "ctolower c = ctolower d" "map ctolower a = map ctolower b'"
    by (cases b) auto
  with Cons.IH [of b'] show ?case by simp
qed simp



end
