(* ===== verification/DictProps.thy ===== *)
theory DictProps
  imports DictTypes
begin

text \<open>
  The contract of a dictionary: every operation of \<^verbatim>\<open>dict.c\<close>, on any dictionary that
  satisfies the invariant and whose type satisfies the laws of \<open>dict_type\<close>, does on the
  concrete tables what a finite map does, and any sequence of operations that starts at
  \<^verbatim>\<open>dictCreate\<close> behaves like the same sequence on a map. The witnesses use a dictionary in
  the middle of a rehash.
\<close>

subsection \<open>The remaining operations\<close>

context dict_type
begin

lemma dictResize_ok:
  assumes inv: "dict_inv d" and t: "dtype d = t"
  obtains d' st where "dictResize cr d = Some (d', st)" "dict_inv d'" "same_content d d'"
proof -
  define m where "m = (if to_int32 (used (ht0 d)) < int DICT_HT_INITIAL_SIZE
    then int DICT_HT_INITIAL_SIZE else to_int32 (used (ht0 d)))"
  have "to_int32 (used (ht0 d)) < 2 ^ 31"
    unfolding to_int32_def using signed_take_bit_int_less_exp [of 31] by simp
  then have "nat m \<le> 2 ^ 60" by (auto simp: m_def DICT_HT_INITIAL_SIZE_def)
  from dictExpand_ok [OF inv t this] obtain d' st where
    "dictExpand d (nat m) = Some (d', st)" "dict_inv d'" "same_content d d'" by blast
  moreover have "dictResize cr d =
      (if \<not> cr \<or> dictIsRehashing d then Some (d, DICT_ERR) else dictExpand d (nat m))"
    by (simp add: dictResize_def Let_def m_def)
  ultimately show thesis using that [of d'] that [of d] inv
    by (cases "\<not> cr \<or> dictIsRehashing d") (auto simp: same_content_def)
qed

lemma dictEmpty_ok:
  assumes inv: "dict_inv d" and t: "dtype d = t"
  obtains d' evs where "dictEmpty d cb = Some (d', evs)" "dict_inv d'" "dict_entries d' = []"
    "dtype d' = t" "dictSize d' = 0" "iterators d' = 0" "\<not> dictIsRehashing d'"
    "filter (\<lambda>x. x \<noteq> Callback) evs = concat (map (dictFreeEntry t) (dict_entries d))"
proof -
  have "ht_wf t (ht0 d)" "ht_wf t (ht1 d)" using assms by (auto simp: dict_inv_def)
  then obtain e0 e1 where e: "dictClear t (ht0 d) cb = Some (dictReset, e0)"
      "dictClear t (ht1 d) cb = Some (dictReset, e1)"
      "filter (\<lambda>x. x \<noteq> Callback) e0 = concat (map (dictFreeEntry t) (ht_entries (ht0 d)))"
      "filter (\<lambda>x. x \<noteq> Callback) e1 = concat (map (dictFreeEntry t) (ht_entries (ht1 d)))"
    using dictClear_ok by metis
  let ?d = "d\<lparr>ht0 := dictReset, ht1 := dictReset, rehashidx := -1, iterators := 0\<rparr>"
  have "dictEmpty d cb = Some (?d, e0 @ e1)" using e t by (simp add: dictEmpty_def)
  moreover have "dict_inv ?d"
    using inv t by (simp add: dict_inv_def ht_wf_reset rehash_wf_def dictIsRehashing_def
      dict_entries_def ht_entries_def keys_differ_def addrs_ok_def, simp add: dictReset_def)
  ultimately show thesis
    using that [of ?d "e0 @ e1"] e t
    by (simp add: dict_entries_def dictSize_def dictReset_def ht_entries_def dictIsRehashing_def)
qed

end

subsection \<open>Sequences of operations\<close>

text \<open>
  A client of a dictionary: one value per call it can make. The state is the global flag
  \<^verbatim>\<open>dict_can_resize\<close> and the dictionary.
\<close>

datatype ('k, 'v) dict_op =
  OpAdd 'k 'v | OpReplace 'k 'v | OpFetch 'k | OpDelete 'k
| OpRehash nat | OpResize | OpEnableResize | OpDisableResize | OpEmpty

datatype 'v dict_res = RStatus dict_status | RAdded bool | RValue "'v option option" | RUnit

type_synonym ('k, 'v) dict_state = "bool \<times> ('k, 'v) dict"

fun dict_step :: "('k, 'v) dict_op \<Rightarrow> ('k, 'v) dict_state \<Rightarrow> (('k, 'v) dict_state \<times> 'v dict_res) option" where
  "dict_step (OpAdd k v) (cr, d) = do { (d', st) \<leftarrow> dictAdd cr d k v; Some ((cr, d'), RStatus st) }"
| "dict_step (OpReplace k v) (cr, d) =
     do { (d', r) \<leftarrow> dictReplace cr d k v; Some ((cr, d'), RAdded (fst r)) }"
| "dict_step (OpFetch k) (cr, d) = do { (d', v) \<leftarrow> dictFetchValue d k; Some ((cr, d'), RValue v) }"
| "dict_step (OpDelete k) (cr, d) =
     do { (d', r) \<leftarrow> dictDelete d k; Some ((cr, d'), RStatus (fst r)) }"
| "dict_step (OpRehash n) (cr, d) = do { (d', _) \<leftarrow> dictRehash d n; Some ((cr, d'), RUnit) }"
| "dict_step OpResize (cr, d) = do { (d', _) \<leftarrow> dictResize cr d; Some ((cr, d'), RUnit) }"
| "dict_step OpEnableResize (cr, d) = Some ((dictEnableResize cr, d), RUnit)"
| "dict_step OpDisableResize (cr, d) = Some ((dictDisableResize cr, d), RUnit)"
| "dict_step OpEmpty (cr, d) = do { (d', _) \<leftarrow> dictEmpty d False; Some ((cr, d'), RUnit) }"

fun dict_run :: "('k, 'v) dict_op list \<Rightarrow> ('k, 'v) dict_state \<Rightarrow>
    (('k, 'v) dict_state \<times> 'v dict_res list) option" where
  "dict_run [] s = Some (s, [])"
| "dict_run (op # ops) s =
     do { (s', r) \<leftarrow> dict_step op s; (s'', rs) \<leftarrow> dict_run ops s'; Some (s'', r # rs) }"

text \<open>The same calls on a finite map; rehashing and resizing do nothing.\<close>

fun map_step :: "('k, 'v) dictType \<Rightarrow> ('k, 'v) dict_op \<Rightarrow> ('k \<Rightarrow> 'v option option) \<Rightarrow>
    ('k \<Rightarrow> 'v option option) \<times> 'v dict_res" where
  "map_step t (OpAdd k v) m =
     (if m k = None then (map_put t k (dupVal t v) m, RStatus DICT_OK) else (m, RStatus DICT_ERR))"
| "map_step t (OpReplace k v) m = (map_put t k (dupVal t v) m, RAdded (m k = None))"
| "map_step t (OpFetch k) m = (m, RValue (m k))"
| "map_step t (OpDelete k) m =
     (if m k = None then (m, RStatus DICT_ERR) else (map_del t k m, RStatus DICT_OK))"
| "map_step t OpEmpty m = (\<lambda>_. None, RUnit)"
| "map_step t _ m = (m, RUnit)"

fun map_run :: "('k, 'v) dictType \<Rightarrow> ('k, 'v) dict_op list \<Rightarrow> ('k \<Rightarrow> 'v option option) \<Rightarrow>
    ('k \<Rightarrow> 'v option option) \<times> 'v dict_res list" where
  "map_run t [] m = (m, [])"
| "map_run t (op # ops) m =
     (let (m', r) = map_step t op m; (m'', rs) = map_run t ops m' in (m'', r # rs))"

definition step_refines :: "('k, 'v) dictType \<Rightarrow> ('k, 'v) dict_op \<Rightarrow> bool \<Rightarrow> ('k, 'v) dict \<Rightarrow> bool" where
  "step_refines t op cr d \<longleftrightarrow>
     (\<exists>cr' d' r. dict_step op (cr, d) = Some ((cr', d'), r) \<and> dict_inv d' \<and> dtype d' = t \<and>
        dictSize d' \<le> Suc (dictSize d) \<and> map_step t op (dict_map d) = (dict_map d', r))"

context dict_type
begin

lemma same_content_facts:
  assumes "dict_inv d" "dtype d = t" "dict_inv d'" "same_content d d'"
  shows "dict_map d' = dict_map d" "dtype d' = t" "dictSize d' \<le> Suc (dictSize d)"
  using same_content_map [OF assms(1,2,4)] same_content_size [OF assms(1,3,4)] assms
  by (auto simp: same_content_def)

lemma dict_step_add:
  assumes "dict_inv d" "dtype d = t" "dictSize d \<le> 2 ^ 59"
  shows "step_refines t (OpAdd k v) cr d"
  using assms
proof (cases rule: dictAdd_ok [where cr = cr and k = k and v = v])
  case (exists d')
  with same_content_facts [OF assms(1,2) exists(2,3)] show ?thesis
    by (auto simp: step_refines_def)
qed (auto simp: step_refines_def)

lemma dict_step_replace:
  assumes "dict_inv d" "dtype d = t" "dictSize d \<le> 2 ^ 59"
  shows "step_refines t (OpReplace k v) cr d"
proof -
  obtain d' evs where d': "dictReplace cr d k v = Some (d', dict_map d k = None, evs)" "dict_inv d'"
    "dtype d' = t" "dict_map d' = map_put t k (dupVal t v) (dict_map d)" "dictSize d' \<le> Suc (dictSize d)"
    using dictReplace_ok [OF assms, of cr k v] by (metis eq_imp_le le_SucI)
  then show ?thesis by (simp add: step_refines_def)
qed

lemma dict_step_fetch:
  assumes "dict_inv d" "dtype d = t"
  shows "step_refines t (OpFetch k) cr d"
proof -
  obtain d' where d': "dictFetchValue d k = Some (d', dict_map d k)" "dict_inv d'" "same_content d d'"
    using dictFetchValue_ok [OF assms] by blast
  with same_content_facts [OF assms d'(2,3)] show ?thesis by (simp add: step_refines_def)
qed

lemma dict_step_delete:
  assumes "dict_inv d" "dtype d = t"
  shows "step_refines t (OpDelete k) cr d"
  using assms
proof (cases rule: dictGenericDelete_ok [where k = k and nofree = False])
  case (absent d')
  with same_content_facts [OF assms absent(2,4)] show ?thesis
    by (simp add: step_refines_def dictDelete_def)
next
  case (deleted d' e)
  then have "Suc (dictSize d') = dictSize d"
    using assms dict_size_entries by (metis size_add_mset size_mset)
  with deleted show ?thesis by (simp add: step_refines_def dictDelete_def)
qed

lemma dict_step_rehash:
  assumes "dict_inv d" "dtype d = t"
  shows "step_refines t (OpRehash n) cr d"
proof -
  obtain d' b where d': "dictRehash d n = Some (d', b)" "dict_inv d'" "same_content d d'"
    using dictRehash_ok [OF assms] by blast
  with same_content_facts [OF assms d'(2,3)] show ?thesis by (simp add: step_refines_def)
qed

lemma dict_step_resize:
  assumes "dict_inv d" "dtype d = t"
  shows "step_refines t OpResize cr d"
proof -
  obtain d' st where d': "dictResize cr d = Some (d', st)" "dict_inv d'" "same_content d d'"
    using dictResize_ok [OF assms] by blast
  with same_content_facts [OF assms d'(2,3)] show ?thesis by (simp add: step_refines_def)
qed

lemma dict_step_empty:
  assumes "dict_inv d" "dtype d = t"
  shows "step_refines t OpEmpty cr d"
proof -
  obtain d' evs where d': "dictEmpty d False = Some (d', evs)" "dict_inv d'" "dict_entries d' = []"
      "dtype d' = t" "dictSize d' = 0"
    using dictEmpty_ok [OF assms] by blast
  then show ?thesis by (simp add: step_refines_def dict_map_def fun_eq_iff)
qed

lemma dict_step_refines:
  assumes "dict_inv d" "dtype d = t" "dictSize d \<le> 2 ^ 59"
  shows "step_refines t op cr d"
  using assms by (cases op) (simp_all add: dict_step_add dict_step_replace dict_step_fetch
    dict_step_delete dict_step_rehash dict_step_resize dict_step_empty, simp_all add: step_refines_def)

lemma dict_run_refines:
  assumes "dict_inv d" "dtype d = t" "dictSize d + length ops \<le> 2 ^ 59"
  shows "\<exists>cr' d' rs. dict_run ops (cr, d) = Some ((cr', d'), rs) \<and> dict_inv d' \<and> dtype d' = t \<and>
    map_run t ops (dict_map d) = (dict_map d', rs)"
  using assms
proof (induction ops arbitrary: cr d)
  case (Cons op ops)
  then have "step_refines t op cr d" by (intro dict_step_refines) auto
  then obtain cr1 d1 r where d1: "dict_step op (cr, d) = Some ((cr1, d1), r)" "dict_inv d1"
      "dtype d1 = t" "dictSize d1 \<le> Suc (dictSize d)" "map_step t op (dict_map d) = (dict_map d1, r)"
    by (auto simp: step_refines_def)
  then have "dictSize d1 + length ops \<le> 2 ^ 59" using Cons.prems(3) by simp
  from Cons.IH [OF d1(2,3) this, of cr1] d1 show ?case by auto
qed auto

end

lemma dict_map_create: "dict_map (dictCreate t) = (\<lambda>_. None)"
  by (auto simp: dict_map_def dictCreate_def dictInit_def dict_entries_def ht_entries_def dictReset_def)

lemma dictSize_create: "dictSize (dictCreate t) = 0"
  by (simp add: dictSize_def dictCreate_def dictInit_def dictReset_def)



context dict_type
begin

lemma dictAdd_spec:
  assumes "dict_inv d" "dtype d = t" "dictSize d \<le> 2 ^ 59"
  shows "\<exists>d'. dictAdd cr d k v = Some (d', if dict_map d k = None then DICT_OK else DICT_ERR) \<and>
    dict_inv d' \<and> dtype d' = t \<and> iterators d' = iterators d \<and>
    dictSize d' = (if dict_map d k = None then dictSize d + 1 else dictSize d) \<and>
    dict_map d' = (if dict_map d k = None then map_put t k (dupVal t v) (dict_map d) else dict_map d)"
  using assms
proof (cases rule: dictAdd_ok [where cr = cr and k = k and v = v])
  case (exists d')
  with same_content_map [OF assms(1,2) exists(3)] same_content_size [OF assms(1) exists(2,3)] assms(2)
  show ?thesis by (auto simp: same_content_def)
next
  case (added d')
  then show ?thesis by (intro exI [of _ d']) simp
qed

lemma dictGenericDelete_spec:
  assumes "dict_inv d" "dtype d = t"
  shows "\<exists>d' st evs. dictGenericDelete d k nofree = Some (d', st, evs) \<and> dict_inv d' \<and>
    dict_map d' = map_del t k (dict_map d) \<and>
    (case dict_map d k of
       None \<Rightarrow> st = DICT_ERR \<and> evs = [] \<and> mset (dict_entries d') = mset (dict_entries d)
     | Some v \<Rightarrow> st = DICT_OK \<and> (\<exists>e. e \<in> set (dict_entries d) \<and> de_val e = v \<and>
         dictCompareKeys t k (de_key e) \<and> evs = (if nofree then [] else dictFreeEntry t e) \<and>
         add_mset e (mset (dict_entries d')) = mset (dict_entries d)))"
  using assms
proof (cases rule: dictGenericDelete_ok [where k = k and nofree = nofree])
  case (absent d')
  have "map_del t k (dict_map d) = dict_map d"
    using map_del_none [OF assms absent(3)] .
  with absent same_content_map [OF assms absent(4)] show ?thesis by (simp add: same_content_def)
next
  case (deleted d' e)
  then show ?thesis by (intro exI [of _ d']) auto
qed

end

subsection \<open>A dictionary in the middle of a rehash\<close>

text \<open>
  Four integer keys hashed by \<^verbatim>\<open>dictIdentityHashFunction\<close>: a table of size 4 whose first bucket
  has moved to the table of size 8.
\<close>

definition idDictType :: "(uint32, nat) dictType" where
  "idDictType = \<lparr>hashFunction = dictIdentityHashFunction, keyDup = None, valDup = None,
     keyCompare = None, keyDestructor = True, valDestructor = True\<rparr>"

definition ex_dict :: "(uint32, nat) dict" where
  "ex_dict = \<lparr>dtype = idDictType,
     ht0 = \<lparr>table_addr = 1,
            table = [[], [\<lparr>de_addr = 2, de_key = 5, de_val = Some 50\<rparr>,
                          \<lparr>de_addr = 3, de_key = 1, de_val = Some 10\<rparr>],
                     [\<lparr>de_addr = 4, de_key = 6, de_val = Some 60\<rparr>], []],
            ht_size = 4, sizemask = 3, used = 3\<rparr>,
     ht1 = \<lparr>table_addr = 5,
            table = [[], [], [], [], [\<lparr>de_addr = 6, de_key = 4, de_val = Some 40\<rparr>], [], [], []],
            ht_size = 8, sizemask = 7, used = 1\<rparr>,
     rehashidx = 1, iterators = 0, next_addr = 7\<rparr>"

interpretation ids: dict_type idDictType
  by unfold_locales (auto simp: dictType_defs idDictType_def)

lemma dtype_ex_dict: "dtype ex_dict = idDictType"
  by (simp add: ex_dict_def)

lemma dictSize_ex_dict: "dictSize ex_dict = 4"
  by (simp add: ex_dict_def dictSize_def)

lemma dict_inv_ex_dict: "dict_inv ex_dict"
proof -
  have t: "dtype ex_dict = idDictType" by (simp add: ex_dict_def)
  have "\<exists>k \<ge> 2. k < 61 \<and> (4 :: nat) = 2 ^ k" by (intro exI [of _ 2]) simp
  then have "ht_wf idDictType (ht0 ex_dict)"
    by (auto simp: ex_dict_def ht_wf_def ht_entries_def dictHashKey_def idDictType_def
      dictIdentityHashFunction_def less_Suc_eq)
  moreover have "\<exists>k \<ge> 2. k < 61 \<and> (8 :: nat) = 2 ^ k" by (intro exI [of _ 3]) simp
  then have "ht_wf idDictType (ht1 ex_dict)"
    by (auto simp: ex_dict_def ht_wf_def ht_entries_def dictHashKey_def idDictType_def
      dictIdentityHashFunction_def less_Suc_eq)
  moreover have "rehash_wf ex_dict"
    by (simp add: ex_dict_def rehash_wf_def dictIsRehashing_def)
  moreover have "keys_differ idDictType (dict_entries ex_dict)"
    by (simp add: ex_dict_def keys_differ_def dict_entries_def ht_entries_def dictCompareKeys_def
      idDictType_def)
  moreover have "addrs_ok 7 (dict_entries ex_dict)"
    by (simp add: ex_dict_def addrs_ok_def dict_entries_def ht_entries_def)
  ultimately show ?thesis by (simp add: dict_inv_def t, simp add: ex_dict_def)
qed

lemmas ex_dict_facts = ids.dict_type_axioms dict_inv_ex_dict dtype_ex_dict dictSize_ex_dict

subsection \<open>Single operations\<close>

text \<open>
  \<^verbatim>\<open>dictAdd\<close> on any well-formed dictionary, also while it rehashes: it fails with
  \<^verbatim>\<open>DICT_ERR\<close> exactly when a key that compares equal is present and then leaves the contents as
  they are; otherwise the new contents are the old ones with the one key added, and the number
  of entries grows by one.
\<close>

theorem dictAdd_correct:
  assumes "dict_type (dtype d)" "dict_inv d" "dictSize d \<le> 2 ^ 59"
  shows "\<exists>d'. dictAdd cr d k v = Some (d', if dict_map d k = None then DICT_OK else DICT_ERR) \<and>
    dict_inv d' \<and> dtype d' = dtype d \<and> iterators d' = iterators d \<and>
    dictSize d' = (if dict_map d k = None then dictSize d + 1 else dictSize d) \<and>
    dict_map d' = (if dict_map d k = None then map_put (dtype d) k (dupVal (dtype d) v) (dict_map d)
                   else dict_map d)"
  by (rule dict_type.dictAdd_spec [OF assms(1,2) refl assms(3)])

theorem dictAdd_correct_witness:
  "\<exists>d'. dictAdd True ex_dict 9 90 =
       Some (d', if dict_map ex_dict 9 = None then DICT_OK else DICT_ERR) \<and>
     dict_inv d' \<and> dtype d' = dtype ex_dict \<and> iterators d' = iterators ex_dict \<and>
     dictSize d' = (if dict_map ex_dict 9 = None then dictSize ex_dict + 1 else dictSize ex_dict) \<and>
     dict_map d' = (if dict_map ex_dict 9 = None
       then map_put (dtype ex_dict) 9 (dupVal (dtype ex_dict) 90) (dict_map ex_dict)
       else dict_map ex_dict)"
  by (rule dictAdd_correct) (simp_all add: ex_dict_facts)

text \<open>
  \<^verbatim>\<open>dictFind\<close> never misses and never invents: on any well-formed dictionary it returns
  null exactly when the key is absent, and otherwise the address of the entry with that key, in
  whichever of the two tables it is; the rehash step it takes does not change the contents.
\<close>

theorem dictFind_correct:
  assumes "dict_type (dtype d)" "dict_inv d"
  shows "\<exists>d' r. dictFind d k = Some (d', r) \<and> dict_inv d' \<and> dict_map d' = dict_map d \<and>
    (case r of
       None \<Rightarrow> dict_map d k = None
     | Some a \<Rightarrow> \<exists>e. entry_at d' a = Some e \<and> dictCompareKeys (dtype d) k (de_key e) \<and>
         dict_map d k = Some (de_val e))"
proof -
  obtain d' r where r: "dictFind d k = Some (d', r)" "dict_inv d'" "same_content d d'"
    "case r of None \<Rightarrow> dict_map d k = None
     | Some a \<Rightarrow> \<exists>e \<in> set (dict_entries d'). de_addr e = a \<and> dictCompareKeys (dtype d) k (de_key e) \<and>
         dict_map d k = Some (de_val e)"
    using dict_type.dictFind_ok [OF assms refl] by blast
  have "entry_at d' (de_addr e) = Some e" if "e \<in> set (dict_entries d')" for e
    using dict_type.find_entry_at [OF assms(1) r(2) that] .
  with r dict_type.same_content_map [OF assms refl r(3)] show ?thesis
    by (fastforce split: option.splits)
qed

theorem dictFind_correct_witness:
  "\<exists>d' r. dictFind ex_dict 4 = Some (d', r) \<and> dict_inv d' \<and> dict_map d' = dict_map ex_dict \<and>
    (case r of
       None \<Rightarrow> dict_map ex_dict 4 = None
     | Some a \<Rightarrow> \<exists>e. entry_at d' a = Some e \<and> dictCompareKeys (dtype ex_dict) 4 (de_key e) \<and>
         dict_map ex_dict 4 = Some (de_val e))"
  by (rule dictFind_correct) (simp_all add: ex_dict_facts)

text \<open>
  \<^verbatim>\<open>dictReplace\<close> always stores the new value, reports whether the key is new, and frees
  exactly the value it overwrites.
\<close>

theorem dictReplace_correct:
  assumes "dict_type (dtype d)" "dict_inv d" "dictSize d \<le> 2 ^ 59"
  shows "\<exists>d'. dictReplace cr d k v = Some (d', dict_map d k = None,
      case dict_map d k of None \<Rightarrow> []
      | Some old \<Rightarrow> if valDestructor (dtype d) then [FreeVal old] else []) \<and>
    dict_inv d' \<and> dict_map d' = map_put (dtype d) k (dupVal (dtype d) v) (dict_map d) \<and>
    dictSize d' = (if dict_map d k = None then dictSize d + 1 else dictSize d)"
  by (rule dict_type.dictReplace_ok [OF assms(1,2) refl assms(3), of cr k v])
    (intro exI conjI, assumption+, simp)

theorem dictReplace_correct_witness:
  "\<exists>d'. dictReplace False ex_dict 5 51 = Some (d', dict_map ex_dict 5 = None,
      case dict_map ex_dict 5 of None \<Rightarrow> []
      | Some old \<Rightarrow> if valDestructor (dtype ex_dict) then [FreeVal old] else []) \<and>
    dict_inv d' \<and> dict_map d' = map_put (dtype ex_dict) 5 (dupVal (dtype ex_dict) 51) (dict_map ex_dict) \<and>
    dictSize d' = (if dict_map ex_dict 5 = None then dictSize ex_dict + 1 else dictSize ex_dict)"
  by (rule dictReplace_correct) (simp_all add: ex_dict_facts)



text \<open>
  \<^verbatim>\<open>dictEmpty\<close> frees every key and every value exactly once, in table order, whatever
  the progress callback does, and leaves an empty dictionary that is not rehashing.
\<close>

theorem dictEmpty_correct:
  assumes "dict_type (dtype d)" "dict_inv d"
  shows "\<exists>d' evs. dictEmpty d cb = Some (d', evs) \<and> dict_inv d' \<and> dict_entries d' = [] \<and>
    dictSize d' = 0 \<and> \<not> dictIsRehashing d' \<and>
    filter (\<lambda>x. x \<noteq> Callback) evs = concat (map (dictFreeEntry (dtype d)) (dict_entries d))"
  by (rule dict_type.dictEmpty_ok [OF assms refl, of cb]) (intro exI conjI)

theorem dictEmpty_correct_witness:
  "\<exists>d' evs. dictEmpty ex_dict True = Some (d', evs) \<and> dict_inv d' \<and> dict_entries d' = [] \<and>
    dictSize d' = 0 \<and> \<not> dictIsRehashing d' \<and>
    filter (\<lambda>x. x \<noteq> Callback) evs = concat (map (dictFreeEntry (dtype ex_dict)) (dict_entries ex_dict))"
  by (rule dictEmpty_correct) (simp_all add: ex_dict_facts)





end
