(* ===== verification/DictScan.thy ===== *)
theory DictScan
  imports DictProps
begin

text \<open>
  The stateless iteration \<^verbatim>\<open>dictScan\<close> of \<^verbatim>\<open>dict.c\<close>, with the bit reversal of its cursor. The
  callback is the list of the entries it is called with. The loop over the expansions of the
  cursor is a partial function, shown to return.
\<close>

subsection \<open>The model\<close>

text \<open>\<^verbatim>\<open>rev\<close>: the loop halves \<^verbatim>\<open>s\<close> first and stops at zero.\<close>

function rev_loop :: "nat \<Rightarrow> uint64 \<Rightarrow> uint64 \<Rightarrow> uint64" where
  "rev_loop s msk v =
     (let s = s div 2
      in if s > 0 then
           let msk = msk XOR push_bit s msk;
               v = (drop_bit s v AND msk) OR (push_bit s v AND NOT msk)
           in rev_loop s msk v
         else v)"
  by pat_completeness auto
termination
  by (relation "measure (\<lambda>(s, msk, v). s)") auto

declare rev_loop.simps [simp del]

definition rev_bits :: "uint64 \<Rightarrow> uint64" where
  "rev_bits v = rev_loop 64 (NOT 0) v"

text \<open>The do-while loop over the buckets of the larger table.\<close>

partial_function (option) scan_expand ::
  "('k, 'v) dictht \<Rightarrow> uint64 \<Rightarrow> uint64 \<Rightarrow> uint64 \<Rightarrow> ('k, 'v) dictEntry list \<Rightarrow>
     (('k, 'v) dictEntry list \<times> uint64) option" where
  "scan_expand t1 m0 m1 v acc =
     Option.bind (arr_get (table t1) (unat (v AND m1))) (\<lambda>chain.
       let v = (((v OR m0) + 1) AND NOT m0) OR (v AND m0)
       in if v AND (m0 XOR m1) \<noteq> 0 then scan_expand t1 m0 m1 v (acc @ chain)
          else Some (acc @ chain, v))"

declare scan_expand.simps [code]

text \<open>The advance of the cursor at the end of a call.\<close>

definition scan_advance :: "uint64 \<Rightarrow> uint64 \<Rightarrow> uint64" where
  "scan_advance m0 v =
     (let v = v OR NOT m0;
          v = rev_bits v;
          v = v + 1
      in rev_bits v)"

definition dictScan :: "('k, 'v) dict \<Rightarrow> uint64 \<Rightarrow> (('k, 'v) dictEntry list \<times> uint64) option" where
  "dictScan d v =
     (if dictSize d = 0 then Some ([], 0)
      else if \<not> dictIsRehashing d then
        (let t0 = ht0 d; m0 = word_of_nat (sizemask t0)
         in do {
              chain \<leftarrow> arr_get (table t0) (unat (v AND m0));
              Some (chain, scan_advance m0 v)
            })
      else
        (let (t0, t1) = (if ht_size (ht0 d) > ht_size (ht1 d) then (ht1 d, ht0 d) else (ht0 d, ht1 d));
             m0 = word_of_nat (sizemask t0); m1 = word_of_nat (sizemask t1)
         in do {
              chain \<leftarrow> arr_get (table t0) (unat (v AND m0));
              (es, v) \<leftarrow> scan_expand t1 m0 m1 v chain;
              Some (es, scan_advance m0 v)
            }))"

text \<open>
  A sequence of calls, each on the dictionary as it is at that time, with the cursor handed from
  one call to the next: all entries returned and the last cursor.
\<close>

fun scan_calls :: "('k, 'v) dict list \<Rightarrow> uint64 \<Rightarrow> (('k, 'v) dictEntry list \<times> uint64) option" where
  "scan_calls [] v = Some ([], v)"
| "scan_calls (d # ds) v =
     do {
       (es, v) \<leftarrow> dictScan d v;
       (es', v) \<leftarrow> scan_calls ds v;
       Some (es @ es', v)
     }"

subsection \<open>Bit reversal\<close>

definition rev_step :: "nat \<Rightarrow> uint64 \<Rightarrow> uint64 \<Rightarrow> uint64" where
  "rev_step s msk v = (drop_bit s v AND msk) OR (push_bit s v AND NOT msk)"

lemma rev_loop_step:
  "s = 2 * s' \<Longrightarrow> 0 < s' \<Longrightarrow> msk XOR push_bit s' msk = msk' \<Longrightarrow>
   rev_loop s msk v = rev_loop s' msk' (rev_step s' msk' v)"
  by (subst rev_loop.simps) (simp add: Let_def rev_step_def)

lemma rev_loop_1: "rev_loop 1 msk v = v"
  by (subst rev_loop.simps) simp

lemma rev_msk_steps:
  "(NOT 0 :: uint64) XOR push_bit 32 (NOT 0) = 0x00000000FFFFFFFF"
  "(0x00000000FFFFFFFF :: uint64) XOR push_bit 16 0x00000000FFFFFFFF = 0x0000FFFF0000FFFF"
  "(0x0000FFFF0000FFFF :: uint64) XOR push_bit 8 0x0000FFFF0000FFFF = 0x00FF00FF00FF00FF"
  "(0x00FF00FF00FF00FF :: uint64) XOR push_bit 4 0x00FF00FF00FF00FF = 0x0F0F0F0F0F0F0F0F"
  "(0x0F0F0F0F0F0F0F0F :: uint64) XOR push_bit 2 0x0F0F0F0F0F0F0F0F = 0x3333333333333333"
  "(0x3333333333333333 :: uint64) XOR push_bit 1 0x3333333333333333 = 0x5555555555555555"
  by code_simp+

lemma rev_bits_steps:
  "rev_bits v = rev_step 1 0x5555555555555555 (rev_step 2 0x3333333333333333
     (rev_step 4 0x0F0F0F0F0F0F0F0F (rev_step 8 0x00FF00FF00FF00FF
     (rev_step 16 0x0000FFFF0000FFFF (rev_step 32 0x00000000FFFFFFFF v)))))"
proof -
  have "rev_bits v = rev_loop 1 0x5555555555555555 (rev_step 1 0x5555555555555555 (rev_step 2 0x3333333333333333
     (rev_step 4 0x0F0F0F0F0F0F0F0F (rev_step 8 0x00FF00FF00FF00FF
     (rev_step 16 0x0000FFFF0000FFFF (rev_step 32 0x00000000FFFFFFFF v))))))"
    unfolding rev_bits_def
    by (simp only: rev_loop_step [OF _ _ rev_msk_steps(1)] rev_loop_step [OF _ _ rev_msk_steps(2)]
      rev_loop_step [OF _ _ rev_msk_steps(3)] rev_loop_step [OF _ _ rev_msk_steps(4)]
      rev_loop_step [OF _ _ rev_msk_steps(5)] rev_loop_step [OF _ _ rev_msk_steps(6)])
  then show ?thesis by (simp only: rev_loop_1)
qed

definition flip_index :: "nat \<Rightarrow> nat \<Rightarrow> nat" where
  "flip_index s n = (if even (n div s) then n + s else n - s)"

lemma bit_rev_step:
  assumes "n < 64" "bit msk n \<longleftrightarrow> even (n div s)"
  shows "bit (rev_step s msk v) n \<longleftrightarrow> bit v (flip_index s n)"
proof (cases "even (n div s)")
  case True
  then show ?thesis using assms by (simp add: rev_step_def flip_index_def bit_simps add.commute)
next
  case False
  then have "s \<le> n" by (cases "n < s") auto
  then show ?thesis using assms False by (simp add: rev_step_def flip_index_def bit_simps)
qed

lemma all_less_64: "(\<forall>n < 64. P n) \<longleftrightarrow> list_all P [0..<64]" for P :: "nat \<Rightarrow> bool"
  by (auto simp: list_all_iff)

lemma rev_masks:
  "\<forall>n < 64. bit (0x00000000FFFFFFFF :: uint64) n \<longleftrightarrow> even (n div 32)"
  "\<forall>n < 64. bit (0x0000FFFF0000FFFF :: uint64) n \<longleftrightarrow> even (n div 16)"
  "\<forall>n < 64. bit (0x00FF00FF00FF00FF :: uint64) n \<longleftrightarrow> even (n div 8)"
  "\<forall>n < 64. bit (0x0F0F0F0F0F0F0F0F :: uint64) n \<longleftrightarrow> even (n div 4)"
  "\<forall>n < 64. bit (0x3333333333333333 :: uint64) n \<longleftrightarrow> even (n div 2)"
  "\<forall>n < 64. bit (0x5555555555555555 :: uint64) n \<longleftrightarrow> even (n div 1)"
  unfolding all_less_64 by code_simp+

lemma flip_indices:
  "\<forall>n < 64. flip_index 1 n < 64 \<and> flip_index 2 (flip_index 1 n) < 64 \<and>
     flip_index 4 (flip_index 2 (flip_index 1 n)) < 64 \<and>
     flip_index 8 (flip_index 4 (flip_index 2 (flip_index 1 n))) < 64 \<and>
     flip_index 16 (flip_index 8 (flip_index 4 (flip_index 2 (flip_index 1 n)))) < 64 \<and>
     flip_index 32 (flip_index 16 (flip_index 8 (flip_index 4 (flip_index 2 (flip_index 1 n))))) = 63 - n"
  unfolding all_less_64 by code_simp

lemma bit_rev_bits: "n < 64 \<Longrightarrow> bit (rev_bits v) n \<longleftrightarrow> bit v (63 - n)"
  using flip_indices rev_masks by (simp add: rev_bits_steps bit_rev_step)

lemma bit_rev_bits_iff: "bit (rev_bits v) n \<longleftrightarrow> n < 64 \<and> bit v (63 - n)"
  using bit_rev_bits [of n v] bit_imp_le_length [of "rev_bits v" n] by auto

lemma rev_bits_rev_bits [simp]: "rev_bits (rev_bits v) = v"
  by (rule bit_word_eqI) (simp add: bit_rev_bits)

subsection \<open>The order of the cursors\<close>

text \<open>
  Read from its most significant end, a cursor is a position in \<open>0 \<dots> 2 ^ 64\<close>. The buckets of a
  table of size \<open>2 ^ a\<close> split that range into blocks of \<open>2 ^ (64 - a)\<close> positions, whatever the
  size, and a call moves the cursor to the start of the next block.
\<close>

definition cursor_pos :: "uint64 \<Rightarrow> nat" where
  "cursor_pos v = unat (rev_bits v)"

definition cursor_block :: "nat \<Rightarrow> uint64 \<Rightarrow> nat" where
  "cursor_block a v = cursor_pos v div 2 ^ (64 - a)"

lemma cursor_pos_less: "cursor_pos v < 2 ^ 64"
  unfolding cursor_pos_def by (rule order_less_le_trans [OF unsigned_less]) simp

lemma rev_bits_0 [simp]: "rev_bits 0 = 0"
  by (rule bit_word_eqI) (simp add: bit_rev_bits)

lemma cursor_pos_0_iff [simp]: "cursor_pos v = 0 \<longleftrightarrow> v = 0"
  by (metis cursor_pos_def rev_bits_0 rev_bits_rev_bits unsigned_0 unsigned_eq_0_iff)

lemma take_bit_rev:
  assumes "a \<le> 64"
  shows "take_bit a v = take_bit a w \<longleftrightarrow> drop_bit (64 - a) (rev_bits v) = drop_bit (64 - a) (rev_bits w)"
proof
  assume eq: "take_bit a v = take_bit a w"
  have "bit v (a - Suc n) = bit w (a - Suc n)" if "n < a" for n
    using arg_cong [OF eq, of "\<lambda>x. bit x (a - Suc n)"] that by (simp add: bit_simps)
  then show "drop_bit (64 - a) (rev_bits v) = drop_bit (64 - a) (rev_bits w)"
    using assms by (intro bit_word_eqI) (auto simp: bit_simps bit_rev_bits_iff)
next
  assume eq: "drop_bit (64 - a) (rev_bits v) = drop_bit (64 - a) (rev_bits w)"
  have "bit v n = bit w n" if "n < a" for n
    using arg_cong [OF eq, of "\<lambda>x. bit x (a - Suc n)"] that assms
    by (auto simp: bit_simps bit_rev_bits)
  then show "take_bit a v = take_bit a w"
    by (intro bit_word_eqI) (auto simp: bit_simps)
qed

lemma same_block:
  assumes "a \<le> 64"
  shows "cursor_block a v = cursor_block a w \<longleftrightarrow> unat v mod 2 ^ a = unat w mod 2 ^ a"
proof -
  have "cursor_block a v = unat (drop_bit (64 - a) (rev_bits v))" for v
    by (simp only: cursor_block_def cursor_pos_def unat_drop_bit_eq drop_bit_eq_div [where 'a = nat])
  moreover have "unat v mod 2 ^ a = unat (take_bit a v)" for v :: uint64
    by (simp only: unsigned_take_bit_eq take_bit_eq_mod [where 'a = nat])
  ultimately show ?thesis using take_bit_rev [OF assms, of v w] by (simp only: word_unat_eq_iff [symmetric])
qed

lemma rev_or_not_mask:
  assumes "a \<le> 64"
  shows "rev_bits (v OR NOT (mask a)) = rev_bits v OR mask (64 - a)"
  using assms by (intro bit_word_eqI) (auto simp: bit_rev_bits bit_simps)

lemma nat_or_mask: "(x :: nat) OR mask n = x div 2 ^ n * 2 ^ n + mask n"
proof -
  have "x OR mask n = push_bit n (drop_bit n x) OR mask n"
    by (rule bit_eqI) (auto simp: bit_simps)
  also have "\<dots> = push_bit n (drop_bit n x) + mask n"
    by (rule disjunctive_add_eq_or [symmetric]) (rule bit_eqI, auto simp: bit_simps)
  finally show ?thesis by (simp add: push_bit_eq_mult drop_bit_eq_div)
qed

lemma cursor_advance:
  assumes "a \<le> 64"
  shows "cursor_pos (scan_advance (mask a) v) = (cursor_block a v + 1) * 2 ^ (64 - a) mod 2 ^ 64"
proof -
  have "cursor_pos (scan_advance (mask a) v) = unat ((rev_bits v OR mask (64 - a)) + 1)"
    by (simp add: scan_advance_def Let_def cursor_pos_def rev_or_not_mask [OF assms])
  also have "\<dots> = (unat (rev_bits v OR mask (64 - a)) + 1) mod 2 ^ 64"
    by (simp add: unat_word_ariths)
  also have "unat (rev_bits v OR mask (64 - a)) = unat (rev_bits v) OR mask (64 - a)"
    by (rule bit_eqI) (auto simp: bit_simps)
  also have "(unat (rev_bits v) OR mask (64 - a)) + 1 = (cursor_block a v + 1) * 2 ^ (64 - a)"
    unfolding nat_or_mask cursor_block_def cursor_pos_def by (simp add: mask_eq_exp_minus_1)
  finally show ?thesis .
qed

lemma low_bit_zero: "take_bit a x = 0 \<Longrightarrow> n < a \<Longrightarrow> \<not> bit x n" for x :: uint64
  by (metis bit_0_eq bit_take_bit_iff bot_apply bot_bool_def)

lemma mask_plus_1: "mask a + 1 = (2 ^ a :: uint64)"
  by (simp add: mask_eq_exp_minus_1)

lemma cursor_pos_eq: "cursor_pos v = cursor_block a v * 2 ^ (64 - a) + cursor_pos v mod 2 ^ (64 - a)"
  by (simp only: cursor_block_def div_mult_mod_eq)

text \<open>The cursor a call returns addresses the start of a block.\<close>

lemma cursor_advance_aligned:
  assumes "a \<le> 64" "a \<le> b"
  shows "scan_advance (mask a) v AND NOT (mask b) = 0"
proof -
  have "take_bit (64 - a) (rev_bits (scan_advance (mask a) v)) = 0"
  proof -
    have "unat (take_bit (64 - a) (rev_bits (scan_advance (mask a) v))) =
        (cursor_block a v + 1) * 2 ^ (64 - a) mod 2 ^ 64 mod 2 ^ (64 - a)"
      by (simp only: unsigned_take_bit_eq take_bit_eq_mod [where 'a = nat] cursor_pos_def [symmetric]
        cursor_advance [OF assms(1)])
    also have "\<dots> = (cursor_block a v + 1) * 2 ^ (64 - a) mod 2 ^ (64 - a)"
      by (rule mod_mod_cancel) (simp only: le_imp_power_dvd diff_le_self)
    also have "\<dots> = 0" by (rule mod_mult_self2_is_0)
    finally show ?thesis by (simp only: unat_eq_zero)
  qed
  then have "\<not> bit (scan_advance (mask a) v) n" if "a \<le> n" "n < 64" for n
    using low_bit_zero [of "64 - a" "rev_bits (scan_advance (mask a) v)" "63 - n"] that
    by (auto simp: bit_rev_bits_iff)
  then have "\<not> bit (scan_advance (mask a) v) n" if "b \<le> n" "n < 64" for n
    using that assms(2) by simp
  then show ?thesis
    by (intro bit_word_eqI) (auto simp: bit_simps not_less [symmetric])
qed

subsection \<open>The expansions of a cursor\<close>

lemma unat_take_bit: "unat (take_bit a v) = unat v mod 2 ^ a" for v :: uint64
  by (simp only: unsigned_take_bit_eq take_bit_eq_mod [where 'a = nat])

lemma unat_power2: "a < 64 \<Longrightarrow> unat (2 ^ a :: uint64) = 2 ^ a"
  using unat_of_nat [of "2 ^ a", where 'a = 64] power_strict_increasing [of a 64 "2 :: nat"] by simp

lemma unat_add_pow2_mod:
  fixes v :: uint64
  assumes "b \<le> 64" "a < 64"
  shows "unat (v + 2 ^ a) mod 2 ^ b = (unat v + 2 ^ a) mod 2 ^ b"
proof -
  have "unat (v + 2 ^ a) mod 2 ^ b = (unat v + unat (2 ^ a :: uint64)) mod 2 ^ 64 mod 2 ^ b"
    by (simp add: unat_word_ariths)
  also have "\<dots> = (unat v + unat (2 ^ a :: uint64)) mod 2 ^ b"
    using assms(1) by (intro mod_mod_cancel le_imp_power_dvd)
  also have "unat (2 ^ a :: uint64) = 2 ^ a"
    using assms(2) by (rule unat_power2)
  finally show ?thesis .
qed

lemma expand_step:
  fixes v :: uint64
  assumes "a < 64"
  shows "(((v OR mask a) + 1) AND NOT (mask a)) OR (v AND mask a) = v + 2 ^ a"
proof -
  have or: "v OR mask a = (v AND NOT (mask a)) + mask a"
    by (subst disjunctive_add_eq_or) (auto simp: bit_simps intro!: bit_word_eqI)
  have low: "(v AND NOT (mask a)) + 2 ^ a = ((v AND NOT (mask a)) + 2 ^ a) AND NOT (mask a)"
  proof -
    have "unat (take_bit a ((v AND NOT (mask a)) + 2 ^ a)) = unat (take_bit a (v AND NOT (mask a)))"
      by (simp only: unat_take_bit unat_add_pow2_mod [OF less_imp_le [OF assms] assms] mod_add_self2)
    also have "take_bit a (v AND NOT (mask a)) = 0"
      by (rule bit_word_eqI) (auto simp: bit_simps)
    finally have "take_bit a ((v AND NOT (mask a)) + 2 ^ a) = 0" by (simp add: unat_eq_zero)
    from low_bit_zero [OF this] show ?thesis
      by (intro bit_word_eqI) (auto simp: bit_and_iff bit_not_iff bit_mask_iff)
  qed
  have "(v OR mask a) + 1 = (v AND NOT (mask a)) + 2 ^ a"
    by (simp only: or add.assoc mask_plus_1)
  then have "(((v OR mask a) + 1) AND NOT (mask a)) OR (v AND mask a) =
      ((v AND NOT (mask a)) + 2 ^ a) OR (v AND mask a)"
    using low by simp
  also have "\<dots> = ((v AND NOT (mask a)) + 2 ^ a) + (v AND mask a)"
    by (subst low, subst (2) low, subst disjunctive_add_eq_or) (auto simp: bit_simps intro!: bit_word_eqI)
  also have "\<dots> = ((v AND NOT (mask a)) + (v AND mask a)) + 2 ^ a"
    by simp
  also have "(v AND NOT (mask a)) + (v AND mask a) = v"
    by (subst disjunctive_add_eq_or) (auto simp: bit_simps intro!: bit_word_eqI)
  finally show ?thesis .
qed

lemma expand_stop:
  fixes v :: uint64
  assumes "a \<le> b" "b < 64"
  shows "v AND (mask a XOR mask b) = 0 \<longleftrightarrow> unat v mod 2 ^ b div 2 ^ a = 0"
proof -
  have "v AND (mask a XOR mask b) = 0 \<longleftrightarrow> drop_bit a (take_bit b v) = 0" (is "?l = 0 \<longleftrightarrow> ?r = 0")
  proof
    assume "?l = 0"
    then have "\<not> bit ?l (a + n)" for n by simp
    then have "\<not> (bit v (a + n) \<and> a + n < b)" for n
      using assms by (simp add: bit_simps) (meson order_less_trans)
    then show "?r = 0" by (intro bit_word_eqI) (auto simp: bit_simps)
  next
    assume r: "?r = 0"
    have "\<not> bit ?r n" for n unfolding r by simp
    then have "\<not> (bit v n \<and> a \<le> n \<and> n < b)" for n
      using le_Suc_ex [of a n] by (auto simp: bit_simps)
    then show "?l = 0" using assms by (intro bit_word_eqI) (simp add: bit_simps, meson leI le_trans not_less)
  qed
  also have "\<dots> \<longleftrightarrow> unat (drop_bit a (take_bit b v)) = 0"
    by (simp only: unat_eq_zero)
  also have "unat (drop_bit a (take_bit b v)) = unat v mod 2 ^ b div 2 ^ a"
    by (simp only: unat_drop_bit_eq unsigned_take_bit_eq drop_bit_eq_div [where 'a = nat] take_bit_eq_mod [where 'a = nat])
  finally show ?thesis .
qed

lemma scan_expand_ok:
  assumes len: "length (table t1) = 2 ^ b" and ab: "a \<le> b" "b < 64"
  shows "\<exists>v'. scan_expand t1 (mask a) (mask b) v acc =
      Some (acc @ concat (map (\<lambda>i. table t1 ! (unat v mod 2 ^ a + i * 2 ^ a))
                           [unat v mod 2 ^ b div 2 ^ a..<2 ^ (b - a)]), v') \<and>
    unat v' mod 2 ^ a = unat v mod 2 ^ a"
proof (induction "2 ^ (b - a) - unat v mod 2 ^ b div 2 ^ a" arbitrary: v acc rule: less_induct)
  case less
  define l j where "l = unat v mod 2 ^ a" and "j = unat v mod 2 ^ b div 2 ^ a"
  define v2 where "v2 = v + 2 ^ a"
  have pow: "2 ^ b = (2 ^ (b - a) * 2 ^ a :: nat)" using ab by (simp add: power_add [symmetric])
  have lj: "unat v mod 2 ^ b = l + j * 2 ^ a" and l: "l < 2 ^ a"
    unfolding l_def j_def using mod_mod_cancel [OF le_imp_power_dvd [OF ab(1)], of "unat v" 2]
      mod_div_mult_eq [of "unat v mod 2 ^ b" "2 ^ a"] by simp_all
  have j: "j < 2 ^ (b - a)"
    unfolding j_def by (rule less_mult_imp_div_less) (simp add: pow [symmetric])
  have ix: "unat (v AND mask b) = l + j * 2 ^ a"
    using lj by (simp only: take_bit_eq_mask [symmetric] unat_take_bit)
  then have get: "arr_get (table t1) (unat (v AND mask b)) = Some (table t1 ! (l + j * 2 ^ a))"
    using len lj mod_less_divisor [of "2 ^ b" "unat v"] by (simp add: arr_get_in)
  have v2a: "unat v2 mod 2 ^ a = l"
    unfolding v2_def l_def using ab by (simp only: unat_add_pow2_mod mod_add_self2)
  have v2b: "unat v2 mod 2 ^ b = (l + (j + 1) * 2 ^ a) mod 2 ^ b"
  proof -
    have "unat v2 mod 2 ^ b = (unat v + 2 ^ a) mod 2 ^ b"
      unfolding v2_def using ab by (simp only: unat_add_pow2_mod)
    also have "\<dots> = (unat v mod 2 ^ b + 2 ^ a) mod 2 ^ b" by (rule mod_add_left_eq [symmetric])
    also have "unat v mod 2 ^ b + 2 ^ a = l + (j + 1) * 2 ^ a" unfolding lj by simp
    finally show ?thesis .
  qed
  have upt: "[j..<2 ^ (b - a)] = j # [Suc j..<2 ^ (b - a)]" using j by (rule upt_conv_Cons)
  have step: "scan_expand t1 (mask a) (mask b) v acc =
      (if unat v2 mod 2 ^ b div 2 ^ a \<noteq> 0
       then scan_expand t1 (mask a) (mask b) v2 (acc @ table t1 ! (l + j * 2 ^ a))
       else Some (acc @ table t1 ! (l + j * 2 ^ a), v2))"
    using ab by (subst scan_expand.simps) (simp only: get expand_step expand_stop v2_def Let_def bind_eq_Some_conv option.simps bind.bind_lunit)
  show ?case
  proof (cases "Suc j < 2 ^ (b - a)")
    case True
    have "l + (j + 1) * 2 ^ a < (Suc j + 1) * 2 ^ a" using l by simp
    also have "\<dots> \<le> 2 ^ b" unfolding pow using True by (intro mult_le_mono1) simp
    finally have "unat v2 mod 2 ^ b = l + (j + 1) * 2 ^ a" using v2b by (simp only: mod_less)
    then have jj: "unat v2 mod 2 ^ b div 2 ^ a = Suc j" using l by (simp only: div_mult_self1) simp
    from less [of v2 "acc @ table t1 ! (l + j * 2 ^ a)"] obtain v' where
      "scan_expand t1 (mask a) (mask b) v2 (acc @ table t1 ! (l + j * 2 ^ a)) =
        Some ((acc @ table t1 ! (l + j * 2 ^ a)) @
          concat (map (\<lambda>i. table t1 ! (l + i * 2 ^ a)) [Suc j..<2 ^ (b - a)]), v')"
      "unat v' mod 2 ^ a = l"
      using diff_less_mono2 [OF lessI j] unfolding jj v2a j_def [symmetric] by auto
    then show ?thesis unfolding l_def [symmetric] j_def [symmetric] upt step jj by simp
  next
    case False
    with j have "Suc j = 2 ^ (b - a)" by simp
    then have "(j + 1) * 2 ^ a = 2 ^ b" "[Suc j..<2 ^ (b - a)] = []" using pow by simp_all
    moreover have "unat v2 mod 2 ^ b div 2 ^ a = 0"
      using v2b l calculation(1) power_increasing [OF ab(1), of "2 :: nat"] by (simp del: add_mult_distrib)
    ultimately show ?thesis unfolding l_def [symmetric] j_def [symmetric] upt step
      using v2a by simp
  qed
qed

subsection \<open>One call\<close>

lemma concat_residues:
  fixes m :: nat
  assumes "l < m"
  shows "concat (map (\<lambda>i. if i mod m = l then f i else []) [0..<n * m]) =
    concat (map (\<lambda>i. f (l + i * m)) [0..<n])"
proof (induction n)
  case (Suc n)
  have "[n * m..<n * m + m] = map (\<lambda>i. n * m + i) [0..<m]"
    using map_add_upt [of "n * m" m] by (simp add: ac_simps)
  then have "concat (map (\<lambda>i. if i mod m = l then f i else []) [n * m..<n * m + m]) =
      concat (map (\<lambda>i. if i = l then f (l + n * m) else []) [0..<m])"
    by (auto simp: comp_def ac_simps intro!: arg_cong [of _ _ concat])
  also have "\<dots> = f (l + n * m)"
  proof -
    have "[0..<m] = [0..<l] @ l # [Suc l..<m]"
      using assms upt_add_eq_append [of 0 l "m - l"] by (simp add: upt_conv_Cons)
    moreover have "concat (map (\<lambda>i. if i = l then f (l + n * m) else []) [0..<l]) = []"
      "concat (map (\<lambda>i. if i = l then f (l + n * m) else []) [Suc l..<m]) = []"
      by auto
    ultimately show ?thesis
      by (simp only: map_append list.map concat_append concat.simps simp_thms if_True append_Nil append_Nil2)
  qed
  finally show ?case
    using Suc upt_add_eq_append [of 0 "n * m" m] by (simp add: add.commute [of m])
qed simp

lemma residue_entries:
  assumes wf: "ht_wf t h" and sz: "ht_size h = 2 ^ b" and ab: "a \<le> b" and l: "l < 2 ^ a"
  shows "concat (map (\<lambda>i. table h ! (l + i * 2 ^ a)) [0..<2 ^ (b - a)]) =
    filter (\<lambda>e. dictHashKey t (de_key e) mod 2 ^ a = l) (ht_entries h)"
proof -
  have len: "length (table h) = 2 ^ (b - a) * 2 ^ a"
    using wf sz ab by (simp add: ht_wf_def power_add [symmetric])
  have chain: "filter (\<lambda>e. dictHashKey t (de_key e) mod 2 ^ a = l) (table h ! i) =
      (if i mod 2 ^ a = l then table h ! i else [])" if "i < length (table h)" for i
  proof -
    have "dictHashKey t (de_key e) mod 2 ^ a = i mod 2 ^ a" if "e \<in> set (table h ! i)" for e
    proof -
      have "dictHashKey t (de_key e) mod 2 ^ b = i"
        using wf sz that \<open>i < length (table h)\<close> nat_and_mask [of "dictHashKey t (de_key e)" b]
        unfolding ht_wf_def by auto
      then show ?thesis using mod_mod_cancel [OF le_imp_power_dvd [OF ab]] by metis
    qed
    then show ?thesis by (auto simp: filter_id_conv filter_empty_conv)
  qed
  have "filter (\<lambda>e. dictHashKey t (de_key e) mod 2 ^ a = l) (ht_entries h) =
      concat (map (\<lambda>i. filter (\<lambda>e. dictHashKey t (de_key e) mod 2 ^ a = l) (table h ! i))
        [0..<length (table h)])"
    unfolding ht_entries_def filter_concat
    by (intro arg_cong [of _ _ concat] nth_equalityI) simp_all
  also have "\<dots> = concat (map (\<lambda>i. if i mod 2 ^ a = l then table h ! i else []) [0..<length (table h)])"
    by (intro arg_cong [of _ _ concat] map_cong) (simp_all add: chain)
  also have "\<dots> = concat (map (\<lambda>i. table h ! (l + i * 2 ^ a)) [0..<2 ^ (b - a)])"
    unfolding len by (rule concat_residues [OF l])
  finally show ?thesis by simp
qed

text \<open>The smaller table, whose size the cursor follows, and the larger one during a rehash.\<close>

definition scan_small :: "('k, 'v) dict \<Rightarrow> ('k, 'v) dictht" where
  "scan_small d = (if dictIsRehashing d \<and> ht_size (ht0 d) > ht_size (ht1 d) then ht1 d else ht0 d)"

definition scan_large :: "('k, 'v) dict \<Rightarrow> ('k, 'v) dictht" where
  "scan_large d = (if dictIsRehashing d \<and> ht_size (ht0 d) > ht_size (ht1 d) then ht0 d else ht1 d)"

lemma mset_scan_tables:
  "mset (ht_entries (scan_small d)) + mset (ht_entries (scan_large d)) = mset (dict_entries d)"
  by (simp add: scan_small_def scan_large_def dict_entries_def)

lemma ht_size_pow: "ht_wf t h \<Longrightarrow> ht_size h \<noteq> 0 \<Longrightarrow> \<exists>k < 61. ht_size h = 2 ^ k"
  by (auto simp: ht_wf_def)

lemma scan_small_wf:
  assumes "dict_inv d" "dictSize d \<noteq> 0"
  obtains a where "ht_wf (dtype d) (scan_small d)" "ht_size (scan_small d) = 2 ^ a" "a < 61"
proof -
  have "ht_size (ht0 d) \<noteq> 0"
    using assms by (auto simp: dict_inv_def rehash_wf_def dictSize_def ht_wf_def dictReset_def ht_entries_def split: if_splits)
  then have "ht_size (scan_small d) \<noteq> 0"
    using assms by (auto simp: dict_inv_def rehash_wf_def scan_small_def)
  moreover have wf: "ht_wf (dtype d) (scan_small d)"
    using assms by (simp add: dict_inv_def scan_small_def)
  ultimately obtain a where "ht_size (scan_small d) = 2 ^ a" "a < 61"
    using ht_size_pow by blast
  with wf that show thesis by blast
qed

lemma scan_large_wf:
  assumes "dict_inv d" "dictIsRehashing d"
  obtains b where "ht_wf (dtype d) (scan_large d)" "ht_size (scan_large d) = 2 ^ b" "b < 61"
    "ht_size (scan_small d) \<le> ht_size (scan_large d)"
proof -
  have "ht_size (scan_large d) \<noteq> 0"
    using assms by (simp add: dict_inv_def rehash_wf_def scan_large_def)
  moreover have wf: "ht_wf (dtype d) (scan_large d)"
    using assms by (simp add: dict_inv_def scan_large_def)
  ultimately obtain b where "ht_size (scan_large d) = 2 ^ b" "b < 61"
    using ht_size_pow by blast
  moreover have "ht_size (scan_small d) \<le> ht_size (scan_large d)"
    using assms(2) by (simp add: scan_small_def scan_large_def)
  ultimately show thesis using wf that by blast
qed

lemma sizemask_word:
  assumes "ht_wf t h" "ht_size h = 2 ^ a"
  shows "(word_of_nat (sizemask h) :: uint64) = mask a"
  using assms by (simp add: ht_wf_def mask_eq_exp_minus_1 of_nat_diff)

lemma scan_first_chain:
  fixes v :: uint64
  assumes wf: "ht_wf t h" and sz: "ht_size h = 2 ^ a"
  shows "arr_get (table h) (unat (v AND mask a)) =
    Some (filter (\<lambda>e. dictHashKey t (de_key e) mod 2 ^ a = unat v mod 2 ^ a) (ht_entries h))"
proof -
  have "unat (v AND mask a) = unat v mod 2 ^ a"
    by (simp only: take_bit_eq_mask [symmetric] unat_take_bit)
  moreover have "length (table h) = 2 ^ a" using wf sz by (simp add: ht_wf_def)
  ultimately show ?thesis
    using residue_entries [OF wf sz order_refl, of "unat v mod 2 ^ a"] by (simp add: arr_get_in)
qed

definition in_block :: "nat \<Rightarrow> uint64 \<Rightarrow> ('k, 'v) dictType \<Rightarrow> ('k, 'v) dictEntry \<Rightarrow> bool" where
  "in_block a v t e \<longleftrightarrow> dictHashKey t (de_key e) mod 2 ^ a = unat v mod 2 ^ a"

lemma scan_set_subset:
  "set (ht_entries (scan_small d)) \<union> set (ht_entries (scan_large d)) = set (dict_entries d)"
  by (auto simp: scan_small_def scan_large_def dict_entries_def)

lemma aligned_expand_stop:
  fixes v :: uint64
  assumes "v AND NOT (mask a) = 0" "a \<le> b" "b < 64"
  shows "unat v mod 2 ^ b div 2 ^ a = 0"
proof -
  have "\<not> bit (v AND NOT (mask a)) n" for n using assms(1) by simp
  then have "\<not> (n < 64 \<and> bit v n \<and> \<not> n < a)" for n by (simp add: bit_simps)
  then have "v AND (mask a XOR mask b) = 0"
    using assms(2) by (intro bit_word_eqI) (simp add: bit_simps, meson order_less_le_trans)
  then show ?thesis using expand_stop [OF assms(2,3)] by simp
qed

text \<open>A call during a rehash: the expansions reach the buckets of the larger table.\<close>

lemma scan_expand_large:
  assumes inv: "dict_inv d" and rh: "dictIsRehashing d" and a: "ht_size (scan_small d) = 2 ^ a"
  obtains es w where
    "scan_expand (scan_large d) (mask a) (word_of_nat (sizemask (scan_large d))) v acc = Some (acc @ es, w)"
    "unat w mod 2 ^ a = unat v mod 2 ^ a" "set es \<subseteq> set (ht_entries (scan_large d))"
    "v AND NOT (mask a) = 0 \<Longrightarrow> es = filter (in_block a v (dtype d)) (ht_entries (scan_large d))"
proof -
  obtain b where wf: "ht_wf (dtype d) (scan_large d)" and b: "ht_size (scan_large d) = 2 ^ b" "b < 61"
    and "ht_size (scan_small d) \<le> ht_size (scan_large d)"
    using scan_large_wf [OF inv rh] by blast
  with a have ab: "a \<le> b" and b64: "b < 64" by simp_all
  have len: "length (table (scan_large d)) = 2 ^ b" using wf b by (simp add: ht_wf_def)
  define l f where "l = unat v mod 2 ^ a" and "f = (\<lambda>i. table (scan_large d) ! (l + i * 2 ^ a))"
  define es where "es = concat (map f [unat v mod 2 ^ b div 2 ^ a..<2 ^ (b - a)])"
  have all: "concat (map f [0..<2 ^ (b - a)]) = filter (in_block a v (dtype d)) (ht_entries (scan_large d))"
    using residue_entries [OF wf b(1) ab, of l] unfolding f_def in_block_def [abs_def] l_def by simp
  obtain w where "scan_expand (scan_large d) (mask a) (mask b) v acc = Some (acc @ es, w)"
    "unat w mod 2 ^ a = unat v mod 2 ^ a"
    using scan_expand_ok [OF len ab b64, of v acc] unfolding es_def f_def l_def by blast
  moreover have "set es \<subseteq> set (concat (map f [0..<2 ^ (b - a)]))"
    unfolding es_def by auto
  then have "set es \<subseteq> set (ht_entries (scan_large d))" unfolding all by auto
  moreover have "es = filter (in_block a v (dtype d)) (ht_entries (scan_large d))"
    if "v AND NOT (mask a) = 0"
    using aligned_expand_stop [OF that ab b64] all by (simp add: es_def)
  ultimately show thesis
    using that sizemask_word [OF wf b(1)] by simp
qed

lemma dictScan_cases:
  assumes inv: "dict_inv d" and ne: "dictSize d \<noteq> 0" and a: "ht_size (scan_small d) = 2 ^ a"
  obtains es v' where "dictScan d v = Some (es, v')"
    "cursor_pos v' = (cursor_block a v + 1) * 2 ^ (64 - a) mod 2 ^ 64"
    "v' AND NOT (mask a) = 0"
    "set es \<subseteq> set (dict_entries d)"
    "dictIsRehashing d \<longrightarrow> v AND NOT (mask a) = 0 \<Longrightarrow>
       mset es = filter_mset (in_block a v (dtype d)) (mset (dict_entries d))"
proof -
  let ?P = "in_block a v (dtype d)"
  obtain a' where wf: "ht_wf (dtype d) (scan_small d)" and "ht_size (scan_small d) = 2 ^ a'" "a' < 61"
    using scan_small_wf [OF inv ne] by blast
  with a have a64: "a \<le> 64" by simp
  define acc where "acc = filter ?P (ht_entries (scan_small d))"
  have m0: "(word_of_nat (sizemask (scan_small d)) :: uint64) = mask a" using sizemask_word [OF wf a] .
  have first: "arr_get (table (scan_small d)) (unat (v AND mask a)) = Some acc"
    unfolding acc_def in_block_def [abs_def] by (rule scan_first_chain [OF wf a])
  have "\<exists>es w. dictScan d v = Some (acc @ es, scan_advance (mask a) w) \<and> unat w mod 2 ^ a = unat v mod 2 ^ a \<and>
      set es \<subseteq> set (ht_entries (scan_large d)) \<and>
      ((dictIsRehashing d \<longrightarrow> v AND NOT (mask a) = 0) \<longrightarrow> es = filter ?P (ht_entries (scan_large d)))"
  proof (cases "dictIsRehashing d")
    case False
    then have "scan_small d = ht0 d" "ht_entries (scan_large d) = []"
      using inv by (simp_all add: scan_small_def scan_large_def dict_inv_def rehash_wf_def dictReset_def ht_entries_def)
    then show ?thesis using first m0 ne False by (intro exI [of _ "[]"] exI [of _ v]) (simp add: dictScan_def Let_def)
  next
    case True
    obtain es w where w: "scan_expand (scan_large d) (mask a) (word_of_nat (sizemask (scan_large d))) v acc = Some (acc @ es, w)"
      and es: "unat w mod 2 ^ a = unat v mod 2 ^ a" "set es \<subseteq> set (ht_entries (scan_large d))"
      "v AND NOT (mask a) = 0 \<Longrightarrow> es = filter ?P (ht_entries (scan_large d))"
      using scan_expand_large [OF inv True a] by blast
    have "dictScan d v = Some (acc @ es, scan_advance (mask a) w)"
      using first m0 ne True w by (simp add: dictScan_def Let_def scan_small_def scan_large_def split: if_splits)
    with es True show ?thesis by blast
  qed
  then obtain es w where es: "dictScan d v = Some (acc @ es, scan_advance (mask a) w)"
    "unat w mod 2 ^ a = unat v mod 2 ^ a" "set es \<subseteq> set (ht_entries (scan_large d))"
    "(dictIsRehashing d \<longrightarrow> v AND NOT (mask a) = 0) \<longrightarrow> es = filter ?P (ht_entries (scan_large d))"
    by blast
  show thesis
  proof (rule that [OF es(1)])
    show "cursor_pos (scan_advance (mask a) w) = (cursor_block a v + 1) * 2 ^ (64 - a) mod 2 ^ 64"
      using es(2) same_block [OF a64, of w v] cursor_advance [OF a64] by simp
    show "scan_advance (mask a) w AND NOT (mask a) = 0"
      by (rule cursor_advance_aligned [OF a64 order_refl])
    show "set (acc @ es) \<subseteq> set (dict_entries d)"
      using es(3) by (auto simp: acc_def simp flip: scan_set_subset [of d])
    show "mset (acc @ es) = filter_mset ?P (mset (dict_entries d))"
      if "dictIsRehashing d \<longrightarrow> v AND NOT (mask a) = 0"
      using es(4) that by (simp add: acc_def flip: mset_scan_tables [of d])
  qed
qed

subsection \<open>A sequence of calls\<close>

definition scan_size :: "('k, 'v) dict \<Rightarrow> nat" where
  "scan_size d = ht_size (scan_small d)"

lemma block_next:
  fixes p q c :: nat
  assumes "q \<le> p" "q div c \<noteq> p div c" "p < 2 ^ 64"
  shows "(q div c + 1) * c mod 2 ^ 64 = (q div c + 1) * c" "(q div c + 1) * c \<le> p"
proof -
  have "q div c + 1 \<le> p div c" using assms(1,2) div_le_mono [of q p c] by linarith
  then have "(q div c + 1) * c \<le> p div c * c" by (rule mult_le_mono1)
  also have "\<dots> \<le> p" by simp
  finally show "(q div c + 1) * c \<le> p" .
  with assms(3) show "(q div c + 1) * c mod 2 ^ 64 = (q div c + 1) * c" by simp
qed

lemma dictSize_entries: "dict_inv d \<Longrightarrow> dictSize d = length (dict_entries d)"
  by (simp add: dict_inv_def ht_wf_def dictSize_def dict_entries_def)

lemma aligned_mono:
  fixes v :: uint64
  assumes "v AND NOT (mask a) = 0" "a \<le> b"
  shows "v AND NOT (mask b) = 0"
proof -
  have "\<not> bit (v AND NOT (mask a)) n" for n using assms(1) by simp
  then have "\<not> (n < 64 \<and> bit v n \<and> \<not> n < a)" for n by (simp add: bit_simps)
  then show ?thesis
    using assms(2) by (intro bit_word_eqI) (simp add: bit_simps, meson order_less_le_trans)
qed

lemma unat_hash: "unat (word_of_nat (dictHashKey t k) :: uint64) = dictHashKey t k"
proof -
  have "dictHashKey t k < 2 ^ 32" unfolding dictHashKey_def by (rule order_less_le_trans [OF unsigned_less]) simp
  then have "dictHashKey t k < 2 ^ 64" by (rule order_less_trans) simp
  then show ?thesis by (simp add: unat_of_nat)
qed

lemma in_block_block:
  assumes "a \<le> 64"
  shows "in_block a v t e \<longleftrightarrow> cursor_block a v = cursor_block a (word_of_nat (dictHashKey t (de_key e)))"
  unfolding same_block [OF assms] in_block_def unat_hash by (rule eq_commute)

context dict_type
begin

lemma scan_calls_cover:
  assumes "scan_calls ds v = Some (es, 0)" "v \<noteq> 0 \<or> ds \<noteq> []"
    "cursor_pos v \<le> cursor_pos (word_of_nat (dictHashKey t k))"
    "\<And>d. d \<in> set ds \<Longrightarrow> dtype d = t \<and> dict_inv d \<and> dict_map d k \<noteq> None"
    "successively (\<lambda>d d'. dictIsRehashing d' \<longrightarrow> scan_size d \<le> scan_size d') ds"
    "\<And>d a. ds \<noteq> [] \<Longrightarrow> dictIsRehashing (hd ds) \<Longrightarrow> scan_size (hd ds) = 2 ^ a \<Longrightarrow> v AND NOT (mask a) = 0"
  shows "\<exists>e \<in> set es. dictCompareKeys t k (de_key e)"
  using assms
proof (induction ds arbitrary: v es)
  case Nil
  then show ?case by simp
next
  case (Cons d ds)
  let ?h = "dictHashKey t k"
  have d: "dtype d = t" "dict_inv d" "dict_map d k \<noteq> None" using Cons.prems(4) by auto
  then obtain e where e: "e \<in> set (dict_entries d)" "dictCompareKeys t k (de_key e)"
    using dict_map_iff by blast
  then have ne: "dictSize d \<noteq> 0" using dictSize_entries [OF d(2)] by auto
  from scan_small_wf [OF d(2) ne] obtain a where a: "ht_size (scan_small d) = 2 ^ a" "a < 61" by blast
  from dictScan_cases [OF d(2) ne a(1), of v] obtain es1 v' where v': "dictScan d v = Some (es1, v')"
    "cursor_pos v' = (cursor_block a v + 1) * 2 ^ (64 - a) mod 2 ^ 64" "v' AND NOT (mask a) = 0"
    "dictIsRehashing d \<longrightarrow> v AND NOT (mask a) = 0 \<Longrightarrow>
       mset es1 = filter_mset (in_block a v (dtype d)) (mset (dict_entries d))" by blast
  obtain es2 where es2: "scan_calls ds v' = Some (es2, 0)" "es = es1 @ es2"
    using Cons.prems(1) v'(1) by (auto split: bind_splits)
  show ?case
  proof (cases "cursor_block a v = cursor_block a (word_of_nat ?h)")
    case True
    moreover have "a \<le> 64" using a(2) by simp
    ultimately have "in_block a v t e"
      using cmp_hashKey [OF e(2)] by (simp only: in_block_block)
    moreover have "mset es1 = filter_mset (in_block a v (dtype d)) (mset (dict_entries d))"
      using v'(4) Cons.prems(6) [of a] a(1) by (simp add: scan_size_def)
    ultimately have "e \<in># mset es1" using e(1) d(1) by simp
    then have "e \<in> set es1" by simp
    then show ?thesis using e(2) es2(2) by auto
  next
    case False
    note nxt = block_next [OF Cons.prems(3) False [unfolded cursor_block_def] cursor_pos_less]
    have pos: "cursor_pos v' = (cursor_pos v div 2 ^ (64 - a) + 1) * 2 ^ (64 - a)"
      using v'(2) nxt(1) by (simp only: cursor_block_def)
    have "\<exists>e \<in> set es2. dictCompareKeys t k (de_key e)"
    proof (rule Cons.IH [OF es2(1)])
      show "v' \<noteq> 0 \<or> ds \<noteq> []" using pos by (simp flip: cursor_pos_0_iff)
      show "cursor_pos v' \<le> cursor_pos (word_of_nat ?h)" using pos nxt(2) by simp
      show "dtype d = t \<and> dict_inv d \<and> dict_map d k \<noteq> None" if "d \<in> set ds" for d
        using Cons.prems(4) that by simp
      show "successively (\<lambda>d d'. dictIsRehashing d' \<longrightarrow> scan_size d \<le> scan_size d') ds"
        using Cons.prems(5) by (cases ds) auto
      show "v' AND NOT (mask b) = 0"
        if "ds \<noteq> []" "dictIsRehashing (hd ds)" "scan_size (hd ds) = 2 ^ b" for b
      proof -
        have "a \<le> b" using Cons.prems(5) that a(1) by (cases ds) (auto simp: scan_size_def)
        with v'(3) show ?thesis by (rule aligned_mono)
      qed
    qed
    then show ?thesis using es2(2) by auto
  qed
qed

end

lemma scan_calls_append:
  "scan_calls (ds @ ds') v = do {
     (es, v) \<leftarrow> scan_calls ds v;
     (es', v) \<leftarrow> scan_calls ds' v;
     Some (es @ es', v)
   }"
  by (induction ds arbitrary: v) (auto split: bind_splits)

lemma filter_mset_less_Suc:
  "filter_mset (\<lambda>e. f e < Suc n) M = filter_mset (\<lambda>e. f e < n) M + filter_mset (\<lambda>e. f e = n) M"
  by (induction M) (auto simp: less_Suc_eq)

text \<open>Each call on one dictionary moves the cursor by one block and returns that block.\<close>

lemma scan_calls_replicate:
  assumes inv: "dict_inv d" and ne: "dictSize d \<noteq> 0" and a: "scan_size d = 2 ^ a" and n: "n \<le> 2 ^ a"
  shows "\<exists>es v. scan_calls (replicate n d) 0 = Some (es, v) \<and>
    cursor_pos v = n * 2 ^ (64 - a) mod 2 ^ 64 \<and> v AND NOT (mask a) = 0 \<and>
    mset es = filter_mset (\<lambda>e. cursor_block a (word_of_nat (dictHashKey (dtype d) (de_key e))) < n)
      (mset (dict_entries d))"
  using n
proof (induction n)
  case 0
  then show ?case by (simp add: cursor_pos_def)
next
  case (Suc n)
  let ?b = "\<lambda>e. cursor_block a (word_of_nat (dictHashKey (dtype d) (de_key e)))"
  from Suc obtain es v where IH: "scan_calls (replicate n d) 0 = Some (es, v)"
    "cursor_pos v = n * 2 ^ (64 - a) mod 2 ^ 64" "v AND NOT (mask a) = 0"
    "mset es = filter_mset (\<lambda>e. ?b e < n) (mset (dict_entries d))" by auto
  from scan_small_wf [OF inv ne] a have "a < 61" by (auto simp: scan_size_def)
  then have a61: "a < 64" by simp
  have "n * 2 ^ (64 - a) < 2 ^ a * 2 ^ (64 - a)" using Suc.prems by simp
  also have "\<dots> = 2 ^ 64" using a61 by (simp add: power_add [symmetric])
  finally have blk: "cursor_block a v = n" using IH(2) by (simp only: cursor_block_def mod_less) simp
  from dictScan_cases [OF inv ne a [unfolded scan_size_def], of v] obtain es1 v' where v': "dictScan d v = Some (es1, v')"
    "cursor_pos v' = (cursor_block a v + 1) * 2 ^ (64 - a) mod 2 ^ 64" "v' AND NOT (mask a) = 0"
    "dictIsRehashing d \<longrightarrow> v AND NOT (mask a) = 0 \<Longrightarrow>
       mset es1 = filter_mset (in_block a v (dtype d)) (mset (dict_entries d))" by blast
  have "in_block a v (dtype d) e \<longleftrightarrow> ?b e = n" for e
    unfolding in_block_block [OF less_imp_le [OF a61]] blk by (rule eq_commute)
  then have "in_block a v (dtype d) = (\<lambda>e. ?b e = n)" by (rule ext)
  then have "mset es1 = filter_mset (\<lambda>e. ?b e = n) (mset (dict_entries d))"
    using v'(4) IH(3) by simp
  then have "mset (es @ es1) = filter_mset (\<lambda>e. ?b e < Suc n) (mset (dict_entries d))"
    using IH(4) by (simp only: mset_append filter_mset_less_Suc)
  moreover have "scan_calls (replicate (Suc n) d) 0 = Some (es @ es1, v')"
  proof -
    have "replicate (Suc n) d = replicate n d @ [d]" by (simp add: replicate_append_same)
    then show ?thesis by (simp only: scan_calls_append IH(1)) (simp add: v'(1))
  qed
  ultimately show ?case using v'(2,3) unfolding blk Suc_eq_plus1 [symmetric] by blast
qed

text \<open>The calls come to an end: every call moves the cursor to the start of a later block.\<close>

lemma scan_calls_end:
  assumes "cursor_pos v = i * 2 ^ (64 - A)" "i < 2 ^ A" "A < 61" "2 ^ A \<le> i + length ds"
    "\<And>d. d \<in> set ds \<Longrightarrow> dict_inv d \<and> scan_size d \<le> 2 ^ A"
  shows "\<exists>n es. 0 < n \<and> i + n \<le> 2 ^ A \<and> scan_calls (take n ds) v = Some (es, 0)"
  using assms
proof (induction ds arbitrary: v i)
  case Nil
  then show ?case by simp
next
  case (Cons d ds)
  have d: "dict_inv d" "scan_size d \<le> 2 ^ A" using Cons.prems(5) by auto
  have single: ?case if "dictScan d v = Some (es, 0)" for es
    using that Cons.prems(2) by (intro exI [of _ 1]) auto
  show ?case
  proof (cases "dictSize d = 0")
    case True
    then show ?thesis using single by (simp add: dictScan_def)
  next
    case False
    obtain a where a: "ht_size (scan_small d) = 2 ^ a" using scan_small_wf [OF d(1) False] by blast
    with d(2) have aA: "a \<le> A" by (simp add: scan_size_def)
    obtain es v' where v': "dictScan d v = Some (es, v')"
      "cursor_pos v' = (cursor_block a v + 1) * 2 ^ (64 - a) mod 2 ^ 64"
      using dictScan_cases [OF d(1) False a] by blast
    define j where "j = (cursor_block a v + 1) * 2 ^ (A - a)"
    have pw: "2 ^ (64 - a) = (2 ^ (A - a) * 2 ^ (64 - A) :: nat)" "2 ^ 64 = (2 ^ A * 2 ^ (64 - A) :: nat)"
      using aA Cons.prems(3) by (simp_all add: power_add [symmetric])
    have pos: "cursor_pos v' = j * 2 ^ (64 - A) mod (2 ^ A * 2 ^ (64 - A))"
      unfolding v'(2) j_def pw by (simp only: mult.assoc)
    have blk: "cursor_block a v = i div 2 ^ (A - a)"
      unfolding cursor_block_def Cons.prems(1) pw by (rule div_mult_mult2) simp
    have ij: "i < j" unfolding j_def blk by (simp add: dividend_less_div_times)
    show ?thesis
    proof (cases "j < 2 ^ A")
      case True
      then have "cursor_pos v' = j * 2 ^ (64 - A)" using pos by simp
      with Cons.IH [of v' j] True ij Cons.prems(3-5) obtain n es' where
        "0 < n" "j + n \<le> 2 ^ A" "scan_calls (take n ds) v' = Some (es', 0)" by auto
      then show ?thesis using v'(1) ij by (intro exI [of _ "Suc n"] exI [of _ "es @ es'"]) auto
    next
      case False
      have "i < 2 ^ a * 2 ^ (A - a)" using Cons.prems(2) aA by (simp add: power_add [symmetric])
      then have "i div 2 ^ (A - a) < 2 ^ a" by (rule less_mult_imp_div_less)
      then have "j \<le> 2 ^ a * 2 ^ (A - a)" unfolding j_def blk by (intro mult_le_mono1) simp
      with False have "j = 2 ^ A" using aA by (simp add: power_add [symmetric])
      then have "v' = 0" using pos by (simp flip: cursor_pos_0_iff)
      with v'(1) single show ?thesis by simp
    qed
  qed
qed

subsection \<open>The guarantees of the scan\<close>

lemma scan_calls_all:
  assumes "dict_inv d" "dictSize d \<noteq> 0"
  shows "\<exists>es. scan_calls (replicate (scan_size d) d) 0 = Some (es, 0) \<and> mset es = mset (dict_entries d)"
proof -
  obtain a where a: "scan_size d = 2 ^ a" "a < 61"
    using scan_small_wf [OF assms] unfolding scan_size_def by blast
  have pw: "2 ^ a * 2 ^ (64 - a) = (2 ^ 64 :: nat)" using a(2) by (simp add: power_add [symmetric])
  have "cursor_block a v < 2 ^ a" for v
    unfolding cursor_block_def by (rule less_mult_imp_div_less) (simp only: pw cursor_pos_less)
  then have all: "filter_mset (\<lambda>e. cursor_block a (f e) < 2 ^ a) M = M" for f :: "'c \<Rightarrow> _" and M
    by simp
  show ?thesis
    using scan_calls_replicate [OF assms a(1) order_refl] unfolding a(1) all pw mod_self cursor_pos_0_iff by blast
qed

lemma scan_size_ex_dict: "scan_size ex_dict = 4"
  by (simp add: scan_size_def scan_small_def ex_dict_def dictIsRehashing_def)

lemma scan_size_create: "scan_size (dictCreate t) = 0"
  by (simp add: scan_size_def scan_small_def dictCreate_def dictInit_def dictReset_def dictIsRehashing_def)

text \<open>
  C10: the guarantee of \<^verbatim>\<open>dictScan\<close>: a caller that starts with cursor 0 and goes on until 0 is
  returned has seen every key that was in the dictionary during all the calls, although the
  dictionary may grow, shrink, start or finish a rehash between the calls, provided that no call
  made during a rehash finds a smaller table than the one the call before it followed.
\<close>

theorem dictScan_complete:
  assumes "dict_type t" "ds \<noteq> []" "scan_calls ds 0 = Some (es, 0)"
    "\<forall>d \<in> set ds. dtype d = t \<and> dict_inv d \<and> dict_map d k \<noteq> None"
    "successively (\<lambda>d d'. dictIsRehashing d' \<longrightarrow> scan_size d \<le> scan_size d') ds"
  shows "\<exists>e \<in> set es. dictCompareKeys t k (de_key e)"
  by (rule dict_type.scan_calls_cover [OF assms(1,3) _ _ _ assms(5)])
    (use assms in \<open>auto simp: cursor_pos_def\<close>)

theorem dictScan_complete_witness:
  "\<exists>es. scan_calls (replicate 4 ex_dict) 0 = Some (es, 0) \<and> (\<exists>e \<in> set es. dictCompareKeys idDictType 4 (de_key e))"
proof -
  obtain es where es: "scan_calls (replicate 4 ex_dict) 0 = Some (es, 0)"
    using scan_calls_all [OF dict_inv_ex_dict] by (auto simp: scan_size_ex_dict dictSize_ex_dict)
  have "dict_map ex_dict 4 \<noteq> None"
    by (simp add: ex_dict_def dict_map_def dict_entries_def ht_entries_def dictCompareKeys_def idDictType_def)
  then have "\<exists>e \<in> set es. dictCompareKeys idDictType 4 (de_key e)"
    using dictScan_complete [OF ids.dict_type_axioms _ es, of 4] by (simp add: ex_dict_facts eval_nat_numeral)
  with es show ?thesis by blast
qed

text \<open>
  C12: on a dictionary that does not change, whether or not it is in the middle of a rehash, the
  scan returns every entry exactly once, in exactly as many calls as the smaller table has
  buckets; the cursor is 0 after the last of them and not before.
\<close>

theorem dictScan_exactly_once:
  assumes "dict_inv d" "dictSize d \<noteq> 0"
  shows "(\<exists>es. scan_calls (replicate (scan_size d) d) 0 = Some (es, 0) \<and> mset es = mset (dict_entries d)) \<and>
    (\<forall>n. 0 < n \<and> n < scan_size d \<longrightarrow> (\<exists>es v. scan_calls (replicate n d) 0 = Some (es, v) \<and> v \<noteq> 0))"
proof -
  obtain a where a: "scan_size d = 2 ^ a" "a < 61"
    using scan_small_wf [OF assms] unfolding scan_size_def by blast
  have pw: "2 ^ a * 2 ^ (64 - a) = (2 ^ 64 :: nat)" using a(2) by (simp add: power_add [symmetric])
  note scan_calls_all [OF assms]
  moreover have "\<exists>es v. scan_calls (replicate n d) 0 = Some (es, v) \<and> v \<noteq> 0"
    if "0 < n" "n < 2 ^ a" for n
  proof -
    have "0 < n * 2 ^ (64 - a)" using that by simp
    moreover have "n * 2 ^ (64 - a) < 2 ^ 64" unfolding pw [symmetric] using that by simp
    ultimately have "n * 2 ^ (64 - a) mod 2 ^ 64 \<noteq> 0" by simp
    then show ?thesis
      using scan_calls_replicate [OF assms a(1) less_imp_le [OF that(2)]] by (metis cursor_pos_0_iff)
  qed
  ultimately show ?thesis unfolding a(1) by blast
qed

theorem dictScan_exactly_once_witness:
  "(\<exists>es. scan_calls (replicate (scan_size ex_dict) ex_dict) 0 = Some (es, 0) \<and> mset es = mset (dict_entries ex_dict)) \<and>
   1 < scan_size ex_dict \<and> (\<exists>es v. scan_calls (replicate 1 ex_dict) 0 = Some (es, v) \<and> v \<noteq> 0)"
proof -
  have "1 < scan_size ex_dict"
    by code_simp
  moreover have "(\<exists>es. scan_calls (replicate (scan_size ex_dict) ex_dict) 0 = Some (es, 0) \<and> mset es = mset (dict_entries ex_dict)) \<and>
      (\<forall>n. 0 < n \<and> n < scan_size ex_dict \<longrightarrow>
        (\<exists>es v. scan_calls (replicate n ex_dict) 0 = Some (es, v) \<and> v \<noteq> 0))"
    by (rule dictScan_exactly_once) (simp_all add: ex_dict_facts)
  ultimately show ?thesis
    using zero_less_one by blast
qed

text \<open>
  C13: a scan always ends: whatever happens to the dictionary between the calls, as long as the
  smaller of its tables never has more than \<open>2 ^ A\<close> buckets, one of the first \<open>2 ^ A\<close> calls returns
  the cursor 0.
\<close>

theorem dictScan_ends:
  assumes "A < 61" "2 ^ A \<le> length ds" "\<forall>d \<in> set ds. dict_inv d \<and> scan_size d \<le> 2 ^ A"
  shows "\<exists>n es. 0 < n \<and> n \<le> 2 ^ A \<and> scan_calls (take n ds) 0 = Some (es, 0)"
  using scan_calls_end [of 0 0 A ds] assms by (auto simp: cursor_pos_def)

theorem dictScan_ends_witness:
  "\<exists>n es. 0 < n \<and> n \<le> 2 ^ 3 \<and>
     scan_calls (take n (replicate 4 ex_dict @ replicate 4 (dictCreate idDictType))) 0 = Some (es, 0)"
  by (rule dictScan_ends) (auto simp: ex_dict_facts dict_inv_create scan_size_ex_dict scan_size_create)

text \<open>
  Without the restriction the guarantee fails: the dictionary below has 16 buckets and the one key
  4. After a first call the table is resized to 4 buckets; the calls that follow, on the rehashing
  dictionary, end without having returned the key.
\<close>

definition ex_shrink :: "(uint32, nat) dict" where
  "ex_shrink = \<lparr>dtype = idDictType,
     ht0 = \<lparr>table_addr = 1,
            table = [[], [], [], [], [\<lparr>de_addr = 2, de_key = 4, de_val = Some 40\<rparr>],
                     [], [], [], [], [], [], [], [], [], [], []],
            ht_size = 16, sizemask = 15, used = 1\<rparr>,
     ht1 = dictReset, rehashidx = -1, iterators = 0, next_addr = 3\<rparr>"

definition ex_shrunk :: "(uint32, nat) dict" where
  "ex_shrunk = ex_shrink\<lparr>ht1 := \<lparr>table_addr = 3, table = [[], [], [], []], ht_size = 4, sizemask = 3, used = 0\<rparr>,
     rehashidx := 0, next_addr := 4\<rparr>"

lemma ex_shrink_resize: "dictResize True ex_shrink = Some (ex_shrunk, DICT_OK)"
proof -
  have "dictNextPower 4 = 4"
    by (simp add: dictNextPower_def LONG_MAX_def DICT_HT_INITIAL_SIZE_def next_power.simps [of 4])
  moreover have "to_int32 1 = 1" by (simp add: to_int32_def)
  moreover have "replicate 4 [] = [[], [], [], [] :: (uint32, nat) dictEntry list]"
    by (simp add: numeral_eq_Suc)
  ultimately show ?thesis
    by (simp add: dictResize_def dictExpand_def ex_shrink_def ex_shrunk_def dictIsRehashing_def
      DICT_HT_INITIAL_SIZE_def dictReset_def)
qed

lemma cursor_pos_pow2: "n < 64 \<Longrightarrow> cursor_pos (2 ^ n) = 2 ^ (63 - n)"
proof -
  assume n: "n < 64"
  have "rev_bits (2 ^ n) = 2 ^ (63 - n)"
    using n by (intro bit_word_eqI) (auto simp: bit_rev_bits_iff bit_simps)
  then show ?thesis using n by (simp add: cursor_pos_def unat_power2)
qed

lemma cursor_pos_small: "cursor_pos 0 = 0" "cursor_pos 1 = 2 ^ 63" "cursor_pos 2 = 2 ^ 62" "cursor_pos 8 = 2 ^ 60"
    "cursor_pos 3 = 3 * 2 ^ 62"
proof -
  have "rev_bits (mask 2) = push_bit 62 (mask 2)"
    by (intro bit_word_eqI) (auto simp: bit_rev_bits_iff bit_simps)
  moreover have "mask 2 = (3 :: uint64)" by (simp add: mask_eq_exp_minus_1)
  ultimately have "rev_bits 3 = push_bit 62 3" by simp
  then show "cursor_pos 3 = 3 * 2 ^ 62" by (simp add: cursor_pos_def)
qed (use cursor_pos_pow2 [of 0] cursor_pos_pow2 [of 1] cursor_pos_pow2 [of 3] in simp_all)

lemma scan_advance_eq:
  assumes "a \<le> 64" "unat v mod 2 ^ a = unat u mod 2 ^ a"
    "(cursor_block a u + 1) * 2 ^ (64 - a) mod 2 ^ 64 = cursor_pos w"
  shows "scan_advance (mask a) v = w"
proof -
  have "cursor_pos (scan_advance (mask a) v) = cursor_pos w"
    using assms same_block [of a v u] by (simp add: cursor_advance)
  then show ?thesis unfolding cursor_pos_def by (metis rev_bits_rev_bits word_unat_eq_iff)
qed

lemma scan_advance_16: "scan_advance 15 0 = 8"
  using scan_advance_eq [of 4 0 0 8] by (simp add: cursor_block_def cursor_pos_small mask_eq_exp_minus_1)

lemma scan_advance_4: "scan_advance 3 16 = 2" "scan_advance 3 18 = 1" "scan_advance 3 17 = 3" "scan_advance 3 19 = 0"
  using scan_advance_eq [of 2 16 0 2] scan_advance_eq [of 2 18 2 1] scan_advance_eq [of 2 17 1 3]
    scan_advance_eq [of 2 19 3 0]
  by (simp_all add: cursor_block_def cursor_pos_small mask_eq_exp_minus_1)

lemma ex_shrink_scan: "dictScan ex_shrink 0 = Some ([], 8)"
  by (simp add: dictScan_def ex_shrink_def dictSize_def dictReset_def dictIsRehashing_def arr_get_def scan_advance_16)

lemma ex_shrunk_scan:
  "dictScan ex_shrunk 8 = Some ([], 2)" "dictScan ex_shrunk 2 = Some ([], 1)"
  "dictScan ex_shrunk 1 = Some ([], 3)" "dictScan ex_shrunk 3 = Some ([], 0)"
  by (simp_all add: dictScan_def ex_shrunk_def ex_shrink_def dictSize_def dictIsRehashing_def arr_get_def
    scan_expand.simps Let_def scan_advance_4)

lemma dictScan_shrink_misses:
  "dictResize True ex_shrink = Some (ex_shrunk, DICT_OK) \<and>
   dict_map ex_shrink 4 = Some (Some 40) \<and> dict_map ex_shrunk 4 = Some (Some 40) \<and>
   scan_calls [ex_shrink, ex_shrunk, ex_shrunk, ex_shrunk, ex_shrunk] 0 = Some ([], 0)"
  by (simp add: ex_shrink_resize ex_shrink_scan ex_shrunk_scan)
    (simp add: ex_shrunk_def ex_shrink_def dict_map_def dict_entries_def ht_entries_def dictReset_def
      dictCompareKeys_def idDictType_def)

end
