(* ===== verification/DictIter.thy ===== *)
theory DictIter
  imports DictProps
begin

text \<open>
  The iterators of \<^verbatim>\<open>dict.c\<close> and the fingerprint that guards the unsafe ones. The entries an
  iterator holds are addresses; reading the \<^verbatim>\<open>next\<close> field of an address that no entry has is
  undefined, the value \<^term>\<open>None\<close>. What an iterator has still to deliver is the list
  \<open>iter_rem\<close>: each call of \<^verbatim>\<open>dictNext\<close> takes its first element, and a deletion during the iteration
  filters it.
\<close>

subsection \<open>Fingerprint\<close>

text \<open>One round of the hash; \<^verbatim>\<open>>>\<close> on the signed \<^verbatim>\<open>hash\<close> shifts the sign bit in, sums wrap.\<close>

definition fingerprint_round :: "uint64 \<Rightarrow> uint64 \<Rightarrow> uint64" where
  "fingerprint_round i hash =
     (let hash = hash + i;
          hash = NOT hash + push_bit 21 hash;
          hash = hash XOR signed_drop_bit 24 hash;
          hash = (hash + push_bit 3 hash) + push_bit 8 hash;
          hash = hash XOR signed_drop_bit 14 hash;
          hash = (hash + push_bit 2 hash) + push_bit 4 hash;
          hash = hash XOR signed_drop_bit 28 hash
      in hash + push_bit 31 hash)"

definition dictFingerprint :: "('k, 'v) dict \<Rightarrow> uint64" where
  "dictFingerprint d =
     fold (\<lambda>i hash. fingerprint_round (word_of_nat i) hash)
       [table_addr (ht0 d), ht_size (ht0 d), used (ht0 d), table_addr (ht1 d), ht_size (ht1 d), used (ht1 d)] 0"

subsection \<open>Iterators\<close>

text \<open>The null pointer is address 0.\<close>

record dictIterator =
  it_table :: nat
  it_index :: int
  it_safe :: bool
  it_entry :: nat
  it_nextEntry :: nat
  it_fingerprint :: uint64

text \<open>The field \<^verbatim>\<open>fingerprint\<close> is not initialised; \<open>junk\<close> is what the allocator left there.\<close>

definition dictGetIterator :: "uint64 \<Rightarrow> dictIterator" where
  "dictGetIterator junk = \<lparr>it_table = 0, it_index = -1, it_safe = False, it_entry = 0, it_nextEntry = 0,
     it_fingerprint = junk\<rparr>"

definition dictGetSafeIterator :: "uint64 \<Rightarrow> dictIterator" where
  "dictGetSafeIterator junk = (dictGetIterator junk)\<lparr>it_safe := True\<rparr>"

definition iter_ht :: "('k, 'v) dict \<Rightarrow> dictIterator \<Rightarrow> ('k, 'v) dictht" where
  "iter_ht d it = (if it_table it = 0 then ht0 d else ht1 d)"

text \<open>The pointer to the head of a chain, and \<^verbatim>\<open>entry->next\<close>.\<close>

fun chain_head :: "('k, 'v) dictEntry list \<Rightarrow> nat" where
  "chain_head [] = 0"
| "chain_head (e # es) = de_addr e"

definition chain_from :: "nat \<Rightarrow> ('k, 'v) dictEntry list \<Rightarrow> ('k, 'v) dictEntry list" where
  "chain_from a chain = dropWhile (\<lambda>e. de_addr e \<noteq> a) chain"

definition entry_next :: "('k, 'v) dict \<Rightarrow> nat \<Rightarrow> nat option" where
  "entry_next d a =
     map_option (\<lambda>chain. chain_head (tl (chain_from a chain)))
       (List.find (\<lambda>chain. a \<in> set (map de_addr chain)) (table (ht0 d) @ table (ht1 d)))"

text \<open>
  The body of the loop of \<^verbatim>\<open>dictNext\<close>, up to the \<^verbatim>\<open>if (iter->entry)\<close>: the flag says that the loop was
  left by \<^verbatim>\<open>break\<close>. The size of the table is converted to a signed int for the comparison.
\<close>

definition iter_bucket :: "dictIterator \<Rightarrow> ('k, 'v) dict \<Rightarrow> (dictIterator \<times> ('k, 'v) dict \<times> bool) option" where
  "iter_bucket it d =
     (let first = it_index it = -1 \<and> it_table it = 0;
          it' = (if first \<and> \<not> it_safe it then it\<lparr>it_fingerprint := dictFingerprint d\<rparr> else it);
          d' = (if first \<and> it_safe it then d\<lparr>iterators := iterators d + 1\<rparr> else d)
      in if it_index it' = int INT_MAX then None
         else
           let it'' = it'\<lparr>it_index := it_index it' + 1\<rparr>
           in if it_index it'' \<ge> to_int32 (ht_size (iter_ht d' it''))
              then if dictIsRehashing d' \<and> it_table it'' = 0
                   then let it3 = it''\<lparr>it_table := 1, it_index := 0\<rparr>
                        in do {
                             chain \<leftarrow> arr_get (table (ht1 d')) 0;
                             Some (it3\<lparr>it_entry := chain_head chain\<rparr>, d', False)
                           }
                   else Some (it'', d', True)
              else do {
                     chain \<leftarrow> arr_get (table (iter_ht d' it'')) (nat (it_index it''));
                     Some (it''\<lparr>it_entry := chain_head chain\<rparr>, d', False)
                   })"

partial_function (option) dictNext ::
  "dictIterator \<Rightarrow> ('k, 'v) dict \<Rightarrow> (dictIterator \<times> ('k, 'v) dict \<times> nat) option" where
  "dictNext it d =
     Option.bind (if it_entry it = 0 then iter_bucket it d
                  else Some (it\<lparr>it_entry := it_nextEntry it\<rparr>, d, False)) (\<lambda>(it, d, brk).
       if brk then Some (it, d, 0)
       else if it_entry it \<noteq> 0
            then Option.bind (entry_next d (it_entry it)) (\<lambda>nxt.
                   Some (it\<lparr>it_nextEntry := nxt\<rparr>, d, it_entry it))
            else dictNext it d)"

declare dictNext.simps [code]

text \<open>The \<^verbatim>\<open>assert\<close> of an unsafe iterator fails when the fingerprint has changed.\<close>

definition dictReleaseIterator :: "dictIterator \<Rightarrow> ('k, 'v) dict \<Rightarrow> ('k, 'v) dict option" where
  "dictReleaseIterator it d =
     (if \<not> (it_index it = -1 \<and> it_table it = 0)
      then if it_safe it then Some (d\<lparr>iterators := iterators d - 1\<rparr>)
           else if it_fingerprint it = dictFingerprint d then Some d else None
      else Some d)"

text \<open>
  The loop of a client, \<^verbatim>\<open>while ((de = dictNext(di)) != NULL)\<close>, that deletes the entries with the
  property \<open>P\<close> when it meets them: the entries met, and the destructor calls.
\<close>

fun iter_delete :: "(('k, 'v) dictEntry \<Rightarrow> bool) \<Rightarrow> nat \<Rightarrow> dictIterator \<Rightarrow> ('k, 'v) dict \<Rightarrow>
    (dictIterator \<times> ('k, 'v) dict \<times> ('k, 'v) dictEntry list \<times> ('k, 'v) dict_event list) option" where
  "iter_delete P 0 it d = None"
| "iter_delete P (Suc fuel) it d =
     do {
       (it, d, a) \<leftarrow> dictNext it d;
       if a = 0 then Some (it, d, [], [])
       else do {
         de \<leftarrow> entry_at d a;
         (d, ev) \<leftarrow> (if P de then do { (d, r, ev) \<leftarrow> dictDelete d (de_key de); Some (d, ev) } else Some (d, []));
         (it, d, es, ev') \<leftarrow> iter_delete P fuel it d;
         Some (it, d, de # es, ev @ ev')
       }
     }"

subsection \<open>Chains and their addresses\<close>

lemma dict_addrs: "dict_inv d \<Longrightarrow> distinct (map de_addr (dict_entries d))"
  by (simp add: dict_inv_def addrs_ok_def)

lemma dict_addr_pos: "dict_inv d \<Longrightarrow> e \<in> set (dict_entries d) \<Longrightarrow> 0 < de_addr e"
  by (simp add: dict_inv_def addrs_ok_def)

lemma dict_entries_tables: "dict_entries d = concat (table (ht0 d) @ table (ht1 d))"
  by (simp add: dict_entries_def ht_entries_def)

lemma chain_from_mid:
  assumes "distinct (map de_addr (xs @ e # ys))"
  shows "chain_from (de_addr e) (xs @ e # ys) = e # ys"
proof -
  have "de_addr x \<noteq> de_addr e" if "x \<in> set xs" for x
    using assms imageI [OF that, of de_addr] by auto
  then show ?thesis by (simp add: chain_from_def dropWhile_append2)
qed

lemma chain_distinct:
  assumes "dict_inv d" "c \<in> set (table (ht0 d) @ table (ht1 d))"
  shows "distinct (map de_addr c)"
proof -
  have "distinct (concat (map (map de_addr) (table (ht0 d) @ table (ht1 d))))"
    using dict_addrs [OF assms(1)] unfolding dict_entries_tables map_concat .
  moreover have "map de_addr c \<in> set (map (map de_addr) (table (ht0 d) @ table (ht1 d)))"
    using assms(2) by auto
  ultimately show ?thesis unfolding distinct_concat_iff by blast
qed

lemma chain_unique:
  assumes inv: "dict_inv d" and c: "c \<in> set (table (ht0 d) @ table (ht1 d))" "a \<in> de_addr ` set c"
    and c': "c' \<in> set (table (ht0 d) @ table (ht1 d))" "a \<in> de_addr ` set c'"
  shows "c = c'"
proof -
  let ?T = "table (ht0 d) @ table (ht1 d)"
  have D: "distinct (concat (map (map de_addr) ?T))"
    using dict_addrs [OF inv] unfolding dict_entries_tables map_concat .
  have "map de_addr c = map de_addr c'"
  proof (rule ccontr)
    assume "map de_addr c \<noteq> map de_addr c'"
    then have "set (map de_addr c) \<inter> set (map de_addr c') = {}"
      using D imageI [OF c(1), of "map de_addr"] imageI [OF c'(1), of "map de_addr"]
      unfolding distinct_concat_iff set_map [of "map de_addr"] by blast
    with c(2) c'(2) show False by auto
  qed
  moreover have "inj_on de_addr (set c \<union> set c')"
    using dict_addrs [OF inv] c(1) c'(1) unfolding distinct_map dict_entries_tables
    by (auto intro: inj_on_subset)
  ultimately show ?thesis by (rule map_inj_on)
qed

lemma entry_next_ok:
  assumes inv: "dict_inv d" and c: "xs @ e # ys \<in> set (table (ht0 d) @ table (ht1 d))"
  shows "entry_next d (de_addr e) = Some (chain_head ys)" "distinct (map de_addr (xs @ e # ys))"
proof -
  let ?P = "\<lambda>chain. de_addr e \<in> set (map de_addr chain)"
  let ?T = "table (ht0 d) @ table (ht1 d)"
  show dist: "distinct (map de_addr (xs @ e # ys))"
    by (rule chain_distinct [OF inv c])
  have "List.find ?P ?T \<noteq> None" using c by (auto simp: find_None_iff)
  then obtain c' where c': "List.find ?P ?T = Some c'" by blast
  then obtain i where "i < length ?T" "?P (?T ! i)" "c' = ?T ! i" unfolding find_Some_iff by blast
  then have "c' \<in> set ?T" "?P c'" by (simp_all only: nth_mem)
  then have "c' = xs @ e # ys" using chain_unique [OF inv _ _ c, of c' "de_addr e"] by simp
  then show "entry_next d (de_addr e) = Some (chain_head ys)"
    unfolding entry_next_def c' using chain_from_mid [OF dist] by simp
qed

subsection \<open>What an iterator has still to deliver\<close>

definition iter_later :: "dictIterator \<Rightarrow> ('k, 'v) dict \<Rightarrow> ('k, 'v) dictEntry list" where
  "iter_later it d =
     concat (drop (nat (it_index it + 1)) (table (iter_ht d it))) @
     (if it_table it = 0 \<and> dictIsRehashing d then ht_entries (ht1 d) else [])"

definition iter_chain :: "dictIterator \<Rightarrow> ('k, 'v) dict \<Rightarrow> ('k, 'v) dictEntry list" where
  "iter_chain it d =
     (if it_entry it = 0 \<or> it_nextEntry it = 0 then []
      else chain_from (it_nextEntry it) (table (iter_ht d it) ! nat (it_index it)))"

definition iter_rem :: "dictIterator \<Rightarrow> ('k, 'v) dict \<Rightarrow> ('k, 'v) dictEntry list" where
  "iter_rem it d = iter_chain it d @ iter_later it d"

definition iter_started :: "dictIterator \<Rightarrow> bool" where
  "iter_started it \<longleftrightarrow> \<not> (it_index it = -1 \<and> it_table it = 0)"

definition iter_ok :: "dictIterator \<Rightarrow> ('k, 'v) dict \<Rightarrow> bool" where
  "iter_ok it d \<longleftrightarrow>
     dict_inv d \<and> ht_size (ht0 d) < 2 ^ 31 \<and> ht_size (ht1 d) < 2 ^ 31 \<and>
     -1 \<le> it_index it \<and> it_index it < int (ht_size (iter_ht d it)) \<and> it_table it \<le> 1 \<and>
     (it_table it = 1 \<longrightarrow> dictIsRehashing d \<and> 0 \<le> it_index it) \<and>
     (it_entry it \<noteq> 0 \<longrightarrow> 0 \<le> it_index it) \<and>
     (it_entry it \<noteq> 0 \<and> it_nextEntry it \<noteq> 0 \<longrightarrow>
        it_nextEntry it \<in> de_addr ` set (table (iter_ht d it) ! nat (it_index it)))"

text \<open>The dictionary and the fingerprint once the first call has been made.\<close>

definition iter_begin :: "dictIterator \<Rightarrow> ('k, 'v) dict \<Rightarrow> ('k, 'v) dict" where
  "iter_begin it d = (if \<not> iter_started it \<and> it_safe it then d\<lparr>iterators := iterators d + 1\<rparr> else d)"

definition iter_print :: "dictIterator \<Rightarrow> ('k, 'v) dict \<Rightarrow> uint64" where
  "iter_print it d = (if \<not> iter_started it \<and> \<not> it_safe it then dictFingerprint d else it_fingerprint it)"

lemma iterators_simps [simp]:
  "dict_inv (d\<lparr>iterators := n\<rparr>) = dict_inv d" "dictIsRehashing (d\<lparr>iterators := n\<rparr>) = dictIsRehashing d"
  "dict_entries (d\<lparr>iterators := n\<rparr>) = dict_entries d" "iter_ht (d\<lparr>iterators := n\<rparr>) it = iter_ht d it"
  "entry_next (d\<lparr>iterators := n\<rparr>) = entry_next d" "dictFingerprint (d\<lparr>iterators := n\<rparr>) = dictFingerprint d"
  by (simp_all add: dict_inv_def rehash_wf_def dictIsRehashing_def dict_entries_def iter_ht_def entry_next_def
    dictFingerprint_def fun_eq_iff)

text \<open>The rest of the loop body once the head of a chain has been read.\<close>

lemma iter_ht_chain_in:
  assumes "dict_inv d" "0 \<le> it_index it" "it_index it < int (ht_size (iter_ht d it))"
  shows "nat (it_index it) < length (table (iter_ht d it))"
    "table (iter_ht d it) ! nat (it_index it) \<in> set (table (ht0 d) @ table (ht1 d))"
proof -
  show "nat (it_index it) < length (table (iter_ht d it))"
    using assms by (auto simp: dict_inv_def ht_wf_def iter_ht_def split: if_splits)
  then show "table (iter_ht d it) ! nat (it_index it) \<in> set (table (ht0 d) @ table (ht1 d))"
    by (auto simp: iter_ht_def split: if_splits)
qed

lemma iter_later_split:
  assumes "0 \<le> it_index it" "nat (it_index it) < length (table (iter_ht d it))"
  shows "concat (drop (nat (it_index it)) (table (iter_ht d it))) @
      (if it_table it = 0 \<and> dictIsRehashing d then ht_entries (ht1 d) else []) =
    table (iter_ht d it) ! nat (it_index it) @ iter_later it d"
proof -
  have "nat (it_index it + 1) = Suc (nat (it_index it))" using assms(1) by simp
  then show ?thesis using assms(2) unfolding iter_later_def by (simp add: Cons_nth_drop_Suc [symmetric])
qed

definition iter_left :: "dictIterator \<Rightarrow> ('k, 'v) dict \<Rightarrow> nat" where
  "iter_left it d = nat (int (ht_size (iter_ht d it)) - it_index it) +
     (if it_table it = 0 then ht_size (ht1 d) + 1 else 0)"

text \<open>One turn of the loop that reads the head of the next chain.\<close>

lemma iter_bucket_ok:
  assumes ok: "iter_ok it d" and e: "it_entry it = 0"
  obtains (brk) it' where "iter_bucket it d = Some (it', iter_begin it d, True)" "iter_rem it d = []"
      "iter_started it'" "it_safe it' = it_safe it" "it_fingerprint it' = iter_print it d"
    | (bucket) it' where
      "iter_bucket it d = Some (it'\<lparr>it_entry := chain_head (table (iter_ht d it') ! nat (it_index it'))\<rparr>,
         iter_begin it d, False)"
      "it_entry it' = 0" "iter_ok it' d" "0 \<le> it_index it'" "it_safe it' = it_safe it"
      "it_fingerprint it' = iter_print it d"
      "iter_rem it d = table (iter_ht d it') ! nat (it_index it') @ iter_later it' d"
      "iter_left it' d < iter_left it d"
proof -
  let ?first = "it_index it = -1 \<and> it_table it = 0"
  define it1 where "it1 = it\<lparr>it_fingerprint := iter_print it d, it_index := it_index it + 1\<rparr>"
  have inv: "dict_inv d" and i: "-1 \<le> it_index it" "it_index it < int (ht_size (iter_ht d it))"
    and sz: "ht_size (iter_ht d it) < 2 ^ 31" using ok by (auto simp: iter_ok_def iter_ht_def)
  have ht: "iter_ht (iter_begin it d) x = iter_ht d x" "dictIsRehashing (iter_begin it d) = dictIsRehashing d"
    "ht1 (iter_begin it d) = ht1 d" for x
    by (simp_all add: iter_begin_def)
  have nomax: "it_index it \<noteq> int INT_MAX" using i sz by (simp add: INT_MAX_def)
  have ht1: "iter_ht d it1 = iter_ht d it" by (simp add: it1_def iter_ht_def)
  have body: "iter_bucket it d =
      (if it_index it1 \<ge> int (ht_size (iter_ht d it1))
       then if dictIsRehashing d \<and> it_table it = 0
            then do { chain \<leftarrow> arr_get (table (ht1 d)) 0;
                      Some (it1\<lparr>it_table := 1, it_index := 0, it_entry := chain_head chain\<rparr>, iter_begin it d, False) }
            else Some (it1, iter_begin it d, True)
       else do { chain \<leftarrow> arr_get (table (iter_ht d it1)) (nat (it_index it1));
                 Some (it1\<lparr>it_entry := chain_head chain\<rparr>, iter_begin it d, False) })"
  proof -
    have it: "(if ?first \<and> \<not> it_safe it then it\<lparr>it_fingerprint := dictFingerprint d\<rparr> else it) =
        it\<lparr>it_fingerprint := iter_print it d\<rparr>"
      by (simp add: iter_print_def iter_started_def)
    have d: "(if ?first \<and> it_safe it then d\<lparr>iterators := iterators d + 1\<rparr> else d) = iter_begin it d"
      by (simp add: iter_begin_def iter_started_def)
    have "iter_ht d (it\<lparr>it_fingerprint := iter_print it d, it_index := it_index it + 1\<rparr>) = iter_ht d it"
      by (simp add: iter_ht_def)
    then show ?thesis
      unfolding iter_bucket_def Let_def it d it1_def
      using nomax to_int32_small [OF sz] by (simp add: ht)
  qed
  have "length (table (iter_ht d it)) = ht_size (iter_ht d it)"
    using inv by (simp add: dict_inv_def ht_wf_def iter_ht_def)
  then have past: "concat (drop (nat (it_index it + 1)) (table (iter_ht d it))) = []"
    if "it_index it1 \<ge> int (ht_size (iter_ht d it1))"
    using that unfolding ht1 by (simp add: it1_def)
  consider (inside) "it_index it1 < int (ht_size (iter_ht d it1))"
    | (over) "it_index it1 \<ge> int (ht_size (iter_ht d it1))" "dictIsRehashing d" "it_table it = 0"
    | (last) "it_index it1 \<ge> int (ht_size (iter_ht d it1))" "\<not> (dictIsRehashing d \<and> it_table it = 0)"
    by linarith
  then show thesis
  proof cases
    case inside
    have i1: "0 \<le> it_index it1" using i by (simp add: it1_def)
    note in1 = iter_ht_chain_in [OF inv i1 inside]
    have "iter_rem it d = table (iter_ht d it1) ! nat (it_index it1) @ iter_later it1 d"
      using e iter_later_split [OF i1 in1(1)] unfolding ht1
      by (simp add: iter_rem_def iter_chain_def iter_later_def it1_def)
    moreover have "iter_ok it1 d" using ok i1 inside e unfolding iter_ok_def ht1 by (simp add: it1_def)
    ultimately show thesis
      using inside i1 in1(1) e i by (intro bucket [of it1])
        (simp_all add: body arr_get_in, simp_all add: it1_def iter_left_def iter_ht_def)
  next
    case over
    define it2 where "it2 = it1\<lparr>it_table := 1, it_index := 0\<rparr>"
    have len: "0 < length (table (ht1 d))" "0 < ht_size (ht1 d)"
      using inv over(2) by (auto simp: dict_inv_def rehash_wf_def ht_wf_def)
    have "iter_ok it2 d" using ok over e len by (simp add: iter_ok_def it2_def it1_def iter_ht_def)
    moreover have "concat (drop (nat (it_index it + 1)) (table (iter_ht d it))) = []"
      using past over(1) by blast
    then have "iter_rem it d = table (iter_ht d it2) ! nat (it_index it2) @ iter_later it2 d"
      using e over iter_later_split [of it2 d] len
      by (simp add: iter_rem_def iter_chain_def iter_later_def [of it d] it2_def iter_ht_def ht_entries_def)
    ultimately show thesis
      using over len e by (intro bucket [of it2])
        (simp_all add: body arr_get_in, simp_all add: it2_def it1_def iter_left_def iter_ht_def)
  next
    case last
    have "concat (drop (nat (it_index it + 1)) (table (iter_ht d it))) = []"
      using past last(1) by blast
    then have "iter_rem it d = []"
      using e last(2) by (auto simp: iter_rem_def iter_chain_def iter_later_def)
    moreover have "iter_bucket it d = Some (it1, iter_begin it d, True)" using last body by auto
    ultimately show thesis
      using i by (intro brk [of it1]) (simp_all add: it1_def iter_started_def)
  qed
qed

lemma chain_head_0: "dict_inv d \<Longrightarrow> c \<in> set (table (ht0 d) @ table (ht1 d)) \<Longrightarrow> chain_head c = 0 \<longleftrightarrow> c = []"
  using dict_addr_pos [of d] by (cases c) (force simp: dict_entries_tables)+

text \<open>Reading an entry: the rest of its chain is what comes next.\<close>

lemma iter_at_entry:
  assumes ok: "iter_ok it d" and i: "0 \<le> it_index it"
    and c: "table (iter_ht d it) ! nat (it_index it) = xs @ e # ys"
  defines "it' \<equiv> it\<lparr>it_entry := de_addr e, it_nextEntry := chain_head ys\<rparr>"
  shows "entry_next d (de_addr e) = Some (chain_head ys)" "iter_ok it' d" "iter_rem it' d = ys @ iter_later it d"
    "de_addr e \<noteq> 0"
proof -
  have inv: "dict_inv d" using ok by (simp add: iter_ok_def)
  have cin: "xs @ e # ys \<in> set (table (ht0 d) @ table (ht1 d))"
    using iter_ht_chain_in(2) [OF inv i] ok unfolding c by (simp add: iter_ok_def)
  note nxt = entry_next_ok [OF inv cin]
  show "entry_next d (de_addr e) = Some (chain_head ys)" by (rule nxt(1))
  have "e \<in> set (dict_entries d)" using cin by (force simp: dict_entries_tables)
  then show e0: "de_addr e \<noteq> 0" using dict_addr_pos [OF inv] by fastforce
  have ht: "iter_ht d it' = iter_ht d it" by (simp add: it'_def iter_ht_def)
  show "iter_ok it' d"
    using ok i c unfolding iter_ok_def ht by (cases ys) (simp_all add: it'_def)
  have "iter_chain it' d = ys"
  proof (cases ys)
    case Nil
    then show ?thesis by (simp add: iter_chain_def it'_def)
  next
    case (Cons y zs)
    have "y \<in> set (dict_entries d)" using cin Cons by (force simp: dict_entries_tables)
    then have "de_addr y \<noteq> 0" using dict_addr_pos [OF inv] by fastforce
    moreover have "chain_from (de_addr y) ((xs @ [e]) @ y # zs) = y # zs"
      using nxt(2) Cons by (intro chain_from_mid) simp
    ultimately show ?thesis using e0 c unfolding iter_chain_def ht by (simp add: it'_def Cons)
  qed
  then show "iter_rem it' d = ys @ iter_later it d"
    unfolding iter_rem_def iter_later_def ht by (simp add: it'_def)
qed

subsection \<open>The next entry\<close>

lemma iter_begin_simps [simp]:
  "iter_begin it d = d" "iter_print it d = it_fingerprint it" if "iter_started it"
  using that by (simp_all add: iter_begin_def iter_print_def)

lemma iter_ok_begin [simp]:
  "iter_ok x (iter_begin it d) = iter_ok x d" "iter_rem x (iter_begin it d) = iter_rem x d"
  "entry_next (iter_begin it d) = entry_next d"
  by (simp_all add: iter_begin_def iter_ok_def iter_rem_def iter_chain_def iter_later_def)

definition iter_yields :: "dictIterator \<Rightarrow> ('k, 'v) dict \<Rightarrow> bool" where
  "iter_yields it d \<longleftrightarrow>
     (\<exists>it'. iter_started it' \<and> it_safe it' = it_safe it \<and> it_fingerprint it' = iter_print it d \<and>
       (case iter_rem it d of
          [] \<Rightarrow> dictNext it d = Some (it', iter_begin it d, 0)
        | e # es \<Rightarrow> dictNext it d = Some (it', iter_begin it d, de_addr e) \<and> iter_ok it' d \<and>
            iter_rem it' d = es \<and> it_entry it' = de_addr e))"

lemma dictNext_bucket: "iter_ok it d \<Longrightarrow> it_entry it = 0 \<Longrightarrow> iter_yields it d"
proof (induction "iter_left it d" arbitrary: it d rule: less_induct)
  case less
  from less.prems show ?case
  proof (cases rule: iter_bucket_ok)
    case (brk it')
    then show ?thesis unfolding iter_yields_def
      by (intro exI [of _ it']) (simp add: dictNext.simps [of it] less.prems)
  next
    case (bucket it')
    let ?c = "table (iter_ht d it') ! nat (it_index it')" and ?d = "iter_begin it d"
    have st: "iter_started it'" using bucket(4) by (simp add: iter_started_def)
    show ?thesis
    proof (cases ?c)
      case Nil
      have upd: "it'\<lparr>it_entry := 0\<rparr> = it'" using bucket(2) by (cases it') simp
      have step: "dictNext it d = dictNext it' ?d"
        using bucket(1,2) Nil less.prems(2) by (subst dictNext.simps) (simp, simp only: upd)
      have same: "iter_left it' ?d = iter_left it' d" by (simp add: iter_left_def iter_begin_def)
      have "iter_yields it' ?d"
        by (rule less.hyps) (simp_all add: same bucket(2,3,8))
      moreover have "iter_rem it' d = iter_rem it d"
        using bucket(2,7) Nil by (simp add: iter_rem_def [of it'] iter_chain_def [of it'])
      ultimately show ?thesis
        unfolding iter_yields_def step using st bucket(5,6) by (simp cong: list.case_cong)
    next
      case (Cons e es)
      note at = iter_at_entry [OF bucket(3,4), of "[]" e es, simplified, OF Cons]
      let ?it = "it'\<lparr>it_entry := de_addr e, it_nextEntry := chain_head es\<rparr>"
      have "dictNext it d = Some (?it, ?d, de_addr e)"
        using bucket(1) Cons less.prems(2) at(1,4) by (subst dictNext.simps) simp
      then show ?thesis
        unfolding iter_yields_def using at st bucket(5-7) Cons
        by (intro exI [of _ ?it]) (simp add: iter_started_def)
    qed
  qed
qed

lemma dictNext_ok:
  assumes ok: "iter_ok it d"
  shows "iter_yields it d"
proof (cases "it_entry it = 0")
  case True
  then show ?thesis using dictNext_bucket ok by blast
next
  case False
  have i: "0 \<le> it_index it" using ok False by (simp add: iter_ok_def)
  then have st: "iter_started it" by (simp add: iter_started_def)
  show ?thesis
  proof (cases "it_nextEntry it = 0")
    case True
    let ?it = "it\<lparr>it_entry := 0\<rparr>"
    have ht: "iter_ht d ?it = iter_ht d it" by (simp add: iter_ht_def)
    have "iter_ok ?it d" using ok unfolding iter_ok_def ht by simp
    then have "iter_yields ?it d" by (rule dictNext_bucket) simp
    moreover have "dictNext it d = dictNext ?it d"
      using False True by (subst dictNext.simps) simp
    moreover have "iter_rem ?it d = iter_rem it d"
      unfolding iter_rem_def iter_chain_def iter_later_def ht using True by simp
    ultimately show ?thesis
      unfolding iter_yields_def using st by (simp add: iter_started_def cong: list.case_cong)
  next
    case nxt: False
    let ?c = "table (iter_ht d it) ! nat (it_index it)"
    have "it_nextEntry it \<in> de_addr ` set ?c" using ok False nxt by (simp add: iter_ok_def)
    then obtain e xs ys where c: "?c = xs @ e # ys" and a: "de_addr e = it_nextEntry it"
      by (metis imageE split_list)
    note at = iter_at_entry [OF ok i c]
    let ?it = "it\<lparr>it_entry := de_addr e, it_nextEntry := chain_head ys\<rparr>"
    have "dictNext it d = Some (?it, d, de_addr e)"
      using False nxt a at(1) by (subst dictNext.simps) simp
    moreover have "iter_chain it d = e # ys"
    proof -
      have inv: "dict_inv d" and "it_index it < int (ht_size (iter_ht d it))" using ok by (simp_all add: iter_ok_def)
      from chain_distinct [OF inv iter_ht_chain_in(2) [OF inv i this(2)]]
      show ?thesis using chain_from_mid [of xs e ys] a False nxt c by (simp add: iter_chain_def)
    qed
    ultimately show ?thesis
      unfolding iter_yields_def using at st by (intro exI [of _ ?it]) (simp add: iter_rem_def [of it] iter_started_def)
  qed
qed

subsection \<open>Deleting while iterating\<close>

text \<open>What a deletion does to the tables while a safe iterator is active.\<close>

definition ht_without :: "nat \<Rightarrow> ('k, 'v) dictht \<Rightarrow> ('k, 'v) dictht \<Rightarrow> bool" where
  "ht_without a h h' \<longleftrightarrow> table h' = map (filter (\<lambda>e. de_addr e \<noteq> a)) (table h) \<and>
     ht_size h' = ht_size h \<and> sizemask h' = sizemask h \<and> table_addr h' = table_addr h"

lemma ht_without_absent:
  assumes "\<And>e. e \<in> set (ht_entries h) \<Longrightarrow> de_addr e \<noteq> a"
  shows "ht_without a h h"
proof -
  have "filter (\<lambda>e. de_addr e \<noteq> a) c = c" if "c \<in> set (table h)" for c
    using assms that by (auto simp: filter_id_conv ht_entries_def)
  then show ?thesis by (simp add: ht_without_def map_idI)
qed

lemma remove_first_filter:
  "distinct (map f xs) \<Longrightarrow> x \<in> set xs \<Longrightarrow> (\<And>y. y \<in> set xs \<Longrightarrow> P y \<longleftrightarrow> y = x) \<Longrightarrow>
   remove_first P xs = filter (\<lambda>y. f y \<noteq> f x) xs"
proof (induction xs)
  case (Cons y ys)
  show ?case
  proof (cases "y = x")
    case True
    have "f z \<noteq> f x" if "z \<in> set ys" for z
      using Cons.prems(1) True imageI [OF that, of f] by auto
    then have "filter (\<lambda>y. f y \<noteq> f x) ys = ys" by (simp add: filter_id_conv)
    then show ?thesis using True Cons.prems(3) [of y] by simp
  next
    case False
    then have "x \<in> set ys" using Cons.prems(2) by simp
    then have "f y \<noteq> f x" using Cons.prems(1) imageI [of x "set ys" f] by auto
    moreover have "remove_first P ys = filter (\<lambda>y. f y \<noteq> f x) ys"
      using Cons.IH Cons.prems \<open>x \<in> set ys\<close> by simp
    ultimately show ?thesis using False Cons.prems(3) [of y] by simp
  qed
qed simp

lemma ht_wf_index:
  "ht_wf t h \<Longrightarrow> i < length (table h) \<Longrightarrow> e \<in> set (table h ! i) \<Longrightarrow> dictHashKey t (de_key e) AND sizemask h = i"
  unfolding ht_wf_def by blast

lemma chain_from_head:
  "a \<in> de_addr ` set c \<Longrightarrow> \<exists>x \<in> set (chain_from a c). de_addr x = a"
  unfolding chain_from_def by (induction c) auto

lemma chain_from_filter:
  "n \<noteq> a \<Longrightarrow> chain_from n (filter (\<lambda>e. de_addr e \<noteq> a) c) = filter (\<lambda>e. de_addr e \<noteq> a) (chain_from n c)"
  unfolding chain_from_def by (induction c) auto

text \<open>Deleting another entry than the one the iterator reads next does not disturb it.\<close>

lemma iter_without:
  assumes ok: "iter_ok it d" and inv': "dict_inv d'" and rh: "rehashidx d' = rehashidx d"
    and h: "ht_without a (ht0 d) (ht0 d')" "ht_without a (ht1 d) (ht1 d')" and n: "it_nextEntry it \<noteq> a"
  shows "iter_ok it d'" "iter_rem it d' = filter (\<lambda>e. de_addr e \<noteq> a) (iter_rem it d)"
    "dict_entries d' = filter (\<lambda>e. de_addr e \<noteq> a) (dict_entries d)"
proof -
  have hi: "ht_without a (iter_ht d it) (iter_ht d' it)" using h by (simp add: iter_ht_def)
  have rh': "dictIsRehashing d' = dictIsRehashing d" using rh by (simp add: dictIsRehashing_def)
  have inv: "dict_inv d" using ok by (simp add: iter_ok_def)
  have ht1: "ht_entries (ht1 d') = filter (\<lambda>e. de_addr e \<noteq> a) (ht_entries (ht1 d))"
    "ht_entries (ht0 d') = filter (\<lambda>e. de_addr e \<noteq> a) (ht_entries (ht0 d))"
    using h by (simp_all add: ht_without_def ht_entries_def filter_concat)
  then show "dict_entries d' = filter (\<lambda>e. de_addr e \<noteq> a) (dict_entries d)" by (simp add: dict_entries_def)
  have nth: "table (iter_ht d' it) ! nat (it_index it) = filter (\<lambda>e. de_addr e \<noteq> a) (table (iter_ht d it) ! nat (it_index it))"
    if "it_entry it \<noteq> 0"
    using hi iter_ht_chain_in(1) [OF inv] ok that by (simp add: ht_without_def iter_ok_def)
  show "iter_ok it d'"
    using ok inv' h hi rh' n nth unfolding iter_ok_def ht_without_def by auto
  have "iter_chain it d' = filter (\<lambda>e. de_addr e \<noteq> a) (iter_chain it d)"
    by (simp add: iter_chain_def nth chain_from_filter [OF n])
  moreover have "iter_later it d' = filter (\<lambda>e. de_addr e \<noteq> a) (iter_later it d)"
    using hi ht1 rh' unfolding iter_later_def ht_without_def by (simp add: drop_map filter_concat)
  ultimately show "iter_rem it d' = filter (\<lambda>e. de_addr e \<noteq> a) (iter_rem it d)" by (simp add: iter_rem_def)
qed

text \<open>The remaining entries are the end of the list of all entries.\<close>

lemma dropWhile_suffix: "\<exists>ys. xs = ys @ dropWhile P xs"
  by (metis takeWhile_dropWhile_id)

lemma iter_rem_suffix:
  assumes ok: "iter_ok it d"
  shows "\<exists>xs. dict_entries d = xs @ iter_rem it d"
proof -
  let ?i = "it_index it" and ?T = "table (iter_ht d it)"
  have inv: "dict_inv d" using ok by (simp add: iter_ok_def)
  have "\<exists>xs. concat ?T = xs @ iter_chain it d @ concat (drop (nat (?i + 1)) ?T)"
  proof (cases "iter_chain it d = []")
    case True
    then show ?thesis by (metis append_Nil append_take_drop_id concat_append)
  next
    case False
    then have e: "it_entry it \<noteq> 0" by (simp add: iter_chain_def split: if_splits)
    then have i: "0 \<le> ?i" "nat ?i < length ?T"
      using ok iter_ht_chain_in(1) [OF inv] by (simp_all add: iter_ok_def)
    then have "nat (?i + 1) = Suc (nat ?i)" by simp
    then have "concat ?T = concat (take (nat ?i) ?T) @ ?T ! nat ?i @ concat (drop (nat (?i + 1)) ?T)"
      using arg_cong [OF id_take_nth_drop [OF i(2)], of concat] by simp
    moreover obtain ys where "?T ! nat ?i = ys @ iter_chain it d"
      using False dropWhile_suffix unfolding iter_chain_def chain_from_def by (auto split: if_splits)
    ultimately show ?thesis by (metis append.assoc)
  qed
  then obtain xs where xs: "concat ?T = xs @ iter_chain it d @ concat (drop (nat (?i + 1)) ?T)" by blast
  show ?thesis
  proof (cases "it_table it = 0")
    case True
    have "ht_entries (ht1 d) = []" if "\<not> dictIsRehashing d"
      using inv that by (simp add: dict_inv_def rehash_wf_def dictReset_def ht_entries_def)
    then have "dict_entries d = xs @ iter_rem it d"
      using xs True by (simp add: dict_entries_def ht_entries_def iter_rem_def iter_later_def iter_ht_def)
    then show ?thesis by blast
  next
    case False
    then have "dict_entries d = (ht_entries (ht0 d) @ xs) @ iter_rem it d"
      using xs by (simp add: dict_entries_def ht_entries_def iter_rem_def iter_later_def iter_ht_def)
    then show ?thesis by blast
  qed
qed

context dict_type
begin

lemma ht_unlink_without:
  assumes wf: "ht_wf t h" and sz: "ht_size h \<noteq> 0" and e: "e \<in> set (ht_entries h)"
    and dist: "distinct (map de_addr (ht_entries h))" and kd: "keys_differ t (ht_entries h)"
  shows "ht_without (de_addr e) h (ht_unlink t h (de_key e))"
proof -
  define idx where "idx = dictHashKey t (de_key e) AND sizemask h"
  have idx: "idx < length (table h)" unfolding idx_def using ht_index_bound [OF wf sz] .
  obtain i where i: "i < length (table h)" "e \<in> set (table h ! i)" using e by (auto simp: ht_entries_iff)
  have "idx = i" unfolding idx_def by (rule ht_wf_index [OF wf i])
  with i have ei: "e \<in> set (table h ! idx)" by simp
  have D: "distinct (concat (map (map de_addr) (table h)))" using dist by (simp add: ht_entries_def map_concat)
  have other: "de_addr x \<noteq> de_addr e" if "j < length (table h)" "j \<noteq> idx" "x \<in> set (table h ! j)" for j x
  proof
    assume eq: "de_addr x = de_addr e"
    have "x \<in> set (ht_entries h)" unfolding ht_entries_iff using that by blast
    moreover have "inj_on de_addr (set (ht_entries h))" using dist by (simp only: distinct_map)
    ultimately have "x = e" using eq e by (simp only: inj_on_eq_iff)
    then have "idx = j" unfolding idx_def using ht_wf_index [OF wf that(1,3)] by simp
    with that show False by simp
  qed
  have rm: "remove_first (\<lambda>he. dictCompareKeys t (de_key e) (de_key he)) (table h ! idx) =
      filter (\<lambda>x. de_addr x \<noteq> de_addr e) (table h ! idx)"
  proof (rule remove_first_filter [OF _ ei])
    show "distinct (map de_addr (table h ! idx))"
    proof -
      have "map de_addr (table h ! idx) \<in> set (map (map de_addr) (table h))" using idx by simp
      with D show ?thesis unfolding distinct_concat_iff by blast
    qed
    show "dictCompareKeys t (de_key e) (de_key y) \<longleftrightarrow> y = e" if "y \<in> set (table h ! idx)" for y
    proof -
      have "y \<in> set (ht_entries h)" unfolding ht_entries_iff using that idx by blast
      then show ?thesis using keys_differ_unique [OF kd e] cmp_refl by blast
    qed
  qed
  have "(table h)[idx := remove_first (\<lambda>he. dictCompareKeys t (de_key e) (de_key he)) (table h ! idx)] =
      map (filter (\<lambda>x. de_addr x \<noteq> de_addr e)) (table h)"
  proof (rule nth_equalityI)
    fix i assume "i < length ((table h)[idx := remove_first (\<lambda>he. dictCompareKeys t (de_key e) (de_key he)) (table h ! idx)])"
    then have "i \<noteq> idx \<Longrightarrow> filter (\<lambda>x. de_addr x \<noteq> de_addr e) (table h ! i) = table h ! i"
      and il: "i < length (table h)" using other by (simp_all add: filter_id_conv)
    with rm show "(table h)[idx := remove_first (\<lambda>he. dictCompareKeys t (de_key e) (de_key he)) (table h ! idx)] ! i =
        map (filter (\<lambda>x. de_addr x \<noteq> de_addr e)) (table h) ! i"
      by (cases "i = idx") simp_all
  qed simp
  then show ?thesis by (simp add: ht_without_def ht_unlink_def idx_def [symmetric] Let_def)
qed

lemma dictDelete_iterating:
  assumes inv: "dict_inv d" and t: "dtype d = t" and it: "iterators d \<noteq> 0" and e: "e \<in> set (dict_entries d)"
  obtains d' where "dictDelete d (de_key e) = Some (d', DICT_OK, dictFreeEntry t e)" "dict_inv d'" "dtype d' = t"
    "ht_without (de_addr e) (ht0 d) (ht0 d')" "ht_without (de_addr e) (ht1 d) (ht1 d')"
    "rehashidx d' = rehashidx d" "iterators d' = iterators d"
proof -
  let ?find = "\<lambda>es. List.find (\<lambda>x. dictCompareKeys t (de_key e) (de_key x)) es"
  have kd: "keys_differ t (ht_entries (ht0 d))" "keys_differ t (ht_entries (ht1 d))"
    "keys_differ t (dict_entries d)"
    using inv t by (auto simp: dict_inv_def dict_entries_def keys_differ_append)
  have dist: "distinct (map de_addr (ht_entries (ht0 d)))" "distinct (map de_addr (ht_entries (ht1 d)))"
    "\<And>x y. x \<in> set (ht_entries (ht0 d)) \<Longrightarrow> y \<in> set (ht_entries (ht1 d)) \<Longrightarrow> de_addr x \<noteq> de_addr y"
    using dict_addrs [OF inv] by (force simp: dict_entries_def)+
  have wf: "ht_wf t (ht0 d)" "ht_wf t (ht1 d)" using inv t by (simp_all add: dict_inv_def)
  have s0: "ht_size (ht0 d) \<noteq> 0"
    using inv e by (auto simp: dict_inv_def dict_entries_def ht_wf_def ht_entries_def
      rehash_wf_def dictReset_def split: if_splits)
  have step: "dictStepIfRehashing d = Some d" using it by (simp add: dictStepIfRehashing_def dictRehashStep_def)
  note find = dict_inv_find [OF inv t s0]
  have "\<exists>d'. dictDelete d (de_key e) = Some (d', DICT_OK, dictFreeEntry t e) \<and> dtype d' = t \<and>
    ht_without (de_addr e) (ht0 d) (ht0 d') \<and> ht_without (de_addr e) (ht1 d) (ht1 d') \<and>
    rehashidx d' = rehashidx d \<and> iterators d' = iterators d"
  proof (cases "e \<in> set (ht_entries (ht0 d))")
    case True
    then have "?find (ht_entries (ht0 d)) = Some e" using find_key_iff [OF kd(1)] cmp_refl by blast
    moreover have "ht_without (de_addr e) (ht1 d) (ht1 d)" using dist(3) True by (intro ht_without_absent) force
    ultimately show ?thesis
      using ht_unlink_without [OF wf(1) s0 True dist(1) kd(1)] s0 step find(1) t
      by (simp add: dictDelete_def dictGenericDelete_def)
  next
    case False
    then have e1: "e \<in> set (ht_entries (ht1 d))" using e by (simp add: dict_entries_def)
    then have rh: "dictIsRehashing d" using find(3) by (cases "dictIsRehashing d") simp_all
    then have s1: "ht_size (ht1 d) \<noteq> 0" using inv by (simp add: dict_inv_def rehash_wf_def)
    have "?find (ht_entries (ht1 d)) = Some e" using find_key_iff [OF kd(2)] cmp_refl e1 by blast
    moreover have "?find (ht_entries (ht0 d)) = None"
      using keys_differ_unique [OF kd(3) e] cmp_refl False by (auto simp: find_None_iff dict_entries_def)
    moreover have "ht_without (de_addr e) (ht0 d) (ht0 d)" using dist(3) e1 by (intro ht_without_absent)
    ultimately show ?thesis
      using ht_unlink_without [OF wf(2) s1 e1 dist(2) kd(2)] s0 step find(1,2) rh t
      by (simp add: dictDelete_def dictGenericDelete_def)
  qed
  then obtain d' where d': "dictDelete d (de_key e) = Some (d', DICT_OK, dictFreeEntry t e)" "dtype d' = t"
    "ht_without (de_addr e) (ht0 d) (ht0 d')" "ht_without (de_addr e) (ht1 d) (ht1 d')"
    "rehashidx d' = rehashidx d" "iterators d' = iterators d" by blast
  moreover have "dict_inv d'"
    using dictGenericDelete_ok [OF inv t, of "de_key e" False] d'(1) unfolding dictDelete_def by fastforce
  ultimately show thesis using that by blast
qed

text \<open>One turn of the client's loop: what is left to iterate over does not change.\<close>

lemma iter_delete_step:
  assumes it: "iter_ok it d" "iter_rem it d = es" "it_entry it = de_addr e" and d: "dict_inv d" "dtype d = t"
    and xs: "dict_entries d = xs @ e # es"
    and P: "(\<forall>e. \<not> P e) \<or> iterators d \<noteq> 0"
  obtains d2 ev where
    "(if P e then do { (d, r, ev) \<leftarrow> dictDelete d (de_key e); Some (d, ev) } else Some (d, [])) = Some (d2, ev)"
    "ev = (if P e then dictFreeEntry t e else [])" "iter_ok it d2" "iter_rem it d2 = es" "dtype d2 = t"
    "iterators d2 = iterators d" "dict_entries d2 = filter (\<lambda>x. \<not> (x = e \<and> P x)) (dict_entries d)"
    "(\<forall>e. \<not> P e) \<longrightarrow> d2 = d"
proof (cases "P e")
  case False
  then have "filter (\<lambda>x. \<not> (x = e \<and> P x)) (dict_entries d) = dict_entries d" by (auto simp: filter_id_conv)
  with False it d that [of d "[]"] show thesis by simp
next
  case True
  have dist: "distinct (map de_addr (xs @ e # es))" using dict_addrs [OF d(1)] unfolding xs .
  then have "de_addr e \<notin> de_addr ` (set es \<union> set xs)" by auto
  then have ne: "de_addr x \<noteq> de_addr e" if "x \<in> set es \<or> x \<in> set xs" for x
    using that by (metis UnCI imageI)
  obtain d2 where d2: "dictDelete d (de_key e) = Some (d2, DICT_OK, dictFreeEntry t e)" "dict_inv d2" "dtype d2 = t"
    "ht_without (de_addr e) (ht0 d) (ht0 d2)" "ht_without (de_addr e) (ht1 d) (ht1 d2)"
    "rehashidx d2 = rehashidx d" "iterators d2 = iterators d"
    using dictDelete_iterating [OF d, of e] True P xs by auto
  have "e \<in> set (dict_entries d)" unfolding xs by simp
  then have e0: "de_addr e \<noteq> 0" using dict_addr_pos [OF d(1)] by fastforce
  have nxt: "it_nextEntry it \<noteq> de_addr e"
  proof
    assume eq: "it_nextEntry it = de_addr e"
    have "it_entry it \<noteq> 0 \<and> it_nextEntry it \<noteq> 0 \<longrightarrow>
        it_nextEntry it \<in> de_addr ` set (table (iter_ht d it) ! nat (it_index it))"
      using it(1) unfolding iter_ok_def by blast
    then have "de_addr e \<in> de_addr ` set (table (iter_ht d it) ! nat (it_index it))"
      unfolding eq it(3) using e0 by blast
    from chain_from_head [OF this] obtain x where "x \<in> set (iter_chain it d)" and xe: "de_addr x = de_addr e"
      unfolding iter_chain_def eq it(3) using e0 by auto
    then have "x \<in> set es" unfolding it(2) [symmetric] iter_rem_def by simp
    with ne xe show False by blast
  qed
  note w = iter_without [OF it(1) d2(2,6,4,5) nxt]
  have "filter (\<lambda>x. de_addr x \<noteq> de_addr e) es = es" using ne by (simp add: filter_id_conv)
  moreover have "filter (\<lambda>x. de_addr x \<noteq> de_addr e) (dict_entries d) = filter (\<lambda>x. \<not> (x = e \<and> P x)) (dict_entries d)"
    unfolding xs using ne True by (intro filter_cong) auto
  moreover have "(\<forall>e. \<not> P e) \<longrightarrow> d2 = d" using True by blast
  ultimately show thesis using d2 w True it(2) by (intro that [of d2 "dictFreeEntry t e"]) simp_all
qed

lemma iter_delete_ok:
  assumes "iter_ok it d" "dtype d = t" "length (iter_rem it d) < fuel"
    "(\<forall>e. \<not> P e) \<or> iterators (iter_begin it d) \<noteq> 0"
  shows "\<exists>it' d'. iter_delete P fuel it d =
      Some (it', d', iter_rem it d, concat (map (dictFreeEntry t) (filter P (iter_rem it d)))) \<and>
    iter_started it' \<and> it_safe it' = it_safe it \<and> it_fingerprint it' = iter_print it d \<and>
    dict_inv d' \<and> iterators d' = iterators (iter_begin it d) \<and>
    dict_entries d' = filter (\<lambda>x. \<not> (x \<in> set (iter_rem it d) \<and> P x)) (dict_entries d) \<and>
    ((\<forall>e. \<not> P e) \<longrightarrow> d' = iter_begin it d)"
  using assms
proof (induction "iter_rem it d" arbitrary: it d fuel)
  case Nil
  from Nil.prems(3) obtain n where n: "fuel = Suc n" by (cases fuel) auto
  from dictNext_ok [OF Nil.prems(1)] obtain it1 where "iter_started it1" "it_safe it1 = it_safe it"
    "it_fingerprint it1 = iter_print it d" "dictNext it d = Some (it1, iter_begin it d, 0)"
    unfolding iter_yields_def Nil.hyps [symmetric] by auto
  moreover have "dict_inv (iter_begin it d)" "dict_entries (iter_begin it d) = dict_entries d"
    using Nil.prems(1) by (simp_all add: iter_ok_def iter_begin_def)
  ultimately show ?case using n by (simp add: Nil.hyps [symmetric])
next
  case (Cons e es)
  let ?d = "iter_begin it d"
  from Cons.prems(3) obtain n where n: "fuel = Suc n" by (cases fuel) auto
  from dictNext_ok [OF Cons.prems(1)] obtain it1 where it1: "iter_started it1" "it_safe it1 = it_safe it"
    "it_fingerprint it1 = iter_print it d" "dictNext it d = Some (it1, ?d, de_addr e)" "iter_ok it1 ?d"
    "iter_rem it1 ?d = es" "it_entry it1 = de_addr e"
    unfolding iter_yields_def Cons.hyps(2) [symmetric] by auto
  have d: "dict_inv ?d" "dtype ?d = t" "dict_entries ?d = dict_entries d"
    using it1(5) Cons.prems(2) by (simp_all add: iter_ok_def iter_begin_def)
  obtain xs where xs: "dict_entries d = xs @ e # es"
    using iter_rem_suffix [OF Cons.prems(1)] unfolding Cons.hyps(2) [symmetric] by blast
  have dist: "distinct (map de_addr (xs @ e # es))" using dict_addrs [OF d(1)] unfolding d(3) xs .
  have at: "entry_at ?d (de_addr e) = Some e" using find_entry_at [OF d(1), of e] xs d(3) by simp
  obtain d2 ev where d2: "(if P e then do { (d, r, ev) \<leftarrow> dictDelete ?d (de_key e); Some (d, ev) } else Some (?d, [])) = Some (d2, ev)"
    "ev = (if P e then dictFreeEntry t e else [])" "iter_ok it1 d2" "iter_rem it1 d2 = es" "dtype d2 = t"
    "iterators d2 = iterators ?d" "dict_entries d2 = filter (\<lambda>x. \<not> (x = e \<and> P x)) (dict_entries ?d)"
    "(\<forall>e. \<not> P e) \<longrightarrow> d2 = ?d"
    by (rule iter_delete_step [OF it1(5-7) d(1,2) xs [folded d(3)] Cons.prems(4)])
  have b: "iter_begin it1 d2 = d2" "iter_print it1 d2 = iter_print it d" using it1(1,3) by simp_all
  have "length (iter_rem it1 d2) < n" using Cons.prems(3) n d2(4) by (simp add: Cons.hyps(2) [symmetric])
  moreover have "(\<forall>e. \<not> P e) \<or> iterators (iter_begin it1 d2) \<noteq> 0"
    unfolding b d2(6) by (rule Cons.prems(4))
  ultimately obtain it3 d3 where d3: "iter_delete P n it1 d2 = Some (it3, d3, es, concat (map (dictFreeEntry t) (filter P es)))"
    "iter_started it3" "it_safe it3 = it_safe it" "it_fingerprint it3 = iter_print it d" "dict_inv d3"
    "iterators d3 = iterators ?d" "dict_entries d3 = filter (\<lambda>x. \<not> (x \<in> set es \<and> P x)) (dict_entries d2)"
    "(\<forall>e. \<not> P e) \<longrightarrow> d3 = d2"
    using Cons.hyps(1) [OF d2(4) [symmetric] d2(3,5), of n] unfolding b it1(2) d2(4,6) by blast
  have "iter_delete P fuel it d = Some (it3, d3, e # es, ev @ concat (map (dictFreeEntry t) (filter P es)))"
    using it1(4,7) at d2(1) d3(1) dict_addr_pos [OF d(1), of e] xs d(3) by (simp add: n)
  moreover have "dict_entries d3 = filter (\<lambda>x. \<not> (x \<in> set (e # es) \<and> P x)) (dict_entries d)"
    unfolding d3(7) d2(7) d(3) filter_filter by (rule filter_cong) auto
  ultimately show ?case
    using d2(2,8) d3(2-8) unfolding Cons.hyps(2) [symmetric] by auto
qed

end

subsection \<open>Whole iterations\<close>

lemma iter_rem_fresh:
  assumes inv: "dict_inv d" and sz: "ht_size (ht0 d) < 2 ^ 31" "ht_size (ht1 d) < 2 ^ 31"
    and it: "it = dictGetIterator junk \<or> it = dictGetSafeIterator junk"
  shows "iter_ok it d" "iter_rem it d = dict_entries d" "\<not> iter_started it"
proof -
  have f: "it_index it = -1" "it_table it = 0" "it_entry it = 0"
    using it by (auto simp: dictGetIterator_def dictGetSafeIterator_def)
  show "iter_ok it d" using inv sz f by (simp add: iter_ok_def iter_ht_def)
  show "\<not> iter_started it" using f by (simp add: iter_started_def)
  have "ht_entries (ht1 d) = []" if "\<not> dictIsRehashing d"
    using inv that by (simp add: dict_inv_def rehash_wf_def dictReset_def ht_entries_def)
  then show "iter_rem it d = dict_entries d"
    using f by (simp add: iter_rem_def iter_chain_def iter_later_def iter_ht_def dict_entries_def ht_entries_def)
qed

text \<open>
  C11: a loop with a safe iterator may delete the entries it meets, in the middle of a rehash too:
  the loop meets every entry of the dictionary exactly once, in table order; afterwards exactly the
  deleted entries are gone and each has been freed once; releasing the iterator lets the dictionary
  rehash again.
\<close>

theorem safe_iterator_deletes:
  assumes "dict_type (dtype d)" "dict_inv d" "ht_size (ht0 d) < 2 ^ 31" "ht_size (ht1 d) < 2 ^ 31" "0 \<le> iterators d"
  shows "\<exists>it d1 d2. iter_delete P (Suc (dictSize d)) (dictGetSafeIterator junk) d =
      Some (it, d1, dict_entries d, concat (map (dictFreeEntry (dtype d)) (filter P (dict_entries d)))) \<and>
    dictReleaseIterator it d1 = Some d2 \<and> dict_inv d2 \<and> iterators d2 = iterators d \<and>
    dict_entries d2 = filter (\<lambda>e. \<not> P e) (dict_entries d)"
proof -
  let ?it = "dictGetSafeIterator junk"
  note fresh = iter_rem_fresh [OF assms(2-4) disjI2 [OF refl], of junk]
  have safe: "it_safe ?it" by (simp add: dictGetSafeIterator_def)
  have len: "length (iter_rem ?it d) < Suc (dictSize d)"
    using assms(2) fresh(2) by (simp add: dict_inv_def ht_wf_def dictSize_def dict_entries_def)
  have n: "iterators (iter_begin ?it d) = iterators d + 1" using fresh(3) safe by (simp add: iter_begin_def)
  have cond: "(\<forall>e. \<not> P e) \<or> iterators (iter_begin ?it d) \<noteq> 0" using assms(5) n by simp
  obtain it d1 where it: "iter_delete P (Suc (dictSize d)) ?it d =
      Some (it, d1, dict_entries d, concat (map (dictFreeEntry (dtype d)) (filter P (dict_entries d))))"
    "iter_started it" "it_safe it" "dict_inv d1" "iterators d1 = iterators d + 1"
    "dict_entries d1 = filter (\<lambda>x. \<not> (x \<in> set (dict_entries d) \<and> P x)) (dict_entries d)"
    using dict_type.iter_delete_ok [OF assms(1) fresh(1) refl len cond] unfolding fresh(2) n using safe by blast
  let ?d = "d1\<lparr>iterators := iterators d1 - 1\<rparr>"
  have "dictReleaseIterator it d1 = Some ?d" using it(2,3) by (simp add: dictReleaseIterator_def iter_started_def)
  moreover have "dict_entries ?d = filter (\<lambda>e. \<not> P e) (dict_entries d)"
    unfolding iterators_simps it(6) by (rule filter_cong) auto
  ultimately show ?thesis using it(1,4,5) by (intro exI [of _ it] exI [of _ d1] exI [of _ ?d]) simp
qed

theorem safe_iterator_deletes_witness:
  "\<exists>it d1 d2. iter_delete (\<lambda>e. de_key e < 6) (Suc (dictSize ex_dict)) (dictGetSafeIterator 0) ex_dict =
      Some (it, d1, dict_entries ex_dict,
        concat (map (dictFreeEntry (dtype ex_dict)) (filter (\<lambda>e. de_key e < 6) (dict_entries ex_dict)))) \<and>
    dictReleaseIterator it d1 = Some d2 \<and> dict_inv d2 \<and> iterators d2 = iterators ex_dict \<and>
    dict_entries d2 = filter (\<lambda>e. \<not> de_key e < 6) (dict_entries ex_dict)"
  by (rule safe_iterator_deletes) (simp_all add: ex_dict_facts, simp_all add: ex_dict_def)

text \<open>
  C20: a loop with an unsafe iterator that leaves the dictionary alone meets every entry exactly
  once, leaves the dictionary as it was, and the fingerprint assertion on release holds.
\<close>

theorem unsafe_iterator_enumerates:
  assumes "dict_type (dtype d)" "dict_inv d" "ht_size (ht0 d) < 2 ^ 31" "ht_size (ht1 d) < 2 ^ 31"
  shows "\<exists>it. iter_delete (\<lambda>_. False) (Suc (dictSize d)) (dictGetIterator junk) d = Some (it, d, dict_entries d, []) \<and>
    dictReleaseIterator it d = Some d"
proof -
  let ?it = "dictGetIterator junk"
  note fresh = iter_rem_fresh [OF assms(2-4) disjI1 [OF refl], of junk]
  have safe: "\<not> it_safe ?it" by (simp add: dictGetIterator_def)
  have len: "length (iter_rem ?it d) < Suc (dictSize d)"
    using assms(2) fresh(2) by (simp add: dict_inv_def ht_wf_def dictSize_def dict_entries_def)
  have n: "iter_begin ?it d = d" "iter_print ?it d = dictFingerprint d"
    using fresh(3) safe by (simp_all add: iter_begin_def iter_print_def)
  obtain it where "iter_delete (\<lambda>_. False) (Suc (dictSize d)) ?it d = Some (it, d, dict_entries d, [])"
    "iter_started it" "\<not> it_safe it" "it_fingerprint it = dictFingerprint d"
    using dict_type.iter_delete_ok [OF assms(1) fresh(1) refl len, of "\<lambda>_. False"] safe
    unfolding fresh(2) n by auto
  then show ?thesis by (auto simp: dictReleaseIterator_def iter_started_def)
qed

theorem unsafe_iterator_enumerates_witness:
  "\<exists>it. iter_delete (\<lambda>_. False) (Suc (dictSize ex_dict)) (dictGetIterator 7) ex_dict =
       Some (it, ex_dict, dict_entries ex_dict, []) \<and> dictReleaseIterator it ex_dict = Some ex_dict"
  by (rule unsafe_iterator_enumerates) (simp_all add: ex_dict_facts, simp_all add: ex_dict_def)

end
