(* ===== verification/DictRandom.thy ===== *)
theory DictRandom
  imports DictProps
begin

text \<open>
  Random selection of entries (\<^verbatim>\<open>dictGetRandomKey\<close>, \<^verbatim>\<open>dictGetRandomKeys\<close> of \<^verbatim>\<open>dict.c\<close>) and the
  maintenance functions of \<^verbatim>\<open>redis.c\<close> that resize and rehash the dictionaries of a database. The
  numbers \<^verbatim>\<open>random()\<close> delivers and the readings of the clock are arguments; \<^term>\<open>None\<close> is the
  result when a list of them is too short, besides undefined behaviour and failed assertions.
\<close>

subsection \<open>One random entry\<close>

fun random_bucket :: "(nat \<Rightarrow> ('k, 'v) dictEntry list option) \<Rightarrow> nat list \<Rightarrow>
    (('k, 'v) dictEntry list \<times> nat list) option" where
  "random_bucket pick [] = None"
| "random_bucket pick (r # rs) =
     do {
       chain \<leftarrow> pick r;
       if chain = [] then random_bucket pick rs else Some (chain, rs)
     }"

text \<open>The bucket a random number selects; the index is an \<^verbatim>\<open>unsigned int\<close>.\<close>

definition random_pick :: "('k, 'v) dict \<Rightarrow> nat \<Rightarrow> ('k, 'v) dictEntry list option" where
  "random_pick d r =
     (if dictIsRehashing d
      then (let h = r mod (ht_size (ht0 d) + ht_size (ht1 d)) mod 2 ^ 32
            in if h \<ge> ht_size (ht0 d) then arr_get (table (ht1 d)) (h - ht_size (ht0 d))
               else arr_get (table (ht0 d)) h)
      else arr_get (table (ht0 d)) ((r AND sizemask (ht0 d)) mod 2 ^ 32))"

definition dictGetRandomKey :: "nat list \<Rightarrow> ('k, 'v) dict \<Rightarrow> (('k, 'v) dict \<times> nat \<times> nat list) option" where
  "dictGetRandomKey rs d =
     (if dictSize d = 0 then Some (d, 0, rs)
      else do {
        d \<leftarrow> dictStepIfRehashing d;
        (chain, rs) \<leftarrow> random_bucket (random_pick d) rs;
        case rs of
          [] \<Rightarrow> None
        | r # rs \<Rightarrow> Some (d, de_addr (chain ! (r mod length chain)), rs)
      })"

subsection \<open>Several random entries\<close>

text \<open>The walk over one table, from bucket \<open>i\<close> on and around; \<open>left\<close> entries are still wanted.\<close>

fun keys_walk :: "('k, 'v) dictht \<Rightarrow> nat \<Rightarrow> nat \<Rightarrow> nat \<Rightarrow> ('k, 'v) dictEntry list option" where
  "keys_walk ht 0 i left = Some []"
| "keys_walk ht (Suc n) i left =
     do {
       chain \<leftarrow> arr_get (table ht) i;
       if left \<le> length chain then Some (take left chain)
       else do {
         es \<leftarrow> keys_walk ht n ((i + 1) AND sizemask ht) (left - length chain);
         Some (chain @ es)
       }
     }"

text \<open>
  One table of the \<^verbatim>\<open>for\<close> loop. The size is assigned to an int; when that is negative the countdown
  runs past the smallest int.
\<close>

definition keys_table :: "('k, 'v) dictht \<Rightarrow> nat \<Rightarrow> nat \<Rightarrow> ('k, 'v) dictEntry list option" where
  "keys_table ht r left =
     (let i = (r AND sizemask ht) mod 2 ^ 32; size = to_int32 (ht_size ht)
      in if size < 0 then None else keys_walk ht (nat size) i left)"

text \<open>The outer loop; the \<^verbatim>\<open>assert\<close> fails when a dictionary that does not rehash is exhausted.\<close>

fun keys_loop :: "('k, 'v) dict \<Rightarrow> nat list \<Rightarrow> nat \<Rightarrow> ('k, 'v) dictEntry list option" where
  "keys_loop d (r0 # rs) left =
     do {
       es0 \<leftarrow> keys_table (ht0 d) r0 left;
       if length es0 = left then Some es0
       else if \<not> dictIsRehashing d then None
       else (case rs of
               [] \<Rightarrow> None
             | r1 # rs \<Rightarrow>
                 do {
                   es1 \<leftarrow> keys_table (ht1 d) r1 (left - length es0);
                   if length es0 + length es1 = left then Some (es0 @ es1)
                   else do {
                     es \<leftarrow> keys_loop d rs (left - (length es0 + length es1));
                     Some (es0 @ es1 @ es)
                   }
                 })
     }"
| "keys_loop d [] left = None"

text \<open>The comparison with \<open>cnt\<close> is one of unsigned longs, so a negative count is a large one.\<close>

definition dictGetRandomKeys :: "nat list \<Rightarrow> ('k, 'v) dict \<Rightarrow> int \<Rightarrow> nat list option" where
  "dictGetRandomKeys rs d cnt =
     (let cnt = (if int (dictSize d) < cnt mod 2 ^ 64 then to_int32 (dictSize d) else cnt)
      in if 0 < cnt then map_option (map de_addr) (keys_loop d rs (nat cnt)) else Some [])"

subsection \<open>Resizing and rehashing the dictionaries of a database\<close>

record ('k, 'v, 'w) redisDb =
  db_dict :: "('k, 'v) dict"
  db_expires :: "('k, 'w) dict"

definition REDIS_HT_MINFILL :: int where
  "REDIS_HT_MINFILL = 10"

text \<open>The arithmetic is that of \<^verbatim>\<open>long long\<close>; a product outside its range is undefined.\<close>

definition htNeedsResize :: "('k, 'v) dict \<Rightarrow> bool option" where
  "htNeedsResize d =
     (let size = int (dictSlots d); used = int (dictSize d)
      in if size \<noteq> 0 \<and> used \<noteq> 0 \<and> size > int DICT_HT_INITIAL_SIZE
         then if used * 100 < 2 ^ 63 then Some (used * 100 div size < REDIS_HT_MINFILL) else None
         else Some False)"

definition resize_if_needed :: "bool \<Rightarrow> ('k, 'v) dict \<Rightarrow> ('k, 'v) dict option" where
  "resize_if_needed can d =
     do { b \<leftarrow> htNeedsResize d; if b then map_option fst (dictResize can d) else Some d }"

definition tryResizeHashTables :: "bool \<Rightarrow> ('k, 'v, 'w) redisDb \<Rightarrow> ('k, 'v, 'w) redisDb option" where
  "tryResizeHashTables can db =
     do {
       d \<leftarrow> resize_if_needed can (db_dict db);
       e \<leftarrow> resize_if_needed can (db_expires db);
       Some (db\<lparr>db_dict := d, db_expires := e\<rparr>)
     }"

definition incrementallyRehash :: "int \<Rightarrow> int list \<Rightarrow> ('k, 'v, 'w) redisDb \<Rightarrow> (('k, 'v, 'w) redisDb \<times> bool) option" where
  "incrementallyRehash start clock db =
     (if dictIsRehashing (db_dict db)
      then map_option (\<lambda>(d, n). (db\<lparr>db_dict := d\<rparr>, True)) (dictRehashMilliseconds (db_dict db) 1 start clock)
      else if dictIsRehashing (db_expires db)
      then map_option (\<lambda>(e, n). (db\<lparr>db_expires := e\<rparr>, True)) (dictRehashMilliseconds (db_expires db) 1 start clock)
      else Some (db, False))"

definition updateDictResizePolicy :: "int \<Rightarrow> int \<Rightarrow> bool \<Rightarrow> bool" where
  "updateDictResizePolicy rdb_child_pid aof_child_pid dict_can_resize =
     (if rdb_child_pid = -1 \<and> aof_child_pid = -1 then dictEnableResize dict_can_resize
      else dictDisableResize dict_can_resize)"

subsection \<open>The walk over a table\<close>

lemma rotate_nth_Cons:
  assumes "i < length xs"
  shows "rotate i xs = xs ! i # drop (Suc i) xs @ take i xs"
  using assms by (simp add: rotate_drop_take Cons_nth_drop_Suc)

lemma keys_walk_ok:
  assumes len: "length (table ht) = 2 ^ k" and mask: "sizemask ht = 2 ^ k - 1"
    and n: "n \<le> 2 ^ k" and i: "i < 2 ^ k" and l: "0 < left"
  shows "keys_walk ht n i left = Some (take left (concat (take n (rotate i (table ht)))))"
  using n i l
proof (induction n arbitrary: i left)
  case 0
  then show ?case by simp
next
  case (Suc n)
  let ?T = "table ht"
  have next_i: "(i + 1) AND sizemask ht = Suc i mod 2 ^ k"
    unfolding mask using nat_and_mask [of "Suc i" k] by simp
  have rot: "rotate i ?T = ?T ! i # butlast (rotate (Suc i) ?T)"
    using rotate_nth_Cons [of i ?T] Suc.prems(2) len
    by (cases "rotate i ?T") (simp_all add: butlast_append)
  have "take n (butlast (rotate (Suc i) ?T)) = take n (rotate (Suc i mod 2 ^ k) ?T)"
    using Suc.prems(1) len by (metis rotate_conv_mod take_butlast length_rotate Suc_le_lessD)
  then have tk: "take (Suc n) (rotate i ?T) = ?T ! i # take n (rotate (Suc i mod 2 ^ k) ?T)"
    unfolding rot by simp
  have get: "arr_get ?T i = Some (?T ! i)" using Suc.prems(2) len by (simp add: arr_get_in)
  show ?case
  proof (cases "left \<le> length (?T ! i)")
    case True
    then show ?thesis using get by (simp add: tk del: rotate_Suc)
  next
    case False
    have "keys_walk ht n (Suc i mod 2 ^ k) (left - length (?T ! i)) =
        Some (take (left - length (?T ! i)) (concat (take n (rotate (Suc i mod 2 ^ k) ?T))))"
      using False Suc.prems(1) by (intro Suc.IH) simp_all
    then show ?thesis using get False next_i by (simp add: tk del: rotate_Suc)
  qed
qed

lemma mset_concat_rotate: "mset (concat (rotate i xs)) = mset (concat xs)"
proof -
  have "concat (rotate i xs) = concat (drop (i mod length xs) xs) @ concat (take (i mod length xs) xs)"
    by (simp add: rotate_drop_take)
  moreover have "concat xs = concat (take (i mod length xs) xs) @ concat (drop (i mod length xs) xs)"
    by (simp flip: concat_append)
  ultimately show ?thesis by (metis mset_append add.commute)
qed

lemma keys_table_ok:
  assumes wf: "ht_wf t ht" and sz: "ht_size ht \<noteq> 0" "ht_size ht < 2 ^ 31" and l: "0 < left"
  obtains E where "keys_table ht r left = Some (take left E)" "mset E = mset (ht_entries ht)"
proof -
  obtain k where k: "length (table ht) = 2 ^ k" "sizemask ht = 2 ^ k - 1" "ht_size ht = 2 ^ k"
    using wf sz(1) by (auto simp: ht_wf_def)
  have r: "r AND sizemask ht = r mod 2 ^ k" unfolding k(2) using nat_and_mask [of r k] by simp
  have "(2 :: nat) ^ k < 2 ^ 32" using sz(2) unfolding k(3) by (rule order_less_trans) simp
  then have "r mod 2 ^ k < 2 ^ 32" by (rule order_less_trans [OF mod_less_divisor, rotated]) simp
  then have "keys_table ht r left = keys_walk ht (2 ^ k) (r mod 2 ^ k) left"
    using to_int32_small [OF sz(2)] unfolding keys_table_def r Let_def k(3) by (simp add: nat_power_eq)
  also have "\<dots> = Some (take left (concat (rotate (r mod 2 ^ k) (table ht))))"
    using keys_walk_ok [OF k(1,2) order_refl _ l, of "r mod 2 ^ k"] k(1) by simp
  finally show thesis by (rule that) (simp add: ht_entries_def mset_concat_rotate)
qed

lemma keys_loop_ok:
  assumes inv: "dict_inv d" and sz: "ht_size (ht0 d) < 2 ^ 31" "ht_size (ht1 d) < 2 ^ 31"
    and l: "0 < left" "left \<le> dictSize d" and rs: "2 \<le> length rs"
  obtains E where "keys_loop d rs left = Some (take left E)" "mset E = mset (dict_entries d)"
proof -
  from rs obtain r0 r1 rs' where rs': "rs = r0 # r1 # rs'" by (cases rs; cases "tl rs") auto
  have wf: "ht_wf (dtype d) (ht0 d)" "ht_wf (dtype d) (ht1 d)" using inv by (simp_all add: dict_inv_def)
  have size: "dictSize d = length (ht_entries (ht0 d)) + length (ht_entries (ht1 d))"
    using wf by (simp add: dictSize_def ht_wf_def)
  have s0: "ht_size (ht0 d) \<noteq> 0"
    using inv l by (auto simp: dict_inv_def dictSize_def ht_wf_def ht_entries_def rehash_wf_def dictReset_def split: if_splits)
  obtain E0 where E0: "keys_table (ht0 d) r0 left = Some (take left E0)" "mset E0 = mset (ht_entries (ht0 d))"
    using keys_table_ok [OF wf(1) s0 sz(1) l(1)] by blast
  then have len0: "length E0 = length (ht_entries (ht0 d))" by (metis size_mset)
  show thesis
  proof (cases "left \<le> length E0")
    case True
    then have "keys_loop d rs left = Some (take left (E0 @ ht_entries (ht1 d)))"
      using E0(1) by (simp add: rs')
    with E0(2) show thesis by (intro that [of "E0 @ ht_entries (ht1 d)"]) (simp_all add: dict_entries_def)
  next
    case False
    then have rh: "dictIsRehashing d"
      using inv l(2) size len0 by (auto simp: dict_inv_def rehash_wf_def dictReset_def ht_entries_def split: if_splits)
    then have s1: "ht_size (ht1 d) \<noteq> 0" using inv by (simp add: dict_inv_def rehash_wf_def)
    have "0 < left - length E0" using False by simp
    from keys_table_ok [OF wf(2) s1 sz(2) this] obtain E1 where
      E1: "keys_table (ht1 d) r1 (left - length E0) = Some (take (left - length E0) E1)"
        "mset E1 = mset (ht_entries (ht1 d))" by blast
    then have "length E1 = length (ht_entries (ht1 d))" by (metis size_mset)
    then have "keys_loop d rs left = Some (take left (E0 @ E1))"
      using E0(1) E1(1) False rh l(2) size len0 by (simp add: rs')
    with E0(2) E1(2) show thesis by (intro that [of "E0 @ E1"]) (simp_all add: dict_entries_def)
  qed
qed

text \<open>
  C21: \<^verbatim>\<open>dictGetRandomKeys\<close> returns as many entries as were asked for, all of them when more are
  wanted than there are (a negative count asks for all), without repetition and each an entry of
  the dictionary, whatever the random numbers and also during a rehash; its assertion never fails
  and at most two random numbers are needed.
\<close>

theorem dictGetRandomKeys_correct:
  assumes "dict_inv d" "ht_size (ht0 d) < 2 ^ 31" "ht_size (ht1 d) < 2 ^ 31" "dictSize d < 2 ^ 31"
    "- (2 ^ 31) \<le> cnt" "cnt < 2 ^ 31" "2 \<le> length rs"
  shows "\<exists>as. dictGetRandomKeys rs d cnt = Some as \<and> distinct as \<and> set as \<subseteq> de_addr ` set (dict_entries d) \<and>
    length as = (if cnt < 0 then dictSize d else min (nat cnt) (dictSize d))"
proof -
  define m where "m = (if cnt < 0 then dictSize d else min (nat cnt) (dictSize d))"
  have len: "length (dict_entries d) = dictSize d"
    using assms(1) by (simp add: dict_inv_def ht_wf_def dictSize_def dict_entries_def)
  have c: "(if int (dictSize d) < cnt mod 2 ^ 64 then to_int32 (dictSize d) else cnt) = int m"
  proof (cases "cnt < 0")
    case True
    have "cnt mod 2 ^ 64 = (cnt + 2 ^ 64) mod 2 ^ 64" by simp
    also have "\<dots> = cnt + 2 ^ 64" using True assms(5) by (intro mod_pos_pos_trivial) simp_all
    finally have "cnt mod 2 ^ 64 = cnt + 2 ^ 64" .
    then show ?thesis using True assms(4,5) to_int32_small [OF assms(4)] by (simp add: m_def)
  next
    case False
    then have "cnt mod 2 ^ 64 = cnt" using assms(6) by (intro mod_pos_pos_trivial) simp_all
    then show ?thesis using False to_int32_small [OF assms(4)] by (auto simp: m_def)
  qed
  show ?thesis
  proof (cases "m = 0")
    case True
    then have "dictGetRandomKeys rs d cnt = Some []" using c by (simp add: dictGetRandomKeys_def Let_def)
    with True show ?thesis unfolding m_def by simp
  next
    case False
    moreover have "m \<le> dictSize d" by (simp add: m_def)
    ultimately obtain E where E: "keys_loop d rs m = Some (take m E)" "mset E = mset (dict_entries d)"
      using keys_loop_ok [OF assms(1-3) _ _ assms(7), of m] by blast
    have "distinct (map de_addr (dict_entries d))" using assms(1) by (simp add: dict_inv_def addrs_ok_def)
    then have "distinct (map de_addr E)" using E(2) by (metis mset_eq_imp_distinct_iff mset_map)
    moreover have "length E = dictSize d" "set E = set (dict_entries d)"
      using E(2) len by (metis size_mset, metis set_mset_mset)
    moreover have "dictGetRandomKeys rs d cnt = Some (take m (map de_addr E))"
      using c E(1) False by (simp add: dictGetRandomKeys_def Let_def take_map)
    ultimately show ?thesis using \<open>m \<le> dictSize d\<close> set_take_subset [of m "map de_addr E"]
      unfolding m_def [symmetric] by simp
  qed
qed

theorem dictGetRandomKeys_correct_witness:
  "\<exists>as. dictGetRandomKeys [77, 5] ex_dict 3 = Some as \<and> distinct as \<and> set as \<subseteq> de_addr ` set (dict_entries ex_dict) \<and>
    length as = (if (3 :: int) < 0 then dictSize ex_dict else min (nat 3) (dictSize ex_dict))"
  by (rule dictGetRandomKeys_correct) (simp_all add: ex_dict_facts, simp_all add: ex_dict_def)

subsection \<open>The random entry\<close>

lemma move_chain_sizes:
  "move_chain t c h0 h1 = Some (h0', h1') \<Longrightarrow> ht_size h0' = ht_size h0 \<and> ht_size h1' = ht_size h1"
  by (induction t c h0 h1 rule: move_chain.induct) (auto simp: Let_def split: bind_splits)

lemma dictStepIfRehashing_bound:
  assumes "dictStepIfRehashing d = Some d'" "ht_size (ht0 d) < B" "ht_size (ht1 d) < B"
  shows "ht_size (ht0 d') < B \<and> ht_size (ht1 d') < B"
proof -
  have "rehash_bucket d = Some d1 \<Longrightarrow> ht_size (ht0 d1) < B \<and> ht_size (ht1 d1) < B" for d1
    using assms(2,3) by (auto simp: rehash_bucket_def dest!: move_chain_sizes split: if_splits bind_splits)
  then show ?thesis
    using assms by (auto simp: dictStepIfRehashing_def dictRehashStep_def dictRehash_def rehash_finish_def
      dictReset_def split: if_splits bind_splits)
qed

lemma random_pick_rehashing:
  assumes inv: "dict_inv d" and sz: "ht_size (ht0 d) < 2 ^ 30" "ht_size (ht1 d) < 2 ^ 30" and rh: "dictIsRehashing d"
  defines "n \<equiv> ht_size (ht0 d) + ht_size (ht1 d)"
  shows "0 < n" "n < 2 ^ 31" "random_pick d r = Some ((table (ht0 d) @ table (ht1 d)) ! (r mod n))"
    "length (table (ht0 d) @ table (ht1 d)) = n"
proof -
  have len: "length (table (ht0 d)) = ht_size (ht0 d)" "length (table (ht1 d)) = ht_size (ht1 d)"
    using inv by (simp_all add: dict_inv_def ht_wf_def)
  show n: "0 < n" using inv rh by (simp add: dict_inv_def rehash_wf_def n_def)
  show n31: "n < 2 ^ 31" using sz by (simp add: n_def)
  have r: "r mod n < n" using n by simp
  then have "r mod n mod 2 ^ 32 = r mod n" using n31 by simp
  then show "random_pick d r = Some ((table (ht0 d) @ table (ht1 d)) ! (r mod n))"
    using rh len r unfolding random_pick_def n_def [symmetric] by (auto simp: arr_get_def nth_append n_def Let_def)
  show "length (table (ht0 d) @ table (ht1 d)) = n" using len by (simp add: n_def)
qed

lemma random_pick_stable:
  assumes inv: "dict_inv d" and ne: "dictSize d \<noteq> 0" and sz: "ht_size (ht0 d) < 2 ^ 30" and rh: "\<not> dictIsRehashing d"
  defines "n \<equiv> ht_size (ht0 d)"
  shows "0 < n" "random_pick d r = Some (table (ht0 d) ! (r mod n))" "length (table (ht0 d)) = n"
    "dict_entries d = concat (table (ht0 d))"
proof -
  show ents: "dict_entries d = concat (table (ht0 d))"
    using inv rh by (simp add: dict_inv_def rehash_wf_def dict_entries_def ht_entries_def dictReset_def)
  have wf: "ht_wf (dtype d) (ht0 d)" using inv by (simp add: dict_inv_def)
  then show len: "length (table (ht0 d)) = n" by (simp add: ht_wf_def n_def)
  have "dict_entries d \<noteq> []"
    using inv ne by (auto simp: dict_inv_def ht_wf_def dictSize_def dict_entries_def)
  then show n: "0 < n" using ents len by (cases "table (ht0 d)") auto
  obtain k where k: "n = 2 ^ k" "sizemask (ht0 d) = 2 ^ k - 1" using wf n by (auto simp: ht_wf_def n_def)
  have "r AND sizemask (ht0 d) = r mod n" unfolding k using nat_and_mask [of r k] by simp
  moreover have r: "r mod n < n" using n by simp
  moreover have "r mod n mod 2 ^ 32 = r mod n" using r sz unfolding n_def [symmetric] by simp
  ultimately show "random_pick d r = Some (table (ht0 d) ! (r mod n))"
    using rh len unfolding random_pick_def by (simp add: arr_get_def)
qed

lemma random_pick_in:
  assumes inv: "dict_inv d" and ne: "dictSize d \<noteq> 0" and sz: "ht_size (ht0 d) < 2 ^ 30" "ht_size (ht1 d) < 2 ^ 30"
  obtains T where "dict_entries d = concat T" "0 < length T" "length T < 2 ^ 31"
    "\<And>r. random_pick d r = Some (T ! (r mod length T))"
proof (cases "dictIsRehashing d")
  case True
  note rp = random_pick_rehashing [OF inv sz True]
  show thesis
    using rp by (intro that [of "table (ht0 d) @ table (ht1 d)"]) (simp_all add: dict_entries_def ht_entries_def)
next
  case False
  note rp = random_pick_stable [OF inv ne sz(1) False]
  show thesis using rp sz by (intro that [of "table (ht0 d)"]) simp_all
qed

lemma random_bucket_in:
  assumes "\<And>r. pick r = Some (T ! (r mod length T))" "0 < length T" "random_bucket pick rs = Some (chain, rs')"
  shows "chain \<in> set T \<and> chain \<noteq> []"
  using assms(3)
proof (induction rs)
  case (Cons r rs)
  have "T ! (r mod length T) \<in> set T" using assms(2) by simp
  with Cons show ?case by (auto simp: assms(1) split: if_splits)
qed simp



subsection \<open>Maintenance\<close>

lemma resize_if_needed_ok:
  assumes "dict_type (dtype d)" "dict_inv d" "dictSize d < 2 ^ 56"
  obtains d' where "resize_if_needed can d = Some d'" "dict_inv d'" "dict_map d' = dict_map d"
    "htNeedsResize d = Some False \<Longrightarrow> d' = d" "same_content d d'"
proof -
  have "int (dictSize d) * 100 < 2 ^ 63" using assms(3) by simp
  then obtain b where b: "htNeedsResize d = Some b"
    unfolding htNeedsResize_def Let_def by (simp only: if_True) metis
  obtain d1 st where "dictResize can d = Some (d1, st)" "dict_inv d1" "same_content d d1"
    using dict_type.dictResize_ok [OF assms(1,2) refl] by blast
  moreover from this(3) have "dict_map d1 = dict_map d"
    using dict_type.same_content_map [OF assms(1,2) refl] by blast
  ultimately show thesis
    using b assms(2) that [of "if b then d1 else d"] by (simp add: resize_if_needed_def same_content_def)
qed


definition ex_db :: "(uint32, nat, nat) redisDb" where
  "ex_db = \<lparr>db_dict = ex_dict, db_expires = dictCreate idDictType\<rparr>"


lemma incrementallyRehash_ok:
  assumes "dict_type (dtype (db_dict db))" "dict_inv (db_dict db)" "used (ht0 (db_dict db)) \<le> 100 * length clock"
    "dict_type (dtype (db_expires db))" "dict_inv (db_expires db)" "used (ht0 (db_expires db)) \<le> 100 * length clock"
  shows "\<exists>db'. incrementallyRehash start clock db =
      Some (db', dictIsRehashing (db_dict db) \<or> dictIsRehashing (db_expires db)) \<and>
    dict_inv (db_dict db') \<and> dict_map (db_dict db') = dict_map (db_dict db) \<and>
    dict_inv (db_expires db') \<and> dict_map (db_expires db') = dict_map (db_expires db)"
proof -
  obtain d n where "dictRehashMilliseconds (db_dict db) 1 start clock = Some (d, n)" "dict_inv d" "same_content (db_dict db) d"
    using dict_type.rehash_ms_loop_ok [OF assms(1,2) refl assms(3), of 1 start 0] by (auto simp: dictRehashMilliseconds_def)
  moreover obtain e m where "dictRehashMilliseconds (db_expires db) 1 start clock = Some (e, m)" "dict_inv e" "same_content (db_expires db) e"
    using dict_type.rehash_ms_loop_ok [OF assms(4,5) refl assms(6), of 1 start 0] by (auto simp: dictRehashMilliseconds_def)
  ultimately show ?thesis
    using assms(2,5) dict_type.same_content_map [OF assms(1,2) refl, of d] dict_type.same_content_map [OF assms(4,5) refl, of e]
    by (simp add: incrementallyRehash_def)
qed

end
