(* ===== verification/Intset.thy ===== *)
theory Intset
  imports Memory
begin

text \<open>
  The sorted integer sets of \<^verbatim>\<open>intset.c\<close>, the encoding of small sets of integers. A set is a header
  with the width of its elements and their number, and a block with the elements one after the
  other, sorted, all in the width of the header (2, 4 or 8 bytes). The arithmetic on \<^verbatim>\<open>uint32_t\<close> is
  taken modulo \<open>2 ^ 32\<close>; positions that the code converts to \<^verbatim>\<open>int\<close> are integers.
\<close>

subsection \<open>The model\<close>

record intset =
  is_encoding :: nat
  is_length :: nat
  is_contents :: mem

definition INTSET_ENC_INT16 :: nat where "INTSET_ENC_INT16 = 2"
definition INTSET_ENC_INT32 :: nat where "INTSET_ENC_INT32 = 4"
definition INTSET_ENC_INT64 :: nat where "INTSET_ENC_INT64 = 8"

definition intsetValueEncoding :: "int \<Rightarrow> nat" where
  "intsetValueEncoding v =
     (if v < - (2 ^ 31) \<or> v > 2 ^ 31 - 1 then INTSET_ENC_INT64
      else if v < - (2 ^ 15) \<or> v > 2 ^ 15 - 1 then INTSET_ENC_INT32
      else INTSET_ENC_INT16)"

text \<open>The branches on the encoding: anything but the two larger ones is treated as the smallest.\<close>

definition enc_width :: "nat \<Rightarrow> nat" where
  "enc_width enc =
     (if enc = INTSET_ENC_INT64 then 8 else if enc = INTSET_ENC_INT32 then 4 else 2)"

text \<open>A signed integer in memory.\<close>

definition int_enc :: "nat \<Rightarrow> int \<Rightarrow> char list" where
  "int_enc w v = le_enc w (nat (v mod 2 ^ (8 * w)))"

definition int_dec :: "nat \<Rightarrow> char list \<Rightarrow> int" where
  "int_dec w bs = signed_take_bit (8 * w - 1) (int (le_dec bs))"

definition intsetGetEncoded :: "intset \<Rightarrow> int \<Rightarrow> nat \<Rightarrow> int option" where
  "intsetGetEncoded is pos enc =
     (if pos < 0 then None
      else map_option (int_dec (enc_width enc))
             (mem_read (is_contents is) (nat pos * enc_width enc) (enc_width enc)))"

definition intset_get :: "intset \<Rightarrow> int \<Rightarrow> int option" where
  "intset_get is pos = intsetGetEncoded is pos (is_encoding is)"

definition intsetSet :: "intset \<Rightarrow> int \<Rightarrow> int \<Rightarrow> intset option" where
  "intsetSet is pos value =
     (let w = enc_width (is_encoding is)
      in if pos < 0 then None
         else do {
           c \<leftarrow> mem_write (is_contents is) (nat pos * w) (int_enc w value);
           Some (is\<lparr>is_contents := c\<rparr>)
         })"

definition intsetNew :: intset where
  "intsetNew = \<lparr>is_encoding = INTSET_ENC_INT16, is_length = 0, is_contents = []\<rparr>"

definition intsetResize :: "intset \<Rightarrow> nat \<Rightarrow> intset" where
  "intsetResize is len =
     (let size = len * is_encoding is mod 2 ^ 32
      in is\<lparr>is_contents := zrealloc (is_contents is) size\<rparr>)"

text \<open>
  The binary search. The sum \<^verbatim>\<open>min+max\<close> is one of ints: its overflow is undefined. The result is
  the triple of \<^verbatim>\<open>min\<close> and the last \<^verbatim>\<open>mid\<close> and \<^verbatim>\<open>cur\<close> that were read.
\<close>

function search_loop :: "intset \<Rightarrow> int \<Rightarrow> int \<Rightarrow> int \<Rightarrow> int \<Rightarrow> int \<Rightarrow> (int \<times> int \<times> int) option" where
  "search_loop is value lo hi mid cur =
     (if hi \<ge> lo then
        if lo + hi > int INT_MAX \<or> lo < 0 then None
        else
          let mid = (lo + hi) div 2
          in case intset_get is mid of
               None \<Rightarrow> None
             | Some cur \<Rightarrow>
                 if value > cur then search_loop is value (mid + 1) hi mid cur
                 else if value < cur then search_loop is value lo (mid - 1) mid cur
                 else Some (lo, mid, cur)
      else Some (lo, mid, cur))"
  by pat_completeness auto
termination
  by (relation "measure (\<lambda>(is, value, lo, hi, mid, cur). nat (hi - lo + 1))") auto

declare search_loop.simps [simp del]

text \<open>The result and the position that is stored through \<^verbatim>\<open>pos\<close>.\<close>

definition intsetSearch :: "intset \<Rightarrow> int \<Rightarrow> (bool \<times> nat) option" where
  "intsetSearch is value =
     (if is_length is = 0 then Some (False, 0)
      else do {
        final \<leftarrow> intset_get is (to_int32 (is_length is - 1));
        if value > final then Some (False, is_length is)
        else do {
          first \<leftarrow> intset_get is 0;
          if value < first then Some (False, 0)
          else do {
            (lo, mid, cur) \<leftarrow> search_loop is value 0 (to_int32 (is_length is - 1)) (-1) (-1);
            if value = cur then Some (True, nat mid) else Some (False, nat lo)
          }
        }
      })"

text \<open>The loop \<^verbatim>\<open>while(length--)\<close> of the upgrade, from the last element down.\<close>

fun upgrade_loop :: "intset \<Rightarrow> nat \<Rightarrow> nat \<Rightarrow> nat \<Rightarrow> intset option" where
  "upgrade_loop is 0 prepend curenc = Some is"
| "upgrade_loop is (Suc n) prepend curenc =
     do {
       v \<leftarrow> intsetGetEncoded is (int n) curenc;
       is \<leftarrow> intsetSet is (int (n + prepend)) v;
       upgrade_loop is n prepend curenc
     }"

definition intsetUpgradeAndAdd :: "intset \<Rightarrow> int \<Rightarrow> intset option" where
  "intsetUpgradeAndAdd is value =
     (let curenc = is_encoding is;
          newenc = intsetValueEncoding value;
          len = to_int32 (is_length is);
          prepend = (if value < 0 then 1 else 0);
          is = is\<lparr>is_encoding := newenc\<rparr>;
          is = intsetResize is ((is_length is + 1) mod 2 ^ 32)
      in if len < 0 then None
         else do {
           is \<leftarrow> upgrade_loop is (nat len) prepend curenc;
           is \<leftarrow> (if prepend = 1 then intsetSet is 0 value
                  else intsetSet is (to_int32 (is_length is)) value);
           Some (is\<lparr>is_length := (is_length is + 1) mod 2 ^ 32\<rparr>)
         })"

definition intsetMoveTail :: "intset \<Rightarrow> nat \<Rightarrow> nat \<Rightarrow> intset option" where
  "intsetMoveTail is from to =
     (let w = enc_width (is_encoding is);
          bytes = nat ((int (is_length is) - int from) * int w mod 2 ^ 32)
      in do {
           c \<leftarrow> mem_move (is_contents is) (to * w) (from * w) bytes;
           Some (is\<lparr>is_contents := c\<rparr>)
         })"

text \<open>The flag is what is stored through \<^verbatim>\<open>success\<close>.\<close>

definition intsetAdd :: "intset \<Rightarrow> int \<Rightarrow> (intset \<times> bool) option" where
  "intsetAdd is value =
     (if intsetValueEncoding value > is_encoding is
      then do { is \<leftarrow> intsetUpgradeAndAdd is value; Some (is, True) }
      else do {
        (found, pos) \<leftarrow> intsetSearch is value;
        if found then Some (is, False)
        else do {
          is \<leftarrow> Some (intsetResize is ((is_length is + 1) mod 2 ^ 32));
          is \<leftarrow> (if pos < is_length is then intsetMoveTail is pos (pos + 1) else Some is);
          is \<leftarrow> intsetSet is (to_int32 pos) value;
          Some (is\<lparr>is_length := (is_length is + 1) mod 2 ^ 32\<rparr>, True)
        }
      })"

definition intsetRemove :: "intset \<Rightarrow> int \<Rightarrow> (intset \<times> bool) option" where
  "intsetRemove is value =
     (if intsetValueEncoding value \<le> is_encoding is
      then do {
        (found, pos) \<leftarrow> intsetSearch is value;
        if found then do {
          len \<leftarrow> Some (is_length is);
          is \<leftarrow> (if pos < len - 1 then intsetMoveTail is (pos + 1) pos else Some is);
          is \<leftarrow> Some (intsetResize is (len - 1));
          Some (is\<lparr>is_length := len - 1\<rparr>, True)
        }
        else Some (is, False)
      }
      else Some (is, False))"

definition intsetFind :: "intset \<Rightarrow> int \<Rightarrow> bool option" where
  "intsetFind is value =
     (if intsetValueEncoding value \<le> is_encoding is then map_option fst (intsetSearch is value)
      else Some False)"

text \<open>\<open>r\<close> is what \<^verbatim>\<open>rand()\<close> returns; a division by zero is undefined.\<close>

definition intsetRandom :: "nat \<Rightarrow> intset \<Rightarrow> int option" where
  "intsetRandom r is =
     (if is_length is = 0 then None else intset_get is (to_int32 (r mod is_length is)))"

definition intsetGet :: "intset \<Rightarrow> nat \<Rightarrow> int option option" where
  "intsetGet is pos =
     (if pos < is_length is then map_option Some (intset_get is (to_int32 pos)) else Some None)"

definition intsetLen :: "intset \<Rightarrow> nat" where
  "intsetLen is = is_length is"

definition intsetBlobLen :: "intset \<Rightarrow> nat" where
  "intsetBlobLen is = 8 + is_length is * is_encoding is mod 2 ^ 32"

end
