(* ===== verification/IntsetProps.thy ===== *)
theory IntsetProps
  imports Intset
begin

text \<open>
  The integer sets refine finite sets of integers: the predicate \<open>intset_wf is xs\<close> says that the block
  of \<open>is\<close> holds exactly the strictly increasing list \<open>xs\<close> in the width of its header.
\<close>

subsection \<open>Integers in memory\<close>

definition int_range :: "nat \<Rightarrow> int \<Rightarrow> bool" where
  "int_range w v \<longleftrightarrow> - (2 ^ (8 * w - 1)) \<le> v \<and> v < 2 ^ (8 * w - 1)"

lemma length_int_enc [simp]: "length (int_enc w v) = w"
  by (simp add: int_enc_def)

lemma int_dec_enc:
  assumes "0 < w" "int_range w v"
  shows "int_dec w (int_enc w v) = v"
proof -
  have "nat (v mod 2 ^ (8 * w)) < 2 ^ (8 * w)"
    by (simp add: nat_less_iff)
  also have "(2 :: nat) ^ (8 * w) = 256 ^ w" by (simp add: power_mult)
  finally have "le_dec (int_enc w v) = nat (v mod 2 ^ (8 * w))" by (simp add: int_enc_def le_dec_enc)
  then have "int_dec w (int_enc w v) = signed_take_bit (8 * w - 1) (take_bit (8 * w) v)"
    by (simp add: int_dec_def take_bit_eq_mod)
  also have "\<dots> = signed_take_bit (8 * w - 1) v"
    using assms(1) by (auto simp: signed_take_bit_take_bit)
  also have "\<dots> = v"
    using assms(2) by (intro signed_take_bit_int_eq_self) (simp_all add: int_range_def)
  finally show ?thesis .
qed

definition blocks :: "nat \<Rightarrow> int list \<Rightarrow> char list" where
  "blocks w xs = concat (map (int_enc w) xs)"

lemma blocks_simps [simp]:
  "blocks w [] = []" "blocks w (x # xs) = int_enc w x @ blocks w xs" "blocks w (xs @ ys) = blocks w xs @ blocks w ys"
  by (simp_all add: blocks_def)

lemma length_blocks [simp]: "length (blocks w xs) = length xs * w"
  by (induction xs) simp_all

lemma blocks_split: "i < length xs \<Longrightarrow> blocks w xs = blocks w (take i xs) @ int_enc w (xs ! i) @ blocks w (drop (Suc i) xs)"
  using id_take_nth_drop [of i xs] by (metis blocks_simps(2,3))

lemma take_blocks: "i \<le> length xs \<Longrightarrow> take (i * w) (blocks w xs) = blocks w (take i xs)"
  by (metis append_eq_conv_conj append_take_drop_id blocks_simps(3) length_blocks length_take min.absorb2)

lemma drop_blocks: "i \<le> length xs \<Longrightarrow> drop (i * w) (blocks w xs) = blocks w (drop i xs)"
  by (metis append_eq_conv_conj append_take_drop_id blocks_simps(3) length_blocks length_take min.absorb2)

lemma intsetGetEncoded_ok:
  assumes "take (length xs * w) (is_contents is) = map Some (blocks w xs)" "w = enc_width enc" "i < length xs"
    "int_range w (xs ! i)"
  shows "intsetGetEncoded is (int i) enc = Some (xs ! i)"
proof -
  have w: "0 < w" using assms(2) by (simp add: enc_width_def)
  obtain rest where rest: "is_contents is = map Some (blocks w xs) @ rest"
    using assms(1) by (metis append_take_drop_id)
  have "mem_read (is_contents is) (i * w) w = Some (int_enc w (xs ! i))"
    unfolding rest blocks_split [OF assms(3)] map_append append.assoc
    using assms(3) by (intro mem_read_at) simp_all
  then show ?thesis using int_dec_enc [OF w assms(4)] assms(2) by (simp add: intsetGetEncoded_def)
qed

lemma intsetSet_ok:
  assumes "w = enc_width (is_encoding is)" "i * w + w \<le> length (is_contents is)"
  shows "intsetSet is (int i) v = Some (is\<lparr>is_contents :=
    take (i * w) (is_contents is) @ map Some (int_enc w v) @ drop (i * w + w) (is_contents is)\<rparr>)"
  using assms by (simp add: intsetSet_def mem_write_def Let_def)

subsection \<open>The invariant\<close>

text \<open>The largest number of elements for which no 32-bit computation overflows on any path.\<close>

definition INTSET_LIMIT :: nat where
  "INTSET_LIMIT = 2 ^ 28"

definition intset_wf :: "intset \<Rightarrow> int list \<Rightarrow> bool" where
  "intset_wf is xs \<longleftrightarrow>
     is_encoding is \<in> {INTSET_ENC_INT16, INTSET_ENC_INT32, INTSET_ENC_INT64} \<and>
     is_length is = length xs \<and> is_contents is = map Some (blocks (is_encoding is) xs) \<and>
     sorted_wrt (<) xs \<and> (\<forall>x \<in> set xs. int_range (is_encoding is) x) \<and> length xs \<le> INTSET_LIMIT"

lemma enc_width_id [simp]:
  "enc \<in> {INTSET_ENC_INT16, INTSET_ENC_INT32, INTSET_ENC_INT64} \<Longrightarrow> enc_width enc = enc"
  by (auto simp: enc_width_def INTSET_ENC_INT16_def INTSET_ENC_INT32_def INTSET_ENC_INT64_def)

lemma intset_wf_get:
  assumes "intset_wf is xs" "i < length xs"
  shows "intset_get is (int i) = Some (xs ! i)"
  using assms intsetGetEncoded_ok [of xs "is_encoding is" "is" "is_encoding is" i]
  by (simp add: intset_wf_def intset_get_def)

lemma valueEncoding_cases: "intsetValueEncoding v \<in> {INTSET_ENC_INT16, INTSET_ENC_INT32, INTSET_ENC_INT64}"
  by (simp add: intsetValueEncoding_def)

lemma valueEncoding_range:
  assumes "- (2 ^ 63) \<le> v" "v < 2 ^ 63" "enc \<in> {INTSET_ENC_INT16, INTSET_ENC_INT32, INTSET_ENC_INT64}"
  shows "int_range enc v \<longleftrightarrow> intsetValueEncoding v \<le> enc"
  using assms by (auto simp: int_range_def intsetValueEncoding_def INTSET_ENC_INT16_def INTSET_ENC_INT32_def
    INTSET_ENC_INT64_def)

subsection \<open>Search\<close>

definition lower :: "int \<Rightarrow> int list \<Rightarrow> nat" where
  "lower v xs = length (takeWhile (\<lambda>x. x < v) xs)"

lemma lower_le: "lower v xs \<le> length xs"
  by (simp add: lower_def length_takeWhile_le)

lemma lower_less: "i < lower v xs \<Longrightarrow> xs ! i < v"
  unfolding lower_def by (metis nth_mem set_takeWhileD takeWhile_nth)

lemma lower_ge: "sorted_wrt (<) xs \<Longrightarrow> lower v xs \<le> i \<Longrightarrow> i < length xs \<Longrightarrow> v \<le> xs ! i"
proof -
  assume s: "sorted_wrt (<) xs" and i: "lower v xs \<le> i" "i < length xs"
  then have "\<not> xs ! lower v xs < v"
    unfolding lower_def by (intro nth_length_takeWhile) simp
  moreover have "xs ! lower v xs \<le> xs ! i"
    using s i by (cases "lower v xs = i") (auto dest: sorted_wrt_nth_less [of "(<)" xs "lower v xs" i])
  ultimately show ?thesis by simp
qed

lemma lower_mem:
  assumes "sorted_wrt (<) xs"
  shows "v \<in> set xs \<longleftrightarrow> lower v xs < length xs \<and> xs ! lower v xs = v"
proof
  assume "v \<in> set xs"
  then obtain i where i: "i < length xs" "xs ! i = v" by (auto simp: in_set_conv_nth)
  then have le: "lower v xs \<le> i" using lower_less [of i v xs] by force
  then have "xs ! lower v xs \<le> v"
    using i assms by (cases "lower v xs = i") (auto dest: sorted_wrt_nth_less [of "(<)" xs "lower v xs" i])
  then show "lower v xs < length xs \<and> xs ! lower v xs = v"
    using le i lower_ge [OF assms, of v "lower v xs"] by simp
qed (metis nth_mem)

lemma lower_eq:
  assumes "sorted_wrt (<) xs" "i < length xs" "xs ! i = v"
  shows "lower v xs = i"
proof -
  have "\<not> i < lower v xs" using lower_less [of i v xs] assms(3) by auto
  moreover have "\<not> lower v xs < i"
    using sorted_wrt_nth_less [OF assms(1), of "lower v xs" i] lower_ge [OF assms(1), of v "lower v xs"] assms by auto
  ultimately show ?thesis by simp
qed

lemma search_loop_ok:
  assumes wf: "intset_wf is xs" and lo: "0 \<le> lo" "lo \<le> int (lower v xs)"
    and hi: "hi < int (length xs)" "int (lower v xs) \<le> hi + 1" "v \<in> set xs \<Longrightarrow> int (lower v xs) \<le> hi"
    and cur: "lo \<le> hi \<or> cur \<noteq> v"
  shows "\<exists>lo' mid' cur'. search_loop is v lo hi mid cur = Some (lo', mid', cur') \<and>
    (if v \<in> set xs then cur' = v \<and> mid' = int (lower v xs) else cur' \<noteq> v \<and> lo' = int (lower v xs))"
  using lo hi cur
proof (induction "nat (hi - lo + 1)" arbitrary: lo hi mid cur rule: less_induct)
  case less
  have srt: "sorted_wrt (<) xs" and lim: "length xs \<le> INTSET_LIMIT" using wf by (simp_all add: intset_wf_def)
  show ?case
  proof (cases "lo \<le> hi")
    case False
    then have "v \<notin> set xs" "lo = int (lower v xs)" using less.prems by auto
    then show ?thesis using False less.prems(6) by (subst search_loop.simps) simp
  next
    case True
    define m where "m = (lo + hi) div 2"
    have m: "lo \<le> m" "m \<le> hi" using True unfolding m_def by auto
    then obtain i where i: "m = int i" "i < length xs" using less.prems(1,3) by (metis nonneg_int_cases of_nat_less_iff order_trans order_le_less_trans)
    have "lo + hi \<le> int INT_MAX"
      using less.prems(3) True lim by (simp add: INTSET_LIMIT_def INT_MAX_def)
    then have step: "search_loop is v lo hi mid cur =
        (if v > xs ! i then search_loop is v (m + 1) hi m (xs ! i)
         else if v < xs ! i then search_loop is v lo (m - 1) m (xs ! i)
         else Some (lo, m, xs ! i))"
      using True less.prems(1) intset_wf_get [OF wf i(2)]
      by (subst search_loop.simps) (simp add: m_def [symmetric] i(1) Let_def)
    consider "v > xs ! i" | "v < xs ! i" | "v = xs ! i" by linarith
    then show ?thesis
    proof cases
      case 1
      then have "i < lower v xs" using lower_ge [OF srt, of v i] i(2) by (meson linorder_not_less)
      moreover have "search_loop is v lo hi mid cur = search_loop is v (m + 1) hi m (xs ! i)"
        using 1 step by simp
      ultimately show ?thesis
        using 1 m less.prems i by (simp only:, intro less.hyps) auto
    next
      case 2
      then have "lower v xs \<le> i" using lower_less [of i v xs] by force
      moreover have "lower v xs \<noteq> i" if "v \<in> set xs" using that 2 lower_mem [OF srt, of v] by auto
      moreover have "search_loop is v lo hi mid cur = search_loop is v lo (m - 1) m (xs ! i)"
        using 2 step by simp
      ultimately show ?thesis
        using 2 m less.prems i by (simp only:, intro less.hyps) auto
    next
      case 3
      then have "v \<in> set xs" "lower v xs = i" using i(2) lower_eq [OF srt i(2)] by auto
      then show ?thesis using 3 i(1) unfolding step by simp
    qed
  qed
qed

lemma intsetSearch_ok:
  assumes wf: "intset_wf is xs"
  shows "intsetSearch is v = Some (v \<in> set xs, lower v xs)"
proof (cases "xs = []")
  case True
  then show ?thesis using wf by (simp add: intsetSearch_def intset_wf_def lower_def)
next
  case False
  have srt: "sorted_wrt (<) xs" and len: "is_length is = length xs" and lim: "length xs \<le> INTSET_LIMIT"
    using wf by (simp_all add: intset_wf_def)
  have i32: "to_int32 (length xs - 1) = int (length xs - 1)"
    using lim by (intro to_int32_small) (simp add: INTSET_LIMIT_def)
  have get: "intset_get is (int (length xs - 1)) = Some (xs ! (length xs - 1))" "intset_get is 0 = Some (xs ! 0)"
    using intset_wf_get [OF wf, of "length xs - 1"] intset_wf_get [OF wf, of 0] False by simp_all
  consider (above) "v > xs ! (length xs - 1)" | (below) "v \<le> xs ! (length xs - 1)" "v < xs ! 0"
    | (inside) "v \<le> xs ! (length xs - 1)" "xs ! 0 \<le> v" by linarith
  then show ?thesis
  proof cases
    case above
    then have "\<not> lower v xs \<le> length xs - 1" using lower_ge [OF srt, of v "length xs - 1"] False by force
    then have "lower v xs = length xs" using lower_le [of v xs] by simp
    then show ?thesis
      using above False len i32 get lower_mem [OF srt, of v] by (simp add: intsetSearch_def)
  next
    case below
    then have "lower v xs = 0" using lower_less [of 0 v xs] by force
    then show ?thesis
      using below False len i32 get lower_mem [OF srt, of v] by (simp add: intsetSearch_def)
  next
    case inside
    have "lower v xs \<le> length xs - 1" using lower_less [of "length xs - 1" v xs] inside(1) by force
    then obtain lo mid cur where
      "search_loop is v 0 (int (length xs - 1)) (-1) (-1) = Some (lo, mid, cur)"
      "if v \<in> set xs then cur = v \<and> mid = int (lower v xs) else cur \<noteq> v \<and> lo = int (lower v xs)"
      using search_loop_ok [OF wf, of 0 v "int (length xs - 1)" "-1" "-1"] False by auto
    then show ?thesis
      using inside False len i32 get by (auto simp: intsetSearch_def split: if_splits)
  qed
qed

subsection \<open>Insertion and deletion without a change of width\<close>

definition ins :: "int \<Rightarrow> int list \<Rightarrow> int list" where
  "ins v xs = take (lower v xs) xs @ v # drop (lower v xs) xs"

definition del :: "int \<Rightarrow> int list \<Rightarrow> int list" where
  "del v xs = take (lower v xs) xs @ drop (Suc (lower v xs)) xs"

lemma sorted_ins:
  assumes srt: "sorted_wrt (<) xs" and v: "v \<notin> set xs"
  shows "sorted_wrt (<) (ins v xs)" "set (ins v xs) = insert v (set xs)" "length (ins v xs) = Suc (length xs)"
proof -
  have "x < v" if "x \<in> set (take (lower v xs) xs)" for x
    using that lower_less [of _ v xs] by (auto simp: in_set_conv_nth)
  moreover have "v < x" if mem: "x \<in> set (drop (lower v xs) xs)" for x
  proof -
    obtain i where "i < length xs - lower v xs" "x = xs ! (lower v xs + i)"
      using mem by (auto simp: in_set_conv_nth)
    then have "v \<le> x" "x \<in> set xs" using lower_ge [OF srt, of v "lower v xs + i"] by simp_all
    with v show ?thesis by (cases "v = x") auto
  qed
  moreover have "sorted_wrt (<) (take (lower v xs) xs @ drop (lower v xs) xs)" using srt by simp
  ultimately show "sorted_wrt (<) (ins v xs)" unfolding ins_def sorted_wrt_append by fastforce
  have "set xs = set (take (lower v xs) xs) \<union> set (drop (lower v xs) xs)"
    by (metis append_take_drop_id set_append)
  then show "set (ins v xs) = insert v (set xs)" by (simp add: ins_def)
  show "length (ins v xs) = Suc (length xs)" using lower_le [of v xs] by (simp add: ins_def)
qed

lemma sorted_del:
  assumes srt: "sorted_wrt (<) xs" and v: "v \<in> set xs"
  shows "sorted_wrt (<) (del v xs)" "set (del v xs) = set xs - {v}" "length (del v xs) = length xs - 1"
proof -
  let ?p = "lower v xs"
  have p: "?p < length xs" "xs ! ?p = v" using lower_mem [OF srt] v by blast+
  have xs: "xs = take ?p xs @ v # drop (Suc ?p) xs" using id_take_nth_drop [OF p(1)] p(2) by simp
  show "length (del v xs) = length xs - 1" using p by (simp add: del_def)
  have "sorted_wrt (<) (take ?p xs @ v # drop (Suc ?p) xs)" using srt xs by simp
  then show "sorted_wrt (<) (del v xs)" unfolding del_def sorted_wrt_append by auto
  have "distinct xs" using srt by (simp add: strict_sorted_iff)
  then have "v \<notin> set (take ?p xs) \<union> set (drop (Suc ?p) xs)" by (subst (asm) xs) simp
  moreover have "set xs = insert v (set (take ?p xs) \<union> set (drop (Suc ?p) xs))" by (subst xs) simp
  ultimately show "set (del v xs) = set xs - {v}" unfolding del_def set_append by blast
qed

lemma intset_wf_facts:
  assumes "intset_wf is xs"
  shows "is_length is = length xs" "is_contents is = map Some (blocks (is_encoding is) xs)" "sorted_wrt (<) xs"
    "enc_width (is_encoding is) = is_encoding is" "length xs \<le> INTSET_LIMIT" "0 < is_encoding is" "is_encoding is \<le> 8"
  using assms by (auto simp: intset_wf_def INTSET_ENC_INT16_def INTSET_ENC_INT32_def INTSET_ENC_INT64_def enc_width_def)

lemma size_mod: "n \<le> INTSET_LIMIT + 1 \<Longrightarrow> w \<le> 8 \<Longrightarrow> n * w mod 2 ^ 32 = n * w"
proof -
  assume "n \<le> INTSET_LIMIT + 1" "w \<le> 8"
  then have "n * w \<le> (INTSET_LIMIT + 1) * 8" by (rule mult_le_mono)
  also have "\<dots> < 2 ^ 32" by (simp add: INTSET_LIMIT_def)
  finally show ?thesis by simp
qed

lemma intsetMoveTail_ok:
  assumes "w = enc_width (is_encoding is)" "w \<le> 8" "from \<le> is_length is" "is_length is \<le> INTSET_LIMIT"
  shows "intsetMoveTail is from to =
    map_option (\<lambda>c. is\<lparr>is_contents := c\<rparr>) (mem_move (is_contents is) (to * w) (from * w) ((is_length is - from) * w))"
proof -
  have "nat ((int (is_length is) - int from) * int w mod 2 ^ 32) = (is_length is - from) * w mod 2 ^ 32"
    using assms(3) by (simp add: nat_mod_distrib nat_mult_distrib of_nat_diff [symmetric] del: of_nat_diff)
  also have "\<dots> = (is_length is - from) * w" using assms(2,4) by (intro size_mod) simp_all
  finally show ?thesis using assms(1) by (simp add: intsetMoveTail_def Let_def map_conv_bind_option comp_def)
qed

lemma intsetAdd_same_width:
  assumes wf: "intset_wf is xs" and enc: "int_range (is_encoding is) v" "intsetValueEncoding v \<le> is_encoding is"
    and v: "v \<notin> set xs" and lim: "length xs < INTSET_LIMIT"
  shows "\<exists>is'. intsetAdd is v = Some (is', True) \<and> intset_wf is' (ins v xs) \<and> is_encoding is' = is_encoding is"
proof -
  note f = intset_wf_facts [OF wf]
  define w p where "w = is_encoding is" and "p = lower v xs"
  define A B where "A = map Some (blocks w (take p xs))" and "B = map Some (blocks w (drop p xs))"
  have p: "p \<le> length xs" unfolding p_def by (rule lower_le)
  have len: "length A = p * w" "length B = (length xs - p) * w" using p by (simp_all add: A_def B_def)
  have cont: "is_contents is = A @ B"
    unfolding f(2) w_def [symmetric] A_def B_def map_append [symmetric] blocks_simps(3) [symmetric] by simp
  have l1: "(length xs + 1) mod 2 ^ 32 = length xs + 1" using lim by (simp add: INTSET_LIMIT_def)
  define is1 where "is1 = is\<lparr>is_contents := A @ B @ replicate w None\<rparr>"
  have "(length xs + 1) * w mod 2 ^ 32 = (length xs + 1) * w"
    using lim f(7) by (intro size_mod) (simp_all add: w_def)
  moreover have "length (A @ B) = length xs * w" using len p by (simp add: add_mult_distrib [symmetric])
  ultimately have is1: "intsetResize is (length xs + 1) = is1"
    unfolding intsetResize_def w_def [symmetric] Let_def is1_def cont by (simp add: zrealloc_def)
  obtain c where c: "(if p < is_length is1 then intsetMoveTail is1 p (p + 1) else Some is1) = Some (is1\<lparr>is_contents := c\<rparr>)"
    "take (p * w) c = A" "drop (p * w + w) c = B" "length c = (length xs + 1) * w"
  proof (cases "p < length xs")
    case True
    have le: "p * w + (length xs - p) * w = length xs * w" "(p + 1) * w + (length xs - p) * w = (length xs + 1) * w"
      using p by (simp_all add: add_mult_distrib [symmetric])
    have "mem_move (A @ B @ replicate w None) ((p + 1) * w) (p * w) ((length xs - p) * w) =
        Some (take ((p + 1) * w) (A @ B @ replicate w None) @ B)"
      using le len by (simp add: mem_move_def)
    moreover have "intsetMoveTail is1 p (p + 1) = map_option (\<lambda>c. is1\<lparr>is_contents := c\<rparr>)
        (mem_move (A @ B @ replicate w None) ((p + 1) * w) (p * w) ((length xs - p) * w))"
      using intsetMoveTail_ok [of w is1 p "p + 1"] f p lim by (simp add: is1_def w_def)
    moreover have "w \<le> length (B @ replicate w None)" by simp
    ultimately show thesis
      using True len le f(1) by (intro that [of "take ((p + 1) * w) (A @ B @ replicate w None) @ B"]) (simp_all add: is1_def)
  next
    case False
    with p have "p = length xs" by simp
    then show thesis using len f(1) by (intro that [of "A @ B @ replicate w None"]) (simp_all add: is1_def)
  qed
  have i32: "to_int32 p = int p"
    using p lim by (intro to_int32_small) (simp add: INTSET_LIMIT_def)
  have set: "intsetSet (is1\<lparr>is_contents := c\<rparr>) (to_int32 p) v = Some (is1\<lparr>is_contents := A @ map Some (int_enc w v) @ B\<rparr>)"
    using intsetSet_ok [of w "is1\<lparr>is_contents := c\<rparr>" p v] c p f(4) unfolding i32 by (simp add: is1_def w_def)
  have "intsetAdd is v = do {
      is \<leftarrow> (if p < is_length is1 then intsetMoveTail is1 p (p + 1) else Some is1);
      is \<leftarrow> intsetSet is (to_int32 p) v;
      Some (is\<lparr>is_length := (is_length is + 1) mod 2 ^ 32\<rparr>, True) }"
    using enc(2) intsetSearch_ok [OF wf, of v] v is1 l1 f(1) unfolding p_def [symmetric] by (simp add: intsetAdd_def)
  then have "intsetAdd is v = Some (is1\<lparr>is_contents := A @ map Some (int_enc w v) @ B, is_length := length xs + 1\<rparr>, True)"
    unfolding c(1) using set l1 f(1) by (simp add: is1_def)
  moreover have "A @ map Some (int_enc w v) @ B = map Some (blocks w (ins v xs))"
    by (simp add: A_def B_def ins_def p_def)
  moreover have "\<forall>x \<in> insert v (set xs). int_range w x" using wf enc(1) by (simp add: intset_wf_def w_def)
  ultimately show ?thesis
    using wf lim sorted_ins [OF f(3) v] unfolding intset_wf_def by (simp add: is1_def w_def)
qed

lemma intsetRemove_ok:
  assumes wf: "intset_wf is xs" and enc: "intsetValueEncoding v \<le> is_encoding is" and v: "v \<in> set xs"
  shows "\<exists>is'. intsetRemove is v = Some (is', True) \<and> intset_wf is' (del v xs) \<and> is_encoding is' = is_encoding is"
proof -
  note f = intset_wf_facts [OF wf]
  define w p where "w = is_encoding is" and "p = lower v xs"
  have p: "p < length xs" "xs ! p = v" using lower_mem [OF f(3), of v] v by (simp_all add: p_def)
  define A B where "A = map Some (blocks w (take p xs))" and "B = map Some (blocks w (drop (Suc p) xs))"
  have len: "length A = p * w" "length B = (length xs - Suc p) * w" using p by (simp_all add: A_def B_def)
  have cont: "is_contents is = A @ map Some (int_enc w v) @ B"
    using blocks_split [OF p(1), of w] unfolding f(2) w_def [symmetric] A_def B_def p(2) by simp
  have tot: "p * w + (length xs - Suc p) * w = (length xs - 1) * w"
    using p(1) by (simp add: add_mult_distrib [symmetric])
  obtain c where c: "(if p < length xs - 1 then intsetMoveTail is (p + 1) p else Some is) = Some (is\<lparr>is_contents := c\<rparr>)"
    "take ((length xs - 1) * w) c = A @ B" "(length xs - 1) * w \<le> length c"
  proof (cases "p < length xs - 1")
    case True
    have "mem_move (is_contents is) (p * w) ((p + 1) * w) ((length xs - Suc p) * w) =
        Some (A @ B @ drop (p * w + length B) (is_contents is))"
      using len unfolding cont by (simp add: mem_move_def)
    moreover have "intsetMoveTail is (p + 1) p = map_option (\<lambda>c. is\<lparr>is_contents := c\<rparr>)
        (mem_move (is_contents is) (p * w) ((p + 1) * w) ((length xs - Suc p) * w))"
      using intsetMoveTail_ok [of w "is" "p + 1" p] f p by (simp add: w_def)
    ultimately show thesis
      using True len tot by (intro that [of "A @ B @ drop (p * w + length B) (is_contents is)"]) simp_all
  next
    case False
    with p have pl: "length xs - 1 = p" by simp
    then have "B = []" by (simp add: B_def)
    then show thesis using len(1) cont by (intro that [of "is_contents is"]) (simp_all add: pl [simplified])
  qed
  have "(length xs - 1) * w mod 2 ^ 32 = (length xs - 1) * w"
    using f(5,7) by (intro size_mod) (simp_all add: w_def)
  then have res: "intsetResize (is\<lparr>is_contents := c\<rparr>) (length xs - 1) = is\<lparr>is_contents := A @ B\<rparr>"
    using c(2,3) by (simp add: intsetResize_def zrealloc_def w_def)
  have "intsetRemove is v = do {
      is \<leftarrow> (if p < length xs - 1 then intsetMoveTail is (p + 1) p else Some is);
      Some ((intsetResize is (length xs - 1))\<lparr>is_length := length xs - 1\<rparr>, True) }"
    using enc intsetSearch_ok [OF wf, of v] v f(1) unfolding p_def [symmetric] by (simp add: intsetRemove_def)
  then have "intsetRemove is v = Some (is\<lparr>is_contents := A @ B, is_length := length xs - 1\<rparr>, True)"
    unfolding c(1) using res by simp
  moreover have "A @ B = map Some (blocks w (del v xs))" by (simp add: A_def B_def del_def p_def)
  moreover have "\<forall>x \<in> set xs - {v}. int_range w x" using wf by (simp add: intset_wf_def w_def)
  moreover have "length xs - Suc 0 \<le> INTSET_LIMIT" using f(5) by simp
  ultimately show ?thesis
    using wf sorted_del [OF f(3) v] unfolding intset_wf_def by (simp add: w_def)
qed

subsection \<open>Upgrading the width\<close>

text \<open>
  The elements are rewritten from the last to the first: the wider copies never reach the narrow
  ones that are still to be read.
\<close>

lemma upgrade_loop_ok:
  assumes enc: "w = enc_width curenc" "W = enc_width (is_encoding is)" "w \<le> W"
    and n: "n \<le> length xs" and rng: "\<forall>x \<in> set xs. int_range w x"
    and len: "length (is_contents is) = (length xs + 1) * W" and p: "p \<le> 1"
    and old: "take (n * w) (is_contents is) = map Some (blocks w (take n xs))"
    and new: "take ((length xs - n) * W) (drop ((n + p) * W) (is_contents is)) = map Some (blocks W (drop n xs))"
  shows "\<exists>c. upgrade_loop is n p curenc = Some (is\<lparr>is_contents := c\<rparr>) \<and> length c = (length xs + 1) * W \<and>
    take (length xs * W) (drop (p * W) c) = map Some (blocks W xs)"
  using assms
proof (induction n arbitrary: "is")
  case 0
  then show ?case by (intro exI [of _ "is_contents is"]) simp
next
  case (Suc n)
  let ?c = "is_contents is"
  have W: "0 < W" using Suc.prems(2) by (simp add: enc_width_def)
  have "intsetGetEncoded is (int n) curenc = Some (take (Suc n) xs ! n)"
    using Suc.prems(4,5) Suc.prems(8) by (intro intsetGetEncoded_ok [OF _ Suc.prems(1)]) simp_all
  then have get: "intsetGetEncoded is (int n) curenc = Some (xs ! n)" by simp
  have fits: "(n + p) * W + W \<le> length ?c"
  proof -
    have "(n + p) * W + W = (Suc n + p) * W" by simp
    also have "\<dots> \<le> (length xs + 1) * W" using Suc.prems(4,7) by (intro mult_le_mono1) simp
    finally show ?thesis using Suc.prems(6) by simp
  qed
  define c1 where "c1 = take ((n + p) * W) ?c @ map Some (int_enc W (xs ! n)) @ drop ((n + p) * W + W) ?c"
  have len1: "length c1 = (length xs + 1) * W" unfolding c1_def using fits Suc.prems(6) by simp
  have low: "n * w \<le> (n + p) * W" using Suc.prems(3) by (intro mult_le_mono) simp_all
  have set: "intsetSet is (int (n + p)) (xs ! n) = Some (is\<lparr>is_contents := c1\<rparr>)"
    using intsetSet_ok [OF Suc.prems(2) fits] by (simp add: c1_def)
  have "take (n * w) c1 = take (n * w) ?c"
    unfolding c1_def using low fits by (simp add: min_absorb1)
  also have "\<dots> = take (n * w) (take (Suc n * w) ?c)" by (simp add: min_absorb1)
  also have "\<dots> = map Some (blocks w (take n xs))"
    unfolding Suc.prems(8) using Suc.prems(4) take_blocks [of n "take (Suc n) xs" w] by (simp add: take_map min_absorb1)
  finally have old1: "take (n * w) c1 = map Some (blocks w (take n xs))" .
  have "drop ((n + p) * W) c1 = map Some (int_enc W (xs ! n)) @ drop ((Suc n + p) * W) ?c"
    unfolding c1_def using fits by (simp add: add.commute)
  moreover have "(length xs - n) * W = W + (length xs - Suc n) * W"
    using Suc.prems(4) by (simp add: Suc_diff_le [symmetric] flip: mult_Suc)
  ultimately have "take ((length xs - n) * W) (drop ((n + p) * W) c1) =
      map Some (int_enc W (xs ! n)) @ take ((length xs - Suc n) * W) (drop ((Suc n + p) * W) ?c)"
    by simp
  also have "\<dots> = map Some (blocks W (drop n xs))"
    unfolding Suc.prems(9) using Suc.prems(4) by (simp add: Cons_nth_drop_Suc [symmetric])
  finally have new1: "take ((length xs - n) * W) (drop ((n + p) * W) c1) = map Some (blocks W (drop n xs))" .
  obtain c where "upgrade_loop (is\<lparr>is_contents := c1\<rparr>) n p curenc = Some (is\<lparr>is_contents := c\<rparr>)"
    "length c = (length xs + 1) * W" "take (length xs * W) (drop (p * W) c) = map Some (blocks W xs)"
    using Suc.IH [of "is\<lparr>is_contents := c1\<rparr>"] Suc.prems len1 old1 new1 by auto
  then show ?case using get set by auto
qed

lemma int_range_mono: "int_range w x \<Longrightarrow> w \<le> W \<Longrightarrow> int_range W x"
proof -
  assume x: "int_range w x" and "w \<le> W"
  then have "(2 :: int) ^ (8 * w - 1) \<le> 2 ^ (8 * W - 1)" by (intro power_increasing) simp_all
  with x show ?thesis unfolding int_range_def by linarith
qed

text \<open>A value that needs a larger width lies outside the range of all elements.\<close>

lemma ins_outside:
  assumes rng: "\<forall>x \<in> set xs. int_range w x" and out: "\<not> int_range w v"
  shows "ins v xs = (if v < 0 then v # xs else xs @ [v])" "v \<notin> set xs"
proof -
  show "v \<notin> set xs" using assms by blast
  have pos: "0 < (2 :: int) ^ (8 * w - 1)" by simp
  show "ins v xs = (if v < 0 then v # xs else xs @ [v])"
  proof (cases "v < 0")
    case True
    then have "\<forall>x \<in> set xs. \<not> x < v" using rng out pos unfolding int_range_def by fastforce
    then have "lower v xs = 0" unfolding lower_def by (cases xs) simp_all
    then show ?thesis using True by (simp add: ins_def)
  next
    case False
    then have "\<forall>x \<in> set xs. x < v" using rng out pos unfolding int_range_def by fastforce
    then have "lower v xs = length xs" unfolding lower_def by (simp only: takeWhile_eq_all_conv [THEN iffD2])
    then show ?thesis using False by (simp add: ins_def)
  qed
qed

lemma upgrade_set_ok:
  assumes W: "W = enc_width (is_encoding is)" and p: "p = (if v < 0 then 1 else 0)"
    and c: "length (is_contents is) = (length xs + 1) * W" "take (length xs * W) (drop (p * W) (is_contents is)) = map Some (blocks W xs)"
  shows "(if p = 1 then intsetSet is 0 v else intsetSet is (int (length xs)) v) =
    Some (is\<lparr>is_contents := map Some (blocks W (if v < 0 then v # xs else xs @ [v]))\<rparr>)"
proof (cases "v < 0")
  case True
  then have "drop W (is_contents is) = map Some (blocks W xs)" using c p by simp
  then show ?thesis using intsetSet_ok [OF W, of 0 v] c(1) True p by simp
next
  case False
  then have "take (length xs * W) (is_contents is) = map Some (blocks W xs)" using c p by simp
  then show ?thesis using intsetSet_ok [OF W, of "length xs" v] c(1) False p by simp
qed

lemma intsetUpgradeAndAdd_ok:
  assumes wf: "intset_wf is xs" and v: "- (2 ^ 63) \<le> v" "v < 2 ^ 63"
    and enc: "is_encoding is < intsetValueEncoding v" and lim: "length xs < INTSET_LIMIT"
  shows "\<exists>is'. intsetUpgradeAndAdd is v = Some is' \<and> intset_wf is' (ins v xs) \<and> v \<notin> set xs"
proof -
  note f = intset_wf_facts [OF wf]
  define w W p where "w = is_encoding is" and "W = intsetValueEncoding v" and "p = (if v < 0 then 1 else 0 :: nat)"
  have W: "enc_width W = W" "W \<le> 8" "W \<in> {INTSET_ENC_INT16, INTSET_ENC_INT32, INTSET_ENC_INT64}" "w \<le> W"
    using valueEncoding_cases [of v] enc unfolding W_def w_def
    by (auto simp: INTSET_ENC_INT16_def INTSET_ENC_INT32_def INTSET_ENC_INT64_def)
  have rng: "\<forall>x \<in> set xs. int_range w x" and wenc: "w \<in> {INTSET_ENC_INT16, INTSET_ENC_INT32, INTSET_ENC_INT64}"
    using wf by (simp_all add: intset_wf_def w_def)
  have out: "\<not> int_range w v" using valueEncoding_range [OF v wenc] enc by (simp add: w_def)
  note ins_v = ins_outside [OF rng out]
  have rngW: "\<forall>x \<in> insert v (set xs). int_range W x"
    using rng int_range_mono [OF _ W(4)] valueEncoding_range [OF v W(3)] by (simp add: W_def)
  define is1 where "is1 = is\<lparr>is_encoding := W, is_contents := map Some (blocks w xs) @ replicate ((length xs + 1) * W - length xs * w) None\<rparr>"
  have sz: "(length xs + 1) * W mod 2 ^ 32 = (length xs + 1) * W" "(length xs + 1) mod 2 ^ 32 = length xs + 1"
    using lim W(2) by (intro size_mod, simp_all add: INTSET_LIMIT_def)
  have "length xs * w \<le> (length xs + 1) * W" using W(4) by (intro mult_le_mono) simp_all
  then have res: "intsetResize (is\<lparr>is_encoding := W\<rparr>) (length xs + 1) = is1" "length (is_contents is1) = (length xs + 1) * W"
    "is_encoding is1 = W" "is_length is1 = length xs"
    using sz f(1,2) by (simp_all add: intsetResize_def zrealloc_def is1_def w_def)
  have "take (length xs * w) (is_contents is1) = map Some (blocks w (take (length xs) xs))" "p \<le> 1"
    by (simp_all add: is1_def p_def)
  then obtain c where c: "upgrade_loop is1 (length xs) p w = Some (is1\<lparr>is_contents := c\<rparr>)"
    "length c = (length xs + 1) * W" "take (length xs * W) (drop (p * W) c) = map Some (blocks W xs)"
    using upgrade_loop_ok [of w w W is1 "length xs" xs p] W(1,4) f(4) rng res(2,3) by (auto simp: w_def)
  have i32: "to_int32 (length xs) = int (length xs)" using lim by (intro to_int32_small) (simp add: INTSET_LIMIT_def)
  let ?ys = "map Some (blocks W (ins v xs))"
  have set: "(if p = 1 then intsetSet (is1\<lparr>is_contents := c\<rparr>) 0 v
      else intsetSet (is1\<lparr>is_contents := c\<rparr>) (int (length xs)) v) = Some (is1\<lparr>is_contents := ?ys\<rparr>)"
    unfolding ins_v(1) using upgrade_set_ok [of W "is1\<lparr>is_contents := c\<rparr>" p v xs] c(2,3) W(1) res(3) by (simp add: p_def)
  have "intsetUpgradeAndAdd is v = do {
      is \<leftarrow> upgrade_loop is1 (length xs) p w;
      is \<leftarrow> (if p = 1 then intsetSet is 0 v else intsetSet is (to_int32 (is_length is)) v);
      Some (is\<lparr>is_length := (is_length is + 1) mod 2 ^ 32\<rparr>) }"
    using i32 sz(2) res(1) f(1) unfolding intsetUpgradeAndAdd_def Let_def W_def [symmetric] w_def [symmetric] p_def [symmetric]
    by simp
  then have "intsetUpgradeAndAdd is v = Some (is1\<lparr>is_contents := ?ys, is_length := length xs + 1\<rparr>)"
    using c(1) set sz(2) res(4) i32 by (simp split: if_splits)
  then show ?thesis
    using ins_v(2) W(3) rngW lim sorted_ins [OF f(3) ins_v(2)] unfolding intset_wf_def by (simp add: is1_def)
qed

subsection \<open>The operations on sets\<close>

lemma intsetFind_ok:
  assumes "intset_wf is xs" "- (2 ^ 63) \<le> v" "v < 2 ^ 63"
  shows "intsetFind is v = Some (v \<in> set xs)"
proof (cases "intsetValueEncoding v \<le> is_encoding is")
  case True
  then show ?thesis using intsetSearch_ok [OF assms(1)] by (simp add: intsetFind_def)
next
  case False
  moreover have "\<not> int_range (is_encoding is) v"
    using False valueEncoding_range [OF assms(2,3), of "is_encoding is"] assms(1) by (simp add: intset_wf_def)
  ultimately show ?thesis using assms(1) by (auto simp: intsetFind_def intset_wf_def)
qed

lemma intsetAdd_ok:
  assumes "intset_wf is xs" "- (2 ^ 63) \<le> v" "v < 2 ^ 63" "length xs < INTSET_LIMIT"
  obtains is' where "intsetAdd is v = Some (is', v \<notin> set xs)"
    "intset_wf is' (if v \<in> set xs then xs else ins v xs)"
proof (cases "intsetValueEncoding v \<le> is_encoding is")
  case True
  then have rng: "int_range (is_encoding is) v"
    using valueEncoding_range [OF assms(2,3), of "is_encoding is"] assms(1) by (simp add: intset_wf_def)
  show thesis
  proof (cases "v \<in> set xs")
    case mem: True
    then have "intsetAdd is v = Some (is, False)"
      using True intsetSearch_ok [OF assms(1), of v] by (simp add: intsetAdd_def)
    with that mem assms(1) show thesis by simp
  next
    case False
    with that intsetAdd_same_width [OF assms(1) rng True False assms(4)] show thesis by auto
  qed
next
  case False
  then obtain is' where "intsetUpgradeAndAdd is v = Some is'" "intset_wf is' (ins v xs)" "v \<notin> set xs"
    using intsetUpgradeAndAdd_ok [OF assms(1-3) _ assms(4)] by auto
  with that False show thesis by (simp add: intsetAdd_def)
qed

lemma intsetRemove_all:
  assumes "intset_wf is xs" "- (2 ^ 63) \<le> v" "v < 2 ^ 63"
  obtains is' where "intsetRemove is v = Some (is', v \<in> set xs)"
    "intset_wf is' (if v \<in> set xs then del v xs else xs)"
proof (cases "v \<in> set xs")
  case True
  then have "int_range (is_encoding is) v" using assms(1) by (simp add: intset_wf_def)
  then have "intsetValueEncoding v \<le> is_encoding is"
    using valueEncoding_range [OF assms(2,3), of "is_encoding is"] assms(1) by (simp add: intset_wf_def)
  with that True intsetRemove_ok [OF assms(1) _ True] show thesis by auto
next
  case False
  then have "intsetRemove is v = Some (is, False)"
    using intsetSearch_ok [OF assms(1), of v] by (simp add: intsetRemove_def)
  with that False assms(1) show thesis by simp
qed

lemma intsetAdd_set:
  assumes "intset_wf is xs" "- (2 ^ 63) \<le> v" "v < 2 ^ 63" "length xs < 2 ^ 28"
  shows "\<exists>is' ys. intsetAdd is v = Some (is', v \<notin> set xs) \<and> intset_wf is' ys \<and> set ys = insert v (set xs)"
proof -
  have srt: "sorted_wrt (<) xs" using assms(1) by (simp add: intset_wf_def)
  obtain is' where "intsetAdd is v = Some (is', v \<notin> set xs)" "intset_wf is' (if v \<in> set xs then xs else ins v xs)"
    using intsetAdd_ok [OF assms(1-3)] assms(4) by (auto simp: INTSET_LIMIT_def)
  then show ?thesis using sorted_ins(2) [OF srt, of v]
    by (intro exI [of _ is'] exI [of _ "if v \<in> set xs then xs else ins v xs"]) auto
qed

lemma intsetRemove_set:
  assumes "intset_wf is xs" "- (2 ^ 63) \<le> v" "v < 2 ^ 63"
  shows "\<exists>is' ys. intsetRemove is v = Some (is', v \<in> set xs) \<and> intset_wf is' ys \<and> set ys = set xs - {v}"
proof -
  have srt: "sorted_wrt (<) xs" using assms(1) by (simp add: intset_wf_def)
  obtain is' where "intsetRemove is v = Some (is', v \<in> set xs)" "intset_wf is' (if v \<in> set xs then del v xs else xs)"
    using intsetRemove_all [OF assms] by blast
  then show ?thesis using sorted_del(2) [OF srt, of v]
    by (intro exI [of _ is'] exI [of _ "if v \<in> set xs then del v xs else xs"]) auto
qed

subsection \<open>The interface of a set of integers\<close>

text \<open>
  What the set commands rely on: the three operations and the abstract set a state holds. The
  bound \<open>cap\<close> is the number of elements the representation can hold.
\<close>

datatype set_op = SetAdd int | SetRemove int | SetFind int

fun set_op_value :: "set_op \<Rightarrow> int" where
  "set_op_value (SetAdd v) = v"
| "set_op_value (SetRemove v) = v"
| "set_op_value (SetFind v) = v"

fun set_step :: "set_op \<Rightarrow> int set \<Rightarrow> int set \<times> bool" where
  "set_step (SetAdd v) A = (insert v A, v \<notin> A)"
| "set_step (SetRemove v) A = (A - {v}, v \<in> A)"
| "set_step (SetFind v) A = (A, v \<in> A)"

fun set_run :: "set_op list \<Rightarrow> int set \<Rightarrow> int set \<times> bool list" where
  "set_run [] A = (A, [])"
| "set_run (op # ops) A = (let (A, r) = set_step op A; (A, rs) = set_run ops A in (A, r # rs))"

fun impl_step :: "('s \<Rightarrow> int \<Rightarrow> ('s \<times> bool) option) \<Rightarrow> ('s \<Rightarrow> int \<Rightarrow> ('s \<times> bool) option) \<Rightarrow>
    ('s \<Rightarrow> int \<Rightarrow> bool option) \<Rightarrow> set_op \<Rightarrow> 's \<Rightarrow> ('s \<times> bool) option" where
  "impl_step add rem has (SetAdd v) s = add s v"
| "impl_step add rem has (SetRemove v) s = rem s v"
| "impl_step add rem has (SetFind v) s = map_option (\<lambda>b. (s, b)) (has s v)"

fun impl_run :: "('s \<Rightarrow> int \<Rightarrow> ('s \<times> bool) option) \<Rightarrow> ('s \<Rightarrow> int \<Rightarrow> ('s \<times> bool) option) \<Rightarrow>
    ('s \<Rightarrow> int \<Rightarrow> bool option) \<Rightarrow> set_op list \<Rightarrow> 's \<Rightarrow> ('s \<times> bool list) option" where
  "impl_run add rem has [] s = Some (s, [])"
| "impl_run add rem has (op # ops) s =
     do {
       (s, r) \<leftarrow> impl_step add rem has op s;
       (s, rs) \<leftarrow> impl_run add rem has ops s;
       Some (s, r # rs)
     }"

locale int_set_impl =
  fixes holds :: "'s \<Rightarrow> int set \<Rightarrow> bool" and valid :: "int \<Rightarrow> bool" and cap :: nat
    and add :: "'s \<Rightarrow> int \<Rightarrow> ('s \<times> bool) option" and rem :: "'s \<Rightarrow> int \<Rightarrow> ('s \<times> bool) option"
    and has :: "'s \<Rightarrow> int \<Rightarrow> bool option"
  assumes fin: "holds s A \<Longrightarrow> finite A"
    and add_law: "holds s A \<Longrightarrow> valid v \<Longrightarrow> card A < cap \<Longrightarrow> \<exists>s'. add s v = Some (s', v \<notin> A) \<and> holds s' (insert v A)"
    and rem_law: "holds s A \<Longrightarrow> valid v \<Longrightarrow> \<exists>s'. rem s v = Some (s', v \<in> A) \<and> holds s' (A - {v})"
    and find_law: "holds s A \<Longrightarrow> valid v \<Longrightarrow> has s v = Some (v \<in> A)"
begin

lemma step_refines:
  assumes "holds s A" "valid (set_op_value op)" "card A < cap"
  shows "\<exists>s'. impl_step add rem has op s = Some (s', snd (set_step op A)) \<and> holds s' (fst (set_step op A)) \<and>
    card (fst (set_step op A)) \<le> Suc (card A)"
proof (cases op)
  case (SetAdd v)
  then show ?thesis using add_law [of s A v] assms fin [of s A] by (auto simp: card_insert_if)
next
  case (SetRemove v)
  then show ?thesis using rem_law [of s A v] assms card_Diff1_le [of A v] by auto
next
  case (SetFind v)
  then show ?thesis using find_law [of s A v] assms by auto
qed

lemma run_refines:
  assumes "holds s A" "\<forall>op \<in> set ops. valid (set_op_value op)" "card A + length ops \<le> cap"
  shows "\<exists>s'. impl_run add rem has ops s = Some (s', snd (set_run ops A)) \<and> holds s' (fst (set_run ops A))"
  using assms
proof (induction ops arbitrary: s A)
  case Nil
  then show ?case by simp
next
  case (Cons op ops)
  obtain s1 where s1: "impl_step add rem has op s = Some (s1, snd (set_step op A))" "holds s1 (fst (set_step op A))"
    "card (fst (set_step op A)) \<le> Suc (card A)"
    using step_refines [OF Cons.prems(1)] Cons.prems(2,3) by auto
  then obtain s2 where "impl_run add rem has ops s1 = Some (s2, snd (set_run ops (fst (set_step op A))))"
    "holds s2 (fst (set_run ops (fst (set_step op A))))"
    using Cons.IH [OF s1(2)] Cons.prems(2,3) by auto
  with s1 show ?case by (auto simp: case_prod_beta Let_def)
qed

end

definition intset_holds :: "intset \<Rightarrow> int set \<Rightarrow> bool" where
  "intset_holds is A \<longleftrightarrow> (\<exists>xs. intset_wf is xs \<and> set xs = A)"

definition int64_ok :: "int \<Rightarrow> bool" where
  "int64_ok v \<longleftrightarrow> - (2 ^ 63) \<le> v \<and> v < 2 ^ 63"

interpretation iset: int_set_impl intset_holds int64_ok INTSET_LIMIT intsetAdd intsetRemove intsetFind
proof
  fix "is" A v assume "intset_holds is A"
  then obtain xs where xs: "intset_wf is xs" "set xs = A" by (auto simp: intset_holds_def)
  then have card: "card A = length xs"
    using distinct_card [of xs] by (auto simp: intset_wf_def strict_sorted_iff)
  show "finite A" using xs by auto
  assume v: "int64_ok v"
  show "intsetFind is v = Some (v \<in> A)"
    using intsetFind_ok [OF xs(1), of v] v xs(2) by (simp add: int64_ok_def)
  show "\<exists>is'. intsetRemove is v = Some (is', v \<in> A) \<and> intset_holds is' (A - {v})"
    using intsetRemove_set [OF xs(1), of v] v xs(2) by (auto simp: int64_ok_def intset_holds_def)
  assume "card A < INTSET_LIMIT"
  then show "\<exists>is'. intsetAdd is v = Some (is', v \<notin> A) \<and> intset_holds is' (insert v A)"
    using intsetAdd_set [OF xs(1), of v] v xs(2) card by (auto simp: int64_ok_def intset_holds_def INTSET_LIMIT_def)
qed

lemma intset_holds_new: "intset_holds intsetNew {}"
  unfolding intset_holds_def by (intro exI [of _ "[]"]) (simp add: intset_wf_def intsetNew_def)

text \<open>
  C6: any sequence of at most \<open>2 ^ 28\<close> calls of \<^verbatim>\<open>intsetAdd\<close>, \<^verbatim>\<open>intsetRemove\<close> and \<^verbatim>\<open>intsetFind\<close> with
  64-bit values, from the empty set on, never leaves its block, answers as the same calls on a
  mathematical set, and ends with exactly the elements of that set, sorted and without duplicates.
\<close>

theorem intset_refines_set:
  assumes "\<forall>op \<in> set ops. - (2 ^ 63) \<le> set_op_value op \<and> set_op_value op < 2 ^ 63" "length ops \<le> 2 ^ 28"
  shows "\<exists>is xs. impl_run intsetAdd intsetRemove intsetFind ops intsetNew = Some (is, snd (set_run ops {})) \<and>
    intset_wf is xs \<and> set xs = fst (set_run ops {})"
  using iset.run_refines [OF intset_holds_new, of ops] assms
  by (auto simp: intset_holds_def int64_ok_def INTSET_LIMIT_def)

theorem intset_refines_set_witness:
  "\<exists>is xs. impl_run intsetAdd intsetRemove intsetFind
      [SetAdd 5, SetAdd (-70000), SetFind 5, SetRemove 5, SetAdd (2 ^ 40)] intsetNew =
      Some (is, snd (set_run [SetAdd 5, SetAdd (-70000), SetFind 5, SetRemove 5, SetAdd (2 ^ 40)] {})) \<and>
    intset_wf is xs \<and> set xs = fst (set_run [SetAdd 5, SetAdd (-70000), SetFind 5, SetRemove 5, SetAdd (2 ^ 40)] {})"
  by (rule intset_refines_set) simp_all

text \<open>
  C27: the binary search agrees with a linear one: it tells whether the value is an element, and
  the position it stores is the number of elements below the value, which is where the value is or
  belongs. It reads only elements of the block and ends.
\<close>

theorem intsetSearch_correct:
  assumes "intset_wf is xs"
  shows "intsetSearch is v = Some (v \<in> set xs, length (filter (\<lambda>x. x < v) xs))"
proof -
  have "sorted_wrt (<) xs" using assms by (simp add: intset_wf_def)
  then have "filter (\<lambda>x. x < v) xs = takeWhile (\<lambda>x. x < v) xs"
  proof (induction xs)
    case (Cons x xs)
    have "filter (\<lambda>x. x < v) xs = []" if "\<not> x < v"
      using Cons.prems that by (fastforce simp: filter_empty_conv)
    with Cons show ?case by simp
  qed simp
  then show ?thesis using intsetSearch_ok [OF assms, of v] by (simp add: lower_def)
qed

definition ex_intset :: intset where
  "ex_intset = \<lparr>is_encoding = 2, is_length = 3, is_contents = map Some (blocks 2 [-7, 3, 300])\<rparr>"

lemma intset_wf_ex: "intset_wf ex_intset [-7, 3, 300]"
  by (simp add: intset_wf_def ex_intset_def INTSET_ENC_INT16_def int_range_def INTSET_LIMIT_def)

theorem intsetSearch_correct_witness:
  "intsetSearch ex_intset 5 = Some ((5 :: int) \<in> set [-7, 3, 300], length (filter (\<lambda>x. x < 5) [-7, 3, 300 :: int]))"
  by (rule intsetSearch_correct) (rule intset_wf_ex)

lemma intsetGet_ok:
  assumes "intset_wf is xs"
  shows "intsetGet is pos = Some (if pos < length xs then Some (xs ! pos) else None)"
proof -
  have "to_int32 pos = int pos" if "pos < length xs"
    using that assms by (intro to_int32_small) (simp add: intset_wf_def INTSET_LIMIT_def)
  then show ?thesis
    using assms intset_wf_get [OF assms, of pos] by (auto simp: intsetGet_def intset_wf_def)
qed

lemma intsetRandom_ok:
  assumes "intset_wf is xs" "xs \<noteq> []"
  shows "intsetRandom r is = Some (xs ! (r mod length xs))"
proof -
  have r: "r mod length xs < length xs" using assms(2) by simp
  then have "to_int32 (r mod length xs) = int (r mod length xs)"
    using assms(1) by (intro to_int32_small) (simp add: intset_wf_def INTSET_LIMIT_def)
  then show ?thesis
    using assms intset_wf_get [OF assms(1) r] by (simp add: intsetRandom_def intset_wf_def)
qed

lemma intsetBlobLen_ok:
  assumes "intset_wf is xs"
  shows "intsetBlobLen is = 8 + length (is_contents is)"
  using intset_wf_facts [OF assms] size_mod [of "length xs" "is_encoding is"]
  by (simp add: intsetBlobLen_def)

end
