(* ===== verification/Heap.thy ===== *)
theory Heap
  imports Prelude
begin

text \<open>
  The heap that linked structures share: a map from addresses to nodes and the next address the
  allocator hands out. Address 0 is the null pointer; reading, writing or freeing through a null or
  dangling pointer is undefined, the value \<^term>\<open>None\<close>. The allocator does not fail.
\<close>

record 'n heap =
  nodes :: "nat \<Rightarrow> 'n option"
  next_node :: nat

definition node_at :: "'n heap \<Rightarrow> nat \<Rightarrow> 'n option" where
  "node_at h a = nodes h a"

definition node_upd :: "'n heap \<Rightarrow> nat \<Rightarrow> ('n \<Rightarrow> 'n) \<Rightarrow> 'n heap option" where
  "node_upd h a f =
     (case nodes h a of None \<Rightarrow> None | Some n \<Rightarrow> Some (h\<lparr>nodes := (nodes h)(a \<mapsto> f n)\<rparr>))"

definition node_new :: "'n heap \<Rightarrow> 'n \<Rightarrow> 'n heap \<times> nat" where
  "node_new h n = (h\<lparr>nodes := (nodes h)(next_node h \<mapsto> n), next_node := Suc (next_node h)\<rparr>, next_node h)"

definition node_free :: "'n heap \<Rightarrow> nat \<Rightarrow> 'n heap option" where
  "node_free h a = (case nodes h a of None \<Rightarrow> None | Some n \<Rightarrow> Some (h\<lparr>nodes := (nodes h)(a := None)\<rparr>))"

text \<open>\<^verbatim>\<open>if (p != NULL) p->field = x\<close>.\<close>

definition upd_if :: "'n heap \<Rightarrow> nat \<Rightarrow> ('n \<Rightarrow> 'n) \<Rightarrow> 'n heap option" where
  "upd_if h a f = (if a \<noteq> 0 then node_upd h a f else Some h)"

definition heap_wf :: "'n heap \<Rightarrow> bool" where
  "heap_wf h \<longleftrightarrow> 0 < next_node h \<and> (\<forall>a. nodes h a \<noteq> None \<longrightarrow> 0 < a \<and> a < next_node h)"

lemma node_upd_some:
  assumes "nodes h a = Some m"
  shows "node_upd h a f = Some (h\<lparr>nodes := (nodes h)(a \<mapsto> f m)\<rparr>)"
  using assms by (simp add: node_upd_def)

lemma heap_wf_upd [simp]:
  "\<lbrakk>heap_wf h; nodes h a = Some m\<rbrakk> \<Longrightarrow> heap_wf (h\<lparr>nodes := (nodes h)(a \<mapsto> m')\<rparr>)"
  by (auto simp: heap_wf_def)

lemma heap_wf_free [simp]: "heap_wf h \<Longrightarrow> heap_wf (h\<lparr>nodes := (nodes h)(a := None)\<rparr>)"
  by (auto simp: heap_wf_def)

lemma node_new_wf:
  "heap_wf h \<Longrightarrow> heap_wf (fst (node_new h m)) \<and> snd (node_new h m) = next_node h \<and>
     next_node (fst (node_new h m)) = Suc (next_node h) \<and>
     nodes (fst (node_new h m)) = (nodes h)(next_node h \<mapsto> m)"
  by (auto simp: node_new_def heap_wf_def less_Suc_eq)

text \<open>Between \<open>h\<close> and \<open>h'\<close> only nodes at \<open>F\<close> and new nodes have changed.\<close>

definition touches :: "'n heap \<Rightarrow> nat set \<Rightarrow> 'n heap \<Rightarrow> bool" where
  "touches h F h' \<longleftrightarrow>
     next_node h \<le> next_node h' \<and> (\<forall>a < next_node h. a \<notin> F \<longrightarrow> nodes h' a = nodes h a)"

lemma touches_refl [simp]: "touches h F h"
  by (simp add: touches_def)

lemma touches_trans:
  "\<lbrakk>touches h F h'; touches h' F' h''; F' \<subseteq> F \<union> {next_node h..}\<rbrakk> \<Longrightarrow> touches h F h''"
  unfolding touches_def by (metis (no_types, lifting) UnE atLeast_iff le_trans leD order_less_le_trans subsetD)

end
