(* ===== verification/Adlist.thy ===== *)
theory Adlist
  imports Heap
begin

text \<open>
  The doubly linked lists of \<^verbatim>\<open>adlist.c\<close> and \<^verbatim>\<open>adlist.h\<close>, on a heap of nodes that several lists
  share. The calls of the \<^verbatim>\<open>free\<close> method are recorded as the list of the values it is called with.
\<close>

subsection \<open>Data types\<close>

record 'v listNode =
  n_prev :: nat
  n_next :: nat
  n_value :: 'v

record ('v, 'k) adlist =
  l_head :: nat
  l_tail :: nat
  l_dup :: "('v \<Rightarrow> 'v option) option"
  l_free :: bool
  l_match :: "('v \<Rightarrow> 'k \<Rightarrow> bool) option"
  l_len :: nat

datatype direction = AL_START_HEAD | AL_START_TAIL

record listIter =
  li_next :: nat
  li_direction :: direction

subsection \<open>The operations\<close>

definition listCreate :: "('v, 'k) adlist" where
  "listCreate = \<lparr>l_head = 0, l_tail = 0, l_dup = None, l_free = False, l_match = None, l_len = 0\<rparr>"

definition listLength :: "('v, 'k) adlist \<Rightarrow> nat" where
  "listLength l = l_len l"

definition listSetDupMethod :: "('v, 'k) adlist \<Rightarrow> ('v \<Rightarrow> 'v option) option \<Rightarrow> ('v, 'k) adlist" where
  "listSetDupMethod l m = l\<lparr>l_dup := m\<rparr>"

definition listSetFreeMethod :: "('v, 'k) adlist \<Rightarrow> bool \<Rightarrow> ('v, 'k) adlist" where
  "listSetFreeMethod l m = l\<lparr>l_free := m\<rparr>"

definition listSetMatchMethod :: "('v, 'k) adlist \<Rightarrow> ('v \<Rightarrow> 'k \<Rightarrow> bool) option \<Rightarrow> ('v, 'k) adlist" where
  "listSetMatchMethod l m = l\<lparr>l_match := m\<rparr>"

fun release_loop :: "'v listNode heap \<Rightarrow> bool \<Rightarrow> nat \<Rightarrow> nat \<Rightarrow> ('v listNode heap \<times> 'v list) option" where
  "release_loop h fr 0 current = Some (h, [])"
| "release_loop h fr (Suc len) current =
     do {
       n \<leftarrow> node_at h current;
       h \<leftarrow> node_free h current;
       (h, vs) \<leftarrow> release_loop h fr len (n_next n);
       Some (h, (if fr then [n_value n] else []) @ vs)
     }"

definition listRelease :: "'v listNode heap \<Rightarrow> ('v, 'k) adlist \<Rightarrow> ('v listNode heap \<times> 'v list) option" where
  "listRelease h l = release_loop h (l_free l) (l_len l) (l_head l)"

definition listAddNodeHead :: "'v listNode heap \<Rightarrow> ('v, 'k) adlist \<Rightarrow> 'v \<Rightarrow> ('v listNode heap \<times> ('v, 'k) adlist) option" where
  "listAddNodeHead h l v =
     (if l_len l = 0
      then (let (h, a) = node_new h \<lparr>n_prev = 0, n_next = 0, n_value = v\<rparr>
            in Some (h, l\<lparr>l_head := a, l_tail := a, l_len := l_len l + 1\<rparr>))
      else (let (h, a) = node_new h \<lparr>n_prev = 0, n_next = l_head l, n_value = v\<rparr>
            in do {
                 h \<leftarrow> node_upd h (l_head l) (\<lambda>n. n\<lparr>n_prev := a\<rparr>);
                 Some (h, l\<lparr>l_head := a, l_len := l_len l + 1\<rparr>)
               }))"

definition listAddNodeTail :: "'v listNode heap \<Rightarrow> ('v, 'k) adlist \<Rightarrow> 'v \<Rightarrow> ('v listNode heap \<times> ('v, 'k) adlist) option" where
  "listAddNodeTail h l v =
     (if l_len l = 0
      then (let (h, a) = node_new h \<lparr>n_prev = 0, n_next = 0, n_value = v\<rparr>
            in Some (h, l\<lparr>l_head := a, l_tail := a, l_len := l_len l + 1\<rparr>))
      else (let (h, a) = node_new h \<lparr>n_prev = l_tail l, n_next = 0, n_value = v\<rparr>
            in do {
                 h \<leftarrow> node_upd h (l_tail l) (\<lambda>n. n\<lparr>n_next := a\<rparr>);
                 Some (h, l\<lparr>l_tail := a, l_len := l_len l + 1\<rparr>)
               }))"

definition listInsertNode :: "'v listNode heap \<Rightarrow> ('v, 'k) adlist \<Rightarrow> nat \<Rightarrow> 'v \<Rightarrow> bool \<Rightarrow>
    ('v listNode heap \<times> ('v, 'k) adlist) option" where
  "listInsertNode h l old v after =
     do {
       on \<leftarrow> node_at h old;
       (prev, nxt) \<leftarrow> Some (if after then (old, n_next on) else (n_prev on, old));
       (h, a) \<leftarrow> Some (node_new h \<lparr>n_prev = prev, n_next = nxt, n_value = v\<rparr>);
       l \<leftarrow> Some (if after then (if l_tail l = old then l\<lparr>l_tail := a\<rparr> else l)
                   else (if l_head l = old then l\<lparr>l_head := a\<rparr> else l));
       h \<leftarrow> upd_if h prev (\<lambda>n. n\<lparr>n_next := a\<rparr>);
       h \<leftarrow> upd_if h nxt (\<lambda>n. n\<lparr>n_prev := a\<rparr>);
       Some (h, l\<lparr>l_len := l_len l + 1\<rparr>)
     }"

definition listDelNode :: "'v listNode heap \<Rightarrow> ('v, 'k) adlist \<Rightarrow> nat \<Rightarrow>
    ('v listNode heap \<times> ('v, 'k) adlist \<times> 'v list) option" where
  "listDelNode h l a =
     do {
       n \<leftarrow> node_at h a;
       (h, l) \<leftarrow> (if n_prev n \<noteq> 0
                  then do { h \<leftarrow> node_upd h (n_prev n) (\<lambda>m. m\<lparr>n_next := n_next n\<rparr>); Some (h, l) }
                  else Some (h, l\<lparr>l_head := n_next n\<rparr>));
       (h, l) \<leftarrow> (if n_next n \<noteq> 0
                  then do { h \<leftarrow> node_upd h (n_next n) (\<lambda>m. m\<lparr>n_prev := n_prev n\<rparr>); Some (h, l) }
                  else Some (h, l\<lparr>l_tail := n_prev n\<rparr>));
       h \<leftarrow> node_free h a;
       Some (h, l\<lparr>l_len := l_len l - 1\<rparr>, if l_free l then [n_value n] else [])
     }"

definition listGetIterator :: "('v, 'k) adlist \<Rightarrow> direction \<Rightarrow> listIter" where
  "listGetIterator l dir =
     \<lparr>li_next = (if dir = AL_START_HEAD then l_head l else l_tail l), li_direction = dir\<rparr>"

definition listRewind :: "('v, 'k) adlist \<Rightarrow> listIter \<Rightarrow> listIter" where
  "listRewind l li = li\<lparr>li_next := l_head l, li_direction := AL_START_HEAD\<rparr>"

definition listRewindTail :: "('v, 'k) adlist \<Rightarrow> listIter \<Rightarrow> listIter" where
  "listRewindTail l li = li\<lparr>li_next := l_tail l, li_direction := AL_START_TAIL\<rparr>"

definition listNext :: "'v listNode heap \<Rightarrow> listIter \<Rightarrow> (listIter \<times> nat) option" where
  "listNext h it =
     (if li_next it \<noteq> 0
      then do {
        n \<leftarrow> node_at h (li_next it);
        Some (it\<lparr>li_next := (if li_direction it = AL_START_HEAD then n_next n else n_prev n)\<rparr>, li_next it)
      }
      else Some (it, 0))"

text \<open>
  The loop \<^verbatim>\<open>while((node = listNext(iter)) != NULL)\<close> of \<^verbatim>\<open>listDup\<close>; the fuel bounds the number of
  nodes. \<open>Inl\<close> is the copy, \<open>Inr\<close> the values freed when a duplication fails.
\<close>

fun dup_loop :: "nat \<Rightarrow> 'v listNode heap \<Rightarrow> listIter \<Rightarrow> ('v, 'k) adlist \<Rightarrow>
    ('v listNode heap \<times> (('v, 'k) adlist + 'v list)) option" where
  "dup_loop 0 h it copy = None"
| "dup_loop (Suc fuel) h it copy =
     do {
       (it, node) \<leftarrow> listNext h it;
       if node = 0 then Some (h, Inl copy)
       else do {
         n \<leftarrow> node_at h node;
         case (case l_dup copy of None \<Rightarrow> Some (n_value n) | Some f \<Rightarrow> f (n_value n)) of
           None \<Rightarrow> do { (h, vs) \<leftarrow> listRelease h copy; Some (h, Inr vs) }
         | Some v \<Rightarrow> do { (h, copy) \<leftarrow> listAddNodeTail h copy v; dup_loop fuel h it copy }
       }
     }"

definition listDup :: "'v listNode heap \<Rightarrow> ('v, 'k) adlist \<Rightarrow> ('v listNode heap \<times> (('v, 'k) adlist + 'v list)) option" where
  "listDup h orig =
     dup_loop (Suc (l_len orig)) h (listGetIterator orig AL_START_HEAD)
       (listCreate\<lparr>l_dup := l_dup orig, l_free := l_free orig, l_match := l_match orig\<rparr>)"

text \<open>The comparison of pointers when there is no match method is a parameter.\<close>

fun search_nodes :: "nat \<Rightarrow> 'v listNode heap \<Rightarrow> listIter \<Rightarrow> ('v \<Rightarrow> bool) \<Rightarrow> nat option" where
  "search_nodes 0 h it P = None"
| "search_nodes (Suc fuel) h it P =
     do {
       (it, node) \<leftarrow> listNext h it;
       if node = 0 then Some 0
       else do {
         n \<leftarrow> node_at h node;
         if P (n_value n) then Some node else search_nodes fuel h it P
       }
     }"

definition listSearchKey :: "('v \<Rightarrow> 'k \<Rightarrow> bool) \<Rightarrow> 'v listNode heap \<Rightarrow> ('v, 'k) adlist \<Rightarrow> 'k \<Rightarrow> nat option" where
  "listSearchKey eq h l key =
     search_nodes (Suc (l_len l)) h (listGetIterator l AL_START_HEAD)
       (\<lambda>v. case l_match l of Some m \<Rightarrow> m v key | None \<Rightarrow> eq v key)"

text \<open>The loops \<^verbatim>\<open>while(index-- && n)\<close>.\<close>

fun index_loop :: "'v listNode heap \<Rightarrow> ('v listNode \<Rightarrow> nat) \<Rightarrow> nat \<Rightarrow> nat \<Rightarrow> nat option" where
  "index_loop h step 0 n = Some n"
| "index_loop h step (Suc index) n =
     (if n = 0 then Some 0 else do { x \<leftarrow> node_at h n; index_loop h step index (step x) })"

text \<open>The index is a \<^verbatim>\<open>long\<close>; the negation of the smallest one overflows.\<close>

definition listIndex :: "'v listNode heap \<Rightarrow> ('v, 'k) adlist \<Rightarrow> int \<Rightarrow> nat option" where
  "listIndex h l index =
     (if index < 0
      then if index = - (2 ^ 63) then None else index_loop h n_prev (nat (- index - 1)) (l_tail l)
      else index_loop h n_next (nat index) (l_head l))"

definition listRotate :: "'v listNode heap \<Rightarrow> ('v, 'k) adlist \<Rightarrow> ('v listNode heap \<times> ('v, 'k) adlist) option" where
  "listRotate h l =
     (if listLength l \<le> 1 then Some (h, l)
      else do {
        tail \<leftarrow> Some (l_tail l);
        t \<leftarrow> node_at h tail;
        l \<leftarrow> Some (l\<lparr>l_tail := n_prev t\<rparr>);
        h \<leftarrow> node_upd h (l_tail l) (\<lambda>n. n\<lparr>n_next := 0\<rparr>);
        h \<leftarrow> node_upd h (l_head l) (\<lambda>n. n\<lparr>n_prev := tail\<rparr>);
        h \<leftarrow> node_upd h tail (\<lambda>n. n\<lparr>n_prev := 0, n_next := l_head l\<rparr>);
        Some (h, l\<lparr>l_head := tail\<rparr>)
      })"

end
