(* ===== verification/AdlistProps.thy ===== *)
theory AdlistProps
  imports Adlist
begin

text \<open>
  The correctness of \<^verbatim>\<open>adlist.c\<close>: the representation of a list of values by a doubly linked chain of
  nodes, the operations as operations on HOL lists, the iterator, and what duplication and release
  do to the heap.
\<close>

subsection \<open>Doubly linked chains\<close>

fun first_node :: "(nat \<times> 'v) list \<Rightarrow> nat \<Rightarrow> nat" where
  "first_node [] n = n"
| "first_node (x # ns) n = fst x"

fun last_node :: "nat \<Rightarrow> (nat \<times> 'v) list \<Rightarrow> nat" where
  "last_node p [] = p"
| "last_node p (x # ns) = last_node (fst x) ns"

text \<open>The chain \<open>ns\<close> of addresses and values, between the predecessor \<open>p\<close> and the successor \<open>n\<close>.\<close>

fun dll :: "'v listNode heap \<Rightarrow> nat \<Rightarrow> (nat \<times> 'v) list \<Rightarrow> nat \<Rightarrow> bool" where
  "dll h p [] n = True"
| "dll h p (x # ns) n =
     (nodes h (fst x) = Some \<lparr>n_prev = p, n_next = first_node ns n, n_value = snd x\<rparr> \<and> dll h (fst x) ns n)"

definition list_wf :: "'v listNode heap \<Rightarrow> ('v, 'k) adlist \<Rightarrow> (nat \<times> 'v) list \<Rightarrow> bool" where
  "list_wf h l ns \<longleftrightarrow>
     heap_wf h \<and> dll h 0 ns 0 \<and> distinct (map fst ns) \<and>
     l_head l = first_node ns 0 \<and> l_tail l = last_node 0 ns \<and> l_len l = length ns"

lemma dll_append [simp]:
  "dll h p (xs @ ys) n \<longleftrightarrow> dll h p xs (first_node ys n) \<and> dll h (last_node p xs) ys n"
proof (induction xs arbitrary: p)
  case (Cons x xs)
  have "first_node (xs @ ys) n = first_node xs (first_node ys n)"
    by (cases xs) simp_all
  then show ?case
    using Cons.IH by auto
qed simp

lemma first_node_append [simp]: "first_node (xs @ ys) n = first_node xs (first_node ys n)"
  by (cases xs) simp_all

lemma last_node_append [simp]: "last_node p (xs @ ys) = last_node (last_node p xs) ys"
  by (induction xs arbitrary: p) simp_all

lemma last_node_in: "xs \<noteq> [] \<Longrightarrow> last_node p xs \<in> fst ` set xs"
  by (induction xs arbitrary: p) (auto, metis last_node.simps(1))

lemma dll_frame:
  "\<lbrakk>dll h p ns n; \<And>a. a \<in> fst ` set ns \<Longrightarrow> nodes h' a = nodes h a\<rbrakk> \<Longrightarrow> dll h' p ns n"
  by (induction ns arbitrary: p) auto

lemma dll_upd_other [simp]:
  "a \<notin> fst ` set ns \<Longrightarrow> dll (h\<lparr>nodes := (nodes h)(a := x)\<rparr>) p ns n \<longleftrightarrow> dll h p ns n"
  by (induction ns arbitrary: p) auto

lemma dll_point:
  "nodes h' = (nodes h)(a := x) \<Longrightarrow> a \<notin> fst ` set ns \<Longrightarrow> dll h' p ns n \<longleftrightarrow> dll h p ns n"
  by (induction ns arbitrary: p) auto

lemma dll_next_node [simp]: "dll (h\<lparr>next_node := k\<rparr>) p ns n \<longleftrightarrow> dll h p ns n"
  by (induction ns arbitrary: p) auto

lemma dll_defined: "\<lbrakk>dll h p ns n; a \<in> fst ` set ns\<rbrakk> \<Longrightarrow> nodes h a \<noteq> None"
  by (induction ns arbitrary: p) auto

lemma dll_nonzero: "\<lbrakk>heap_wf h; dll h p ns n; a \<in> fst ` set ns\<rbrakk> \<Longrightarrow> 0 < a \<and> a < next_node h"
  using dll_defined [of h p ns n a] by (auto simp: heap_wf_def)

lemma first_node_zero: "\<lbrakk>heap_wf h; dll h p ns n\<rbrakk> \<Longrightarrow> first_node ns 0 = 0 \<longleftrightarrow> ns = []"
  using dll_nonzero [of h p ns n "fst (hd ns)"] by (cases ns) auto

lemma last_node_zero: "\<lbrakk>heap_wf h; dll h p ns n\<rbrakk> \<Longrightarrow> last_node 0 ns = 0 \<longleftrightarrow> ns = []"
  using dll_nonzero [of h p ns n "last_node 0 ns"] last_node_in [of ns 0] by (cases "ns = []") auto

subsection \<open>Pointer updates\<close>

lemma set_next:
  assumes wf: "heap_wf h" and d: "dll h 0 xs n" and dist: "distinct (map fst xs)"
  obtains h' where "upd_if h (last_node 0 xs) (\<lambda>m. m\<lparr>n_next := n'\<rparr>) = Some h'"
    and "heap_wf h'" and "next_node h' = next_node h" and "dll h' 0 xs n'"
    and "\<And>a. a \<notin> fst ` set xs \<Longrightarrow> nodes h' a = nodes h a"
    and "xs \<noteq> [] \<Longrightarrow> node_upd h (last_node 0 xs) (\<lambda>m. m\<lparr>n_next := n'\<rparr>) = Some h'"
proof (cases xs rule: rev_cases)
  case Nil
  then show ?thesis
    using wf d by (intro that [of h]) (auto simp: upd_if_def)
next
  case (snoc ys y)
  define m where "m = \<lparr>n_prev = last_node 0 ys, n_next = n, n_value = snd y\<rparr>"
  have m: "nodes h (fst y) = Some m"
    using d by (simp add: snoc m_def)
  have pos: "0 < fst y"
    using dll_nonzero [OF wf d, of "fst y"] by (simp add: snoc)
  let ?h = "h\<lparr>nodes := (nodes h)(fst y \<mapsto> m\<lparr>n_next := n'\<rparr>)\<rparr>"
  have upd: "node_upd h (last_node 0 xs) (\<lambda>m. m\<lparr>n_next := n'\<rparr>) = Some ?h"
    using m by (simp add: snoc node_upd_some)
  have "dll ?h 0 ys (fst y)"
    using d dist by (simp add: snoc)
  then have "dll ?h 0 xs n'"
    by (simp add: snoc m_def)
  moreover have "upd_if h (last_node 0 xs) (\<lambda>m. m\<lparr>n_next := n'\<rparr>) = Some ?h"
    using upd pos by (simp add: upd_if_def snoc)
  ultimately show ?thesis
    using upd wf m by (intro that [of ?h]) (auto simp: snoc)
qed

lemma set_prev:
  assumes wf: "heap_wf h" and d: "dll h p ys 0" and dist: "distinct (map fst ys)"
  obtains h' where "upd_if h (first_node ys 0) (\<lambda>m. m\<lparr>n_prev := p'\<rparr>) = Some h'"
    and "heap_wf h'" and "next_node h' = next_node h" and "dll h' p' ys 0"
    and "\<And>a. a \<notin> fst ` set ys \<Longrightarrow> nodes h' a = nodes h a"
    and "ys \<noteq> [] \<Longrightarrow> node_upd h (first_node ys 0) (\<lambda>m. m\<lparr>n_prev := p'\<rparr>) = Some h'"
proof (cases ys)
  case Nil
  then show ?thesis
    using wf d by (intro that [of h]) (auto simp: upd_if_def)
next
  case (Cons y zs)
  define m where "m = \<lparr>n_prev = p, n_next = first_node zs 0, n_value = snd y\<rparr>"
  have m: "nodes h (fst y) = Some m"
    using d by (simp add: Cons m_def)
  have pos: "0 < fst y"
    using dll_nonzero [OF wf d, of "fst y"] by (simp add: Cons)
  let ?h = "h\<lparr>nodes := (nodes h)(fst y \<mapsto> m\<lparr>n_prev := p'\<rparr>)\<rparr>"
  have upd: "node_upd h (first_node ys 0) (\<lambda>m. m\<lparr>n_prev := p'\<rparr>) = Some ?h"
    using m by (simp add: Cons node_upd_some)
  have "dll ?h (fst y) zs 0"
    using d dist by (simp add: Cons)
  then have "dll ?h p' ys 0"
    by (simp add: Cons m_def)
  moreover have "upd_if h (first_node ys 0) (\<lambda>m. m\<lparr>n_prev := p'\<rparr>) = Some ?h"
    using upd pos by (simp add: upd_if_def Cons)
  ultimately show ?thesis
    using upd wf m by (intro that [of ?h]) (auto simp: Cons)
qed

subsection \<open>What an operation may touch\<close>

abbreviation addrs :: "(nat \<times> 'v) list \<Rightarrow> nat set" where
  "addrs ns \<equiv> fst ` set ns"

definition methods :: "('v, 'k) adlist \<Rightarrow> ('v \<Rightarrow> 'v option) option \<times> bool \<times> ('v \<Rightarrow> 'k \<Rightarrow> bool) option" where
  "methods l = (l_dup l, l_free l, l_match l)"

text \<open>The step from the list \<open>ns\<close> in \<open>(h, l)\<close> to the list \<open>ns'\<close> in \<open>(h', l')\<close>.\<close>

definition evolves :: "'v listNode heap \<Rightarrow> ('v, 'k) adlist \<Rightarrow> (nat \<times> 'v) list \<Rightarrow>
    'v listNode heap \<Rightarrow> ('v, 'k) adlist \<Rightarrow> (nat \<times> 'v) list \<Rightarrow> bool" where
  "evolves h l ns h' l' ns' \<longleftrightarrow>
     list_wf h' l' ns' \<and> touches h (addrs ns) h' \<and> methods l' = methods l \<and>
     addrs ns' \<subseteq> addrs ns \<union> {next_node h..}"

lemma evolves_refl: "list_wf h l ns \<Longrightarrow> evolves h l ns h l ns"
  by (simp add: evolves_def)

lemma evolves_trans:
  assumes 1: "evolves h l ns h' l' ns'" and 2: "evolves h' l' ns' h'' l'' ns''"
  shows "evolves h l ns h'' l'' ns''"
proof -
  have "touches h (addrs ns) h''"
    using 1 2 by (auto simp: evolves_def intro: touches_trans)
  moreover have "next_node h \<le> next_node h'"
    using 1 by (simp add: evolves_def touches_def)
  moreover have "addrs ns'' \<subseteq> addrs ns' \<union> {next_node h'..}" "addrs ns' \<subseteq> addrs ns \<union> {next_node h..}"
    using 1 2 by (simp_all add: evolves_def)
  ultimately have "addrs ns'' \<subseteq> addrs ns \<union> {next_node h..}" "touches h (addrs ns) h''"
    by (meson Un_least Un_upper2 atLeast_subset_iff order_trans, blast)
  then show ?thesis
    using 1 2 by (simp add: evolves_def)
qed

lemma fresh_addr: "\<lbrakk>heap_wf h; dll h p ns n\<rbrakk> \<Longrightarrow> next_node h \<notin> addrs ns"
  using dll_nonzero [of h p ns n] by blast

lemma evolvesI:
  assumes "heap_wf h'" and "dll h' 0 ns' 0" and "distinct (map fst ns')"
    and "l_head l' = first_node ns' 0" and "l_tail l' = last_node 0 ns'" and "l_len l' = length ns'"
    and "methods l' = methods l" and "next_node h \<le> next_node h'"
    and "\<And>a. a \<notin> addrs ns \<Longrightarrow> a < next_node h \<Longrightarrow> nodes h' a = nodes h a"
    and "addrs ns' \<subseteq> addrs ns \<union> {next_node h..}"
  shows "evolves h l ns h' l' ns'"
  using assms by (auto simp: evolves_def list_wf_def touches_def)

subsection \<open>Insertion\<close>

text \<open>A new node linked between two parts of a chain, in the order of \<^verbatim>\<open>listInsertNode\<close>.\<close>

lemma splice:
  assumes wf: "heap_wf h" and d: "dll h 0 (xs @ ys) 0" and dist: "distinct (map fst (xs @ ys))"
    and new: "node_new h \<lparr>n_prev = last_node 0 xs, n_next = first_node ys 0, n_value = v\<rparr> = (h1, a)"
  obtains h2 h3 where "upd_if h1 (last_node 0 xs) (\<lambda>m. m\<lparr>n_next := a\<rparr>) = Some h2"
    and "upd_if h2 (first_node ys 0) (\<lambda>m. m\<lparr>n_prev := a\<rparr>) = Some h3"
    and "\<And>l l' :: ('v, 'k) adlist. \<lbrakk>l_head l' = first_node (xs @ [(a, v)]) 0; l_tail l' = last_node a ys;
           l_len l' = Suc (length (xs @ ys)); methods l' = methods l\<rbrakk> \<Longrightarrow>
           evolves h l (xs @ ys) h3 l' (xs @ (a, v) # ys)"
    and "xs \<noteq> [] \<Longrightarrow> node_upd h1 (last_node 0 xs) (\<lambda>m. m\<lparr>n_next := a\<rparr>) = Some h2"
    and "ys \<noteq> [] \<Longrightarrow> node_upd h2 (first_node ys 0) (\<lambda>m. m\<lparr>n_prev := a\<rparr>) = Some h3"
proof -
  have a: "a = next_node h" and wf1: "heap_wf h1" and n1: "next_node h1 = Suc (next_node h)"
    and h1: "nodes h1 = (nodes h)(a \<mapsto> \<lparr>n_prev = last_node 0 xs, n_next = first_node ys 0, n_value = v\<rparr>)"
    using node_new_wf [OF wf, of "\<lparr>n_prev = last_node 0 xs, n_next = first_node ys 0, n_value = v\<rparr>"] new
    by auto
  have fr: "a \<notin> addrs xs" "a \<notin> addrs ys"
    using fresh_addr [OF wf d] a by (simp_all add: image_Un)
  have dx: "dll h1 0 xs (first_node ys 0)" and dy: "dll h1 (last_node 0 xs) ys 0"
    using d fr by (simp_all add: dll_point [OF h1])
  have dist_x: "distinct (map fst xs)" and dist_y: "distinct (map fst ys)"
    and disj: "addrs xs \<inter> addrs ys = {}"
    using dist by simp_all
  obtain h2 where h2: "upd_if h1 (last_node 0 xs) (\<lambda>m. m\<lparr>n_next := a\<rparr>) = Some h2"
    "heap_wf h2" "next_node h2 = next_node h1" "dll h2 0 xs a"
    "\<And>b. b \<notin> addrs xs \<Longrightarrow> nodes h2 b = nodes h1 b"
    "xs \<noteq> [] \<Longrightarrow> node_upd h1 (last_node 0 xs) (\<lambda>m. m\<lparr>n_next := a\<rparr>) = Some h2"
    by (rule set_next [OF wf1 dx dist_x]) blast
  have dy2: "dll h2 (last_node 0 xs) ys 0"
    by (rule dll_frame [OF dy h2(5)]) (use disj in blast)
  obtain h3 where h3: "upd_if h2 (first_node ys 0) (\<lambda>m. m\<lparr>n_prev := a\<rparr>) = Some h3"
    "heap_wf h3" "next_node h3 = next_node h2" "dll h3 a ys 0"
    "\<And>b. b \<notin> addrs ys \<Longrightarrow> nodes h3 b = nodes h2 b"
    "ys \<noteq> [] \<Longrightarrow> node_upd h2 (first_node ys 0) (\<lambda>m. m\<lparr>n_prev := a\<rparr>) = Some h3"
    by (rule set_prev [OF h2(2) dy2 dist_y]) blast
  have dx3: "dll h3 0 xs a"
    by (rule dll_frame [OF h2(4) h3(5)]) (use disj in blast)
  have chain: "dll h3 0 (xs @ (a, v) # ys) 0"
    using dx3 h3(4) h3(5) [OF fr(2)] h2(5) [OF fr(1)] h1 by simp
  have dist3: "distinct (map fst (xs @ (a, v) # ys))"
    using dist fr by auto
  show ?thesis
  proof (rule that [OF h2(1) h3(1) _ h2(6) h3(6)])
    fix l l' :: "('v, 'k) adlist"
    assume "l_head l' = first_node (xs @ [(a, v)]) 0" "l_tail l' = last_node a ys"
      "l_len l' = Suc (length (xs @ ys))" "methods l' = methods l"
    then show "evolves h l (xs @ ys) h3 l' (xs @ (a, v) # ys)"
      using h2(3,5) h3(2,3,5) n1 h1 chain dist3 a by (intro evolvesI) (auto simp: image_Un)
  qed
qed

lemma methods_upd [simp]:
  "methods (l\<lparr>l_head := a\<rparr>) = methods l" "methods (l\<lparr>l_tail := a\<rparr>) = methods l"
  "methods (l\<lparr>l_len := k\<rparr>) = methods l"
  by (simp_all add: methods_def)

text \<open>A new list is empty, and setting its methods keeps its contents.\<close>

lemma listCreate_wf: "heap_wf h \<Longrightarrow> list_wf h listCreate []"
  by (simp add: list_wf_def listCreate_def)

lemma listSet_methods_wf:
  "list_wf h (listSetDupMethod l d) ns = list_wf h l ns"
  "list_wf h (listSetFreeMethod l f) ns = list_wf h l ns"
  "list_wf h (listSetMatchMethod l m) ns = list_wf h l ns"
  by (simp_all add: list_wf_def listSetDupMethod_def listSetFreeMethod_def listSetMatchMethod_def)

lemma listAddNodeHead_ok:
  assumes wf: "list_wf h (l :: ('v, 'k) adlist) ns"
  shows "\<exists>h' l'. listAddNodeHead h l v = Some (h', l') \<and> evolves h l ns h' l' ((next_node h, v) # ns)"
proof -
  have w: "heap_wf h" "dll h 0 ([] @ ns) 0" "distinct (map fst ([] @ ns))"
    using wf by (simp_all add: list_wf_def)
  obtain h1 where new: "node_new h \<lparr>n_prev = last_node 0 ([] :: (nat \<times> 'v) list), n_next = first_node ns 0, n_value = v\<rparr>
      = (h1, next_node h)"
    by (simp add: node_new_def)
  show ?thesis
  proof (rule splice [where ?'k = 'k, OF w new])
    fix h2 h3
    assume 1: "upd_if h1 (last_node 0 ([] :: (nat \<times> 'v) list)) (\<lambda>m. m\<lparr>n_next := next_node h\<rparr>) = Some h2"
      and 2: "upd_if h2 (first_node ns 0) (\<lambda>m. m\<lparr>n_prev := next_node h\<rparr>) = Some h3"
      and 3: "\<And>l l' :: ('v, 'k) adlist. \<lbrakk>l_head l' = first_node ([] @ [(next_node h, v)]) 0;
        l_tail l' = last_node (next_node h) ns; l_len l' = Suc (length ([] @ ns)); methods l' = methods l\<rbrakk> \<Longrightarrow>
        evolves h l ([] @ ns) h3 l' ([] @ (next_node h, v) # ns)"
      and 4: "ns \<noteq> [] \<Longrightarrow> node_upd h2 (first_node ns 0) (\<lambda>m. m\<lparr>n_prev := next_node h\<rparr>) = Some h3"
    have h2: "h2 = h1"
      using 1 by (simp add: upd_if_def)
    show ?thesis
    proof (cases ns)
      case Nil
      then have "h3 = h1"
        using 2 h2 by (simp add: upd_if_def)
      with Nil wf new 3 show ?thesis
        by (simp add: listAddNodeHead_def list_wf_def)
    next
      case (Cons x xs)
      with wf new 3 4 h2 show ?thesis
        by (cases xs rule: rev_cases) (simp_all add: listAddNodeHead_def list_wf_def)
    qed
  qed
qed

lemma listAddNodeTail_ok:
  assumes wf: "list_wf h (l :: ('v, 'k) adlist) ns"
  shows "\<exists>h' l'. listAddNodeTail h l v = Some (h', l') \<and> evolves h l ns h' l' (ns @ [(next_node h, v)])"
proof -
  have w: "heap_wf h" "dll h 0 (ns @ []) 0" "distinct (map fst (ns @ []))"
    using wf by (simp_all add: list_wf_def)
  obtain h1 where new: "node_new h \<lparr>n_prev = last_node 0 ns, n_next = first_node ([] :: (nat \<times> 'v) list) 0, n_value = v\<rparr>
      = (h1, next_node h)"
    by (simp add: node_new_def)
  show ?thesis
  proof (rule splice [where ?'k = 'k, OF w new])
    fix h2 h3
    assume 1: "upd_if h1 (last_node 0 ns) (\<lambda>m. m\<lparr>n_next := next_node h\<rparr>) = Some h2"
      and 2: "upd_if h2 (first_node ([] :: (nat \<times> 'v) list) 0) (\<lambda>m. m\<lparr>n_prev := next_node h\<rparr>) = Some h3"
      and 3: "\<And>l l' :: ('v, 'k) adlist. \<lbrakk>l_head l' = first_node (ns @ [(next_node h, v)]) 0;
        l_tail l' = last_node (next_node h) ([] :: (nat \<times> 'v) list); l_len l' = Suc (length (ns @ []));
        methods l' = methods l\<rbrakk> \<Longrightarrow> evolves h l (ns @ []) h3 l' (ns @ (next_node h, v) # [])"
      and 4: "ns \<noteq> [] \<Longrightarrow> node_upd h1 (last_node 0 ns) (\<lambda>m. m\<lparr>n_next := next_node h\<rparr>) = Some h2"
    have h3: "h3 = h2"
      using 2 by (simp add: upd_if_def)
    show ?thesis
    proof (cases ns)
      case Nil
      then have "h2 = h1"
        using 1 by (simp add: upd_if_def)
      with Nil wf new 3 h3 show ?thesis
        by (simp add: listAddNodeTail_def list_wf_def)
    next
      case (Cons x xs)
      with wf new 3 4 h3 show ?thesis
        by (simp add: listAddNodeTail_def list_wf_def)
    qed
  qed
qed

text \<open>A node of the list, seen as the split of the chain around it.\<close>

lemma list_wf_node:
  assumes "list_wf h l (xs @ (a, v) # ys)"
  shows "node_at h a = Some \<lparr>n_prev = last_node 0 xs, n_next = first_node ys 0, n_value = v\<rparr>"
    and "0 < a" and "a \<notin> addrs xs" and "a \<notin> addrs ys"
  using assms dll_nonzero [of h 0 "xs @ (a, v) # ys" 0 a]
  by (auto simp: list_wf_def node_at_def)

lemma listInsertNode_ok:
  assumes wf: "list_wf h (l :: ('v, 'k) adlist) (xs @ (a, u) # ys)"
  shows "\<exists>h' l'. listInsertNode h l a v after = Some (h', l') \<and>
           evolves h l (xs @ (a, u) # ys) h' l'
             (if after then xs @ (a, u) # (next_node h, v) # ys else xs @ (next_node h, v) # (a, u) # ys)"
proof -
  define ps where "ps = (if after then xs @ [(a, u)] else xs)"
  define qs where "qs = (if after then ys else (a, u) # ys)"
  have split: "xs @ (a, u) # ys = ps @ qs"
    by (simp add: ps_def qs_def)
  have w: "heap_wf h" "dll h 0 (ps @ qs) 0" "distinct (map fst (ps @ qs))"
    using wf unfolding split by (simp_all only: list_wf_def)
  note nd = list_wf_node [OF wf]
  obtain h1 where new: "node_new h \<lparr>n_prev = last_node 0 ps, n_next = first_node qs 0, n_value = v\<rparr>
      = (h1, next_node h)"
    by (simp add: node_new_def)
  have tail: "l_tail l = last_node a ys" "l_tail l = a \<longleftrightarrow> ys = []"
    using wf nd(4) last_node_in [of ys a] by (auto simp: list_wf_def)
  have head: "l_head l = first_node xs a" "l_head l = a \<longleftrightarrow> xs = []"
    using wf nd(3) by (cases xs; auto simp: list_wf_def)+
  have len: "l_len l = length (ps @ qs)"
    using wf unfolding split by (simp add: list_wf_def)
  show ?thesis
  proof (rule splice [where ?'k = 'k, OF w new])
    fix h2 h3
    assume 1: "upd_if h1 (last_node 0 ps) (\<lambda>m. m\<lparr>n_next := next_node h\<rparr>) = Some h2"
      and 2: "upd_if h2 (first_node qs 0) (\<lambda>m. m\<lparr>n_prev := next_node h\<rparr>) = Some h3"
      and 3: "\<And>l l' :: ('v, 'k) adlist. \<lbrakk>l_head l' = first_node (ps @ [(next_node h, v)]) 0;
        l_tail l' = last_node (next_node h) qs; l_len l' = Suc (length (ps @ qs)); methods l' = methods l\<rbrakk> \<Longrightarrow>
        evolves h l (ps @ qs) h3 l' (ps @ (next_node h, v) # qs)"
    show ?thesis
    proof (cases after)
      case True
      then show ?thesis
        using 1 2 3 [of _ l] nd(1) new tail head len unfolding split
        by (cases ys) (simp_all add: listInsertNode_def ps_def qs_def)
    next
      case False
      then show ?thesis
        using 1 2 3 [of _ l] nd(1) new tail head len unfolding split
        by (cases xs) (simp_all add: listInsertNode_def ps_def qs_def)
    qed
  qed
qed

subsection \<open>Deletion and rotation\<close>

lemma listDelNode_ok:
  assumes wf: "list_wf h (l :: ('v, 'k) adlist) (xs @ (a, v) # ys)"
  shows "\<exists>h' l'. listDelNode h l a = Some (h', l', if l_free l then [v] else []) \<and>
           evolves h l (xs @ (a, v) # ys) h' l' (xs @ ys) \<and> nodes h' a = None"
proof -
  note nd = list_wf_node [OF wf]
  have w: "heap_wf h" "dll h 0 xs a" "dll h a ys 0"
    and dist_x: "distinct (map fst xs)" and dist_y: "distinct (map fst ys)"
    and disj: "addrs xs \<inter> addrs ys = {}"
    using wf by (auto simp: list_wf_def)
  obtain h2 where h2: "upd_if h (last_node 0 xs) (\<lambda>m. m\<lparr>n_next := first_node ys 0\<rparr>) = Some h2"
    "heap_wf h2" "next_node h2 = next_node h" "dll h2 0 xs (first_node ys 0)"
    "\<And>b. b \<notin> addrs xs \<Longrightarrow> nodes h2 b = nodes h b"
    "xs \<noteq> [] \<Longrightarrow> node_upd h (last_node 0 xs) (\<lambda>m. m\<lparr>n_next := first_node ys 0\<rparr>) = Some h2"
    by (rule set_next [OF w(1,2) dist_x]) blast
  have dy: "dll h2 a ys 0"
    by (rule dll_frame [OF w(3) h2(5)]) (use disj in blast)
  obtain h3 where h3: "upd_if h2 (first_node ys 0) (\<lambda>m. m\<lparr>n_prev := last_node 0 xs\<rparr>) = Some h3"
    "heap_wf h3" "next_node h3 = next_node h2" "dll h3 (last_node 0 xs) ys 0"
    "\<And>b. b \<notin> addrs ys \<Longrightarrow> nodes h3 b = nodes h2 b"
    "ys \<noteq> [] \<Longrightarrow> node_upd h2 (first_node ys 0) (\<lambda>m. m\<lparr>n_prev := last_node 0 xs\<rparr>) = Some h3"
    by (rule set_prev [OF h2(2) dy dist_y]) blast
  have dx: "dll h3 0 xs (first_node ys 0)"
    by (rule dll_frame [OF h2(4) h3(5)]) (use disj in blast)
  define h4 where "h4 = h3\<lparr>nodes := (nodes h3)(a := None)\<rparr>"
  have free: "node_free h3 a = Some h4"
    using h3(5) [OF nd(4)] h2(5) [OF nd(3)] nd(1) by (simp add: node_free_def h4_def node_at_def)
  define l' where "l' = l\<lparr>l_head := first_node (xs @ ys) 0, l_tail := last_node 0 (xs @ ys), l_len := length (xs @ ys)\<rparr>"
  have x0: "last_node 0 xs = 0 \<longleftrightarrow> xs = []"
    using last_node_zero [OF w(1,2)] .
  have y0: "first_node ys 0 = 0 \<longleftrightarrow> ys = []"
    using first_node_zero [OF w(1,3)] .
  have tl: "last_node p ys = last_node p' ys" if "ys \<noteq> []" for p p'
    using that by (cases ys) simp_all
  have hd: "first_node xs n = first_node xs n'" if "xs \<noteq> []" for n n'
    using that by (cases xs) simp_all
  have flds: "l_head l = first_node xs a" "l_tail l = last_node a ys" "l_len l = Suc (length (xs @ ys))"
    using wf by (simp_all add: list_wf_def)
  have "listDelNode h l a = Some (h4, l', if l_free l then [v] else [])"
    using h2(1,6) h3(1,6) free nd(1) x0 y0 flds tl [of "last_node 0 xs" a] hd [of a "first_node ys 0"]
    by (cases "xs = []"; cases "ys = []") (simp_all add: listDelNode_def l'_def upd_if_def)
  moreover have "evolves h l (xs @ (a, v) # ys) h4 l' (xs @ ys)"
    using h2(2,3,5) h3(2,3,4,5) dx dist_x dist_y disj nd(3,4)
    by (intro evolvesI) (auto simp: h4_def l'_def image_Un)
  moreover have "nodes h4 a = None"
    by (simp add: h4_def)
  ultimately show ?thesis
    by blast
qed

lemma listRotate_ok:
  assumes wf: "list_wf h (l :: ('v, 'k) adlist) ns"
  shows "\<exists>h' l'. listRotate h l = Some (h', l') \<and> evolves h l ns h' l' (rotate (length ns - 1) ns)"
proof (cases "length ns \<le> 1")
  case True
  then have "rotate (length ns - 1) ns = ns"
    by simp
  with True wf show ?thesis
    by (simp add: listRotate_def listLength_def list_wf_def evolves_refl)
next
  case False
  then obtain xs b v where ns: "ns = xs @ [(b, v)]" and xs: "xs \<noteq> []"
    by (cases ns rule: rev_cases) auto
  have rot: "rotate (length ns - 1) ns = (b, v) # xs"
    using rotate_append [of xs "[(b, v)]"] by (simp add: ns)
  have wf': "list_wf h l (xs @ (b, v) # [])"
    using wf by (simp add: ns)
  note nd = list_wf_node [OF wf']
  have w: "heap_wf h" "dll h 0 xs b" and dist_x: "distinct (map fst xs)"
    and flds: "l_head l = first_node xs b" "l_tail l = b" "l_len l = length ns"
    using wf by (auto simp: list_wf_def ns)
  obtain h2 where h2: "heap_wf h2" "next_node h2 = next_node h" "dll h2 0 xs 0"
    "\<And>a. a \<notin> addrs xs \<Longrightarrow> nodes h2 a = nodes h a"
    "node_upd h (last_node 0 xs) (\<lambda>m. m\<lparr>n_next := 0\<rparr>) = Some h2"
    by (rule set_next [OF w dist_x]) (use xs in blast)
  obtain h3 where h3: "heap_wf h3" "next_node h3 = next_node h2" "dll h3 b xs 0"
    "\<And>a. a \<notin> addrs xs \<Longrightarrow> nodes h3 a = nodes h2 a"
    "node_upd h2 (first_node xs 0) (\<lambda>m. m\<lparr>n_prev := b\<rparr>) = Some h3"
    by (rule set_prev [OF h2(1,3) dist_x]) (use xs in blast)
  have b3: "nodes h3 b = Some \<lparr>n_prev = last_node 0 xs, n_next = 0, n_value = v\<rparr>"
    using nd h3(4) h2(4) by (simp add: node_at_def)
  have hd: "first_node xs b = first_node xs 0" and tl: "last_node b xs = last_node 0 xs"
    using xs by (cases xs; simp)+
  define h4 where "h4 = h3\<lparr>nodes := (nodes h3)(b \<mapsto> \<lparr>n_prev = 0, n_next = first_node xs 0, n_value = v\<rparr>)\<rparr>"
  define l' where "l' = l\<lparr>l_tail := last_node 0 xs, l_head := b\<rparr>"
  have "listRotate h l = Some (h4, l')"
    using False flds nd(1) h2(5) h3(5) b3 hd
    by (simp add: listRotate_def listLength_def node_upd_some h4_def l'_def)
  moreover have "evolves h l ns h4 l' ((b, v) # xs)"
    using h2(2,4) h3(1-4) b3 nd(3) dist_x flds(3) tl
    by (intro evolvesI) (auto simp: h4_def l'_def ns image_Un)
  ultimately show ?thesis
    using rot by auto
qed

subsection \<open>Positions\<close>

text \<open>The position a \<^verbatim>\<open>long\<close> index names in a list of \<open>n\<close> elements: negative ones count from the tail.\<close>

definition list_pos :: "int \<Rightarrow> nat \<Rightarrow> nat option" where
  "list_pos i n =
     (if i < 0 then if - i \<le> int n then Some (n - nat (- i)) else None
      else if i < int n then Some (nat i) else None)"

lemma index_loop_next:
  "\<lbrakk>heap_wf h; dll h p ns 0\<rbrakk> \<Longrightarrow> index_loop h n_next k (first_node ns 0) = Some (first_node (drop k ns) 0)"
proof (induction ns arbitrary: p k)
  case Nil
  then show ?case
    by (cases k) simp_all
next
  case (Cons x ns)
  have "0 < fst x"
    using dll_nonzero [OF Cons.prems, of "fst x"] by simp
  then show ?case
    using Cons.prems Cons.IH by (cases k) (auto simp: node_at_def)
qed

lemma index_loop_prev:
  "\<lbrakk>heap_wf h; dll h 0 ns n\<rbrakk> \<Longrightarrow>
     index_loop h n_prev k (last_node 0 ns) = Some (last_node 0 (take (length ns - k) ns))"
proof (induction ns arbitrary: n k rule: rev_induct)
  case Nil
  then show ?case
    by (cases k) simp_all
next
  case (snoc x ns)
  have "0 < fst x"
    using dll_nonzero [OF snoc.prems, of "fst x"] by simp
  then show ?case
    using snoc.prems snoc.IH by (cases k) (auto simp: node_at_def)
qed

lemma first_node_drop: "k < length ns \<Longrightarrow> first_node (drop k ns) n = fst (ns ! k)"
  by (simp add: Cons_nth_drop_Suc [symmetric])

lemma last_node_take: "k < length ns \<Longrightarrow> last_node p (take (Suc k) ns) = fst (ns ! k)"
  by (simp add: take_Suc_conv_app_nth)

lemma listIndex_ok:
  assumes wf: "list_wf h l ns" and i: "- (2 ^ 63) < i"
  shows "listIndex h l i = Some (case list_pos i (length ns) of None \<Rightarrow> 0 | Some k \<Rightarrow> fst (ns ! k))"
proof (cases "i < 0")
  case False
  have "listIndex h l i = Some (first_node (drop (nat i) ns) 0)"
    using wf False index_loop_next [of h 0 ns "nat i"] by (simp add: listIndex_def list_wf_def)
  then show ?thesis
    using False first_node_drop [of "nat i" ns 0] by (simp add: list_pos_def)
next
  case True
  define k where "k = nat (- i - 1)"
  have "listIndex h l i = Some (last_node 0 (take (length ns - k) ns))"
    using wf True i index_loop_prev [of h ns 0 k] by (simp add: listIndex_def list_wf_def k_def)
  moreover have "list_pos i (length ns) = (if k < length ns then Some (length ns - Suc k) else None)"
    using True by (auto simp: list_pos_def k_def)
  moreover have "last_node 0 (take (length ns - k) ns) = fst (ns ! (length ns - Suc k))" if "k < length ns"
    using last_node_take [of "length ns - Suc k" ns 0] that by (simp add: Suc_diff_Suc)
  ultimately show ?thesis
    by simp
qed

lemma list_pos_less: "list_pos i n = Some k \<Longrightarrow> k < n"
  by (auto simp: list_pos_def split: if_splits)

lemma split_nth: "k < length ns \<Longrightarrow> ns = take k ns @ (fst (ns ! k), snd (ns ! k)) # drop (Suc k) ns"
  by (simp add: id_take_nth_drop)

subsection \<open>Iteration\<close>

text \<open>
  The use of the iterator the code documents: a loop over \<^verbatim>\<open>listNext\<close> that may call \<^verbatim>\<open>listDelNode\<close> on
  the node just returned. The result is the values visited, in order.
\<close>

fun iter_prune :: "nat \<Rightarrow> 'v listNode heap \<Rightarrow> ('v, 'k) adlist \<Rightarrow> listIter \<Rightarrow> ('v \<Rightarrow> bool) \<Rightarrow>
    ('v listNode heap \<times> ('v, 'k) adlist \<times> 'v list) option" where
  "iter_prune 0 h l it P = None"
| "iter_prune (Suc fuel) h l it P =
     do {
       (it, node) \<leftarrow> listNext h it;
       if node = 0 then Some (h, l, [])
       else do {
         n \<leftarrow> node_at h node;
         (h, l) \<leftarrow> (if P (n_value n)
                    then do { (h, l, fr) \<leftarrow> listDelNode h l node; Some (h, l) }
                    else Some (h, l));
         (h, l, vs) \<leftarrow> iter_prune fuel h l it P;
         Some (h, l, n_value n # vs)
       }
     }"

abbreviation kept :: "('v \<Rightarrow> bool) \<Rightarrow> (nat \<times> 'v) list \<Rightarrow> (nat \<times> 'v) list" where
  "kept P ns \<equiv> filter (\<lambda>x. \<not> P (snd x)) ns"

text \<open>What the body of the loop leaves of the list, whichever branch it takes.\<close>

lemma prune_body:
  assumes wf: "list_wf h l (xs @ (a, v) # ys)"
  obtains h' l' where "(if P v then do { (h, l, fr) \<leftarrow> listDelNode h l a; Some (h, l) } else Some (h, l)) = Some (h', l')"
    and "evolves h l (xs @ (a, v) # ys) h' l' (xs @ kept P [(a, v)] @ ys)"
  using listDelNode_ok [OF wf] evolves_refl [OF wf] that by (cases "P v") force+

lemma iter_prune_head:
  assumes "list_wf h l (xs @ ys)" and "length ys < fuel"
  shows "\<exists>h' l'. iter_prune fuel h l \<lparr>li_next = first_node ys 0, li_direction = AL_START_HEAD\<rparr> P =
           Some (h', l', map snd ys) \<and> evolves h l (xs @ ys) h' l' (xs @ kept P ys)"
  using assms
proof (induction ys arbitrary: h l xs fuel)
  case Nil
  then show ?case
    by (cases fuel) (simp_all add: listNext_def evolves_refl)
next
  case (Cons y ys)
  obtain a v where y: "y = (a, v)"
    by (cases y)
  obtain f where f: "fuel = Suc f"
    using Cons.prems by (cases fuel) simp_all
  have wf: "list_wf h l (xs @ (a, v) # ys)"
    using Cons.prems y by simp
  note nd = list_wf_node [OF wf]
  obtain h1 l1 where b: "(if P v then do { (h, l, fr) \<leftarrow> listDelNode h l a; Some (h, l) } else Some (h, l)) = Some (h1, l1)"
    and e: "evolves h l (xs @ (a, v) # ys) h1 l1 (xs @ kept P [(a, v)] @ ys)"
    by (rule prune_body [OF wf])
  have "list_wf h1 l1 ((xs @ kept P [(a, v)]) @ ys)" "length ys < f"
    using e Cons.prems f by (simp_all add: evolves_def)
  then obtain h' l' where "iter_prune f h1 l1 \<lparr>li_next = first_node ys 0, li_direction = AL_START_HEAD\<rparr> P =
           Some (h', l', map snd ys)" and e': "evolves h1 l1 ((xs @ kept P [(a, v)]) @ ys) h' l' ((xs @ kept P [(a, v)]) @ kept P ys)"
    using Cons.IH by blast
  then have "iter_prune fuel h l \<lparr>li_next = first_node (y # ys) 0, li_direction = AL_START_HEAD\<rparr> P =
           Some (h', l', map snd (y # ys))"
    using nd(1,2) b by (simp add: f y listNext_def split: if_splits)
  moreover have "evolves h l (xs @ y # ys) h' l' (xs @ kept P (y # ys))"
    using evolves_trans [OF e e' [unfolded append_assoc]] by (cases "P v") (simp_all add: y)
  ultimately show ?case
    by blast
qed

lemma iter_prune_tail:
  assumes "list_wf h l (xs @ ys)" and "length xs < fuel"
  shows "\<exists>h' l'. iter_prune fuel h l \<lparr>li_next = last_node 0 xs, li_direction = AL_START_TAIL\<rparr> P =
           Some (h', l', map snd (rev xs)) \<and> evolves h l (xs @ ys) h' l' (kept P xs @ ys)"
  using assms
proof (induction xs arbitrary: h l ys fuel rule: rev_induct)
  case Nil
  then show ?case
    by (cases fuel) (simp_all add: listNext_def evolves_refl)
next
  case (snoc x xs)
  obtain a v where x: "x = (a, v)"
    by (cases x)
  obtain f where f: "fuel = Suc f"
    using snoc.prems by (cases fuel) simp_all
  have wf: "list_wf h l (xs @ (a, v) # ys)"
    using snoc.prems x by simp
  note nd = list_wf_node [OF wf]
  obtain h1 l1 where b: "(if P v then do { (h, l, fr) \<leftarrow> listDelNode h l a; Some (h, l) } else Some (h, l)) = Some (h1, l1)"
    and e: "evolves h l (xs @ (a, v) # ys) h1 l1 (xs @ kept P [(a, v)] @ ys)"
    by (rule prune_body [OF wf])
  have "list_wf h1 l1 (xs @ kept P [(a, v)] @ ys)" "length xs < f"
    using e snoc.prems f by (simp_all add: evolves_def)
  then obtain h' l' where "iter_prune f h1 l1 \<lparr>li_next = last_node 0 xs, li_direction = AL_START_TAIL\<rparr> P =
           Some (h', l', map snd (rev xs))" and e': "evolves h1 l1 (xs @ kept P [(a, v)] @ ys) h' l' (kept P xs @ kept P [(a, v)] @ ys)"
    using snoc.IH by blast
  then have "iter_prune fuel h l \<lparr>li_next = last_node 0 (xs @ [x]), li_direction = AL_START_TAIL\<rparr> P =
           Some (h', l', map snd (rev (xs @ [x])))"
    using nd(1,2) b by (simp add: f x listNext_def split: if_splits)
  moreover have "evolves h l ((xs @ [x]) @ ys) h' l' (kept P (xs @ [x]) @ ys)"
    using evolves_trans [OF e e'] by (cases "P v") (simp_all add: x)
  ultimately show ?case
    by blast
qed

lemma search_nodes_ok:
  "\<lbrakk>heap_wf h; dll h p ns 0; length ns < fuel\<rbrakk> \<Longrightarrow>
     search_nodes fuel h \<lparr>li_next = first_node ns 0, li_direction = AL_START_HEAD\<rparr> P =
       Some (first_node (dropWhile (\<lambda>x. \<not> P (snd x)) ns) 0)"
proof (induction ns arbitrary: p fuel)
  case Nil
  then show ?case
    by (cases fuel) (simp_all add: listNext_def)
next
  case (Cons x ns)
  have "0 < fst x"
    using dll_nonzero [OF Cons.prems(1,2), of "fst x"] by simp
  then show ?case
    using Cons.prems Cons.IH [of "fst x" "fuel - 1"] by (cases fuel) (simp_all add: listNext_def node_at_def)
qed

subsection \<open>Release and duplication\<close>

lemma release_loop_ok:
  assumes "heap_wf h" and "dll h p ns 0" and "distinct (map fst ns)"
  shows "\<exists>h'. release_loop h fr (length ns) (first_node ns 0) = Some (h', if fr then map snd ns else []) \<and>
           heap_wf h' \<and> next_node h' = next_node h \<and>
           nodes h' = (\<lambda>a. if a \<in> addrs ns then None else nodes h a)"
  using assms
proof (induction ns arbitrary: h p)
  case (Cons x ns)
  define h1 where "h1 = h\<lparr>nodes := (nodes h)(fst x := None)\<rparr>"
  have free: "node_free h (fst x) = Some h1"
    using Cons.prems by (simp add: node_free_def h1_def)
  have "heap_wf h1" "dll h1 (fst x) ns 0" "distinct (map fst ns)"
    using Cons.prems by (simp_all add: h1_def)
  then obtain h' where "release_loop h1 fr (length ns) (first_node ns 0) = Some (h', if fr then map snd ns else [])"
    and "heap_wf h'" "next_node h' = next_node h1" "nodes h' = (\<lambda>a. if a \<in> addrs ns then None else nodes h1 a)"
    using Cons.IH by blast
  then show ?case
    using Cons.prems free by (auto simp: node_at_def h1_def)
qed simp

lemma listRelease_ok:
  assumes "list_wf h l ns"
  shows "\<exists>h'. listRelease h l = Some (h', if l_free l then map snd ns else []) \<and>
           heap_wf h' \<and> next_node h' = next_node h \<and>
           nodes h' = (\<lambda>a. if a \<in> addrs ns then None else nodes h a)"
  using release_loop_ok [of h 0 ns "l_free l"] assms by (simp add: listRelease_def list_wf_def)

definition dup_value :: "('v, 'k) adlist \<Rightarrow> 'v \<Rightarrow> 'v option" where
  "dup_value l v = (case l_dup l of None \<Rightarrow> Some v | Some f \<Rightarrow> f v)"

lemma dup_value_methods: "methods l = methods l' \<Longrightarrow> dup_value l = dup_value l' \<and> l_free l = l_free l'"
  by (simp add: dup_value_def methods_def fun_eq_iff)

text \<open>The duplicates made before the first failure.\<close>

fun dups_before :: "('v \<Rightarrow> 'v option) \<Rightarrow> 'v list \<Rightarrow> 'v list" where
  "dups_before f [] = []"
| "dups_before f (v # vs) = (case f v of None \<Rightarrow> [] | Some w \<Rightarrow> w # dups_before f vs)"

text \<open>What \<^verbatim>\<open>listDup\<close> has promised when the loop ends, from a copy \<open>cs\<close> and the values \<open>vs\<close> still to copy.\<close>

definition dup_result :: "'v listNode heap \<Rightarrow> ('v, 'k) adlist \<Rightarrow> (nat \<times> 'v) list \<Rightarrow> 'v list \<Rightarrow>
    ('v listNode heap \<times> (('v, 'k) adlist + 'v list)) option \<Rightarrow> bool" where
  "dup_result h copy cs vs r =
     (case those (map (dup_value copy) vs) of
        Some ws \<Rightarrow> \<exists>h' c' cs'. r = Some (h', Inl c') \<and> evolves h copy cs h' c' (cs @ cs') \<and> map snd cs' = ws
      | None \<Rightarrow> \<exists>h'. r = Some (h', Inr (if l_free copy then map snd cs @ dups_before (dup_value copy) vs else [])) \<and>
                  heap_wf h' \<and> next_node h \<le> next_node h' \<and>
                  nodes h' = (\<lambda>a. if a \<in> addrs cs then None else nodes h a))"

lemma dup_result_step:
  assumes e: "evolves h copy cs h1 copy1 (cs @ [(next_node h, w)])" and wf: "list_wf h copy cs"
    and w: "dup_value copy v = Some w"
    and r: "dup_result h1 copy1 (cs @ [(next_node h, w)]) vs r"
    and n1: "next_node h1 = Suc (next_node h)"
  shows "dup_result h copy cs (v # vs) r"
proof -
  have m: "dup_value copy1 = dup_value copy" "l_free copy1 = l_free copy"
    using e dup_value_methods [of copy1 copy] by (auto simp: evolves_def)
  have out: "nodes h a = None" if "next_node h \<le> a" for a
    using wf that by (auto simp: list_wf_def heap_wf_def)
  have same: "nodes h1 a = nodes h a" if "a \<notin> addrs cs" "a \<noteq> next_node h" for a
  proof (cases "a < next_node h")
    case True
    then show ?thesis
      using e that by (simp add: evolves_def touches_def)
  next
    case False
    then have "nodes h1 a = None"
      using e n1 that by (auto simp: evolves_def list_wf_def heap_wf_def)
    with False out show ?thesis
      by simp
  qed
  show ?thesis
  proof (cases "those (map (dup_value copy) vs)")
    case None
    with r m obtain h' where "r = Some (h', Inr (if l_free copy then map snd (cs @ [(next_node h, w)]) @
          dups_before (dup_value copy) vs else []))"
      and "heap_wf h'" "next_node h1 \<le> next_node h'"
      and n: "nodes h' = (\<lambda>a. if a \<in> addrs (cs @ [(next_node h, w)]) then None else nodes h1 a)"
      by (auto simp: dup_result_def)
    moreover have "nodes h' = (\<lambda>a. if a \<in> addrs cs then None else nodes h a)"
      using same out by (auto simp: n)
    ultimately show ?thesis
      using None w n1 by (simp add: dup_result_def)
  next
    case (Some ws)
    with r m obtain h' c' cs' where "r = Some (h', Inl c')"
      and "evolves h1 copy1 (cs @ [(next_node h, w)]) h' c' ((cs @ [(next_node h, w)]) @ cs')" and "map snd cs' = ws"
      by (auto simp: dup_result_def)
    with evolves_trans [OF e] Some w show ?thesis
      by (force simp: dup_result_def intro!: exI [of _ "(next_node h, w) # cs'"])
  qed
qed

lemma listAddNodeTail_next: "listAddNodeTail h l v = Some (h', l') \<Longrightarrow> next_node h' = Suc (next_node h)"
  by (cases "l_len l = 0"; cases "l_tail l = next_node h"; cases "nodes h (l_tail l)")
    (simp_all add: listAddNodeTail_def node_new_def node_upd_def, (elim conjE, hypsubst, simp)+)

lemma dup_loop_step:
  "\<lbrakk>0 < a; node_at h a = Some n\<rbrakk> \<Longrightarrow>
     dup_loop (Suc f) h \<lparr>li_next = a, li_direction = AL_START_HEAD\<rparr> copy =
       (case dup_value copy (n_value n) of
          None \<Rightarrow> do { (h, vs) \<leftarrow> listRelease h copy; Some (h, Inr vs) }
        | Some v \<Rightarrow> do {
            (h, copy) \<leftarrow> listAddNodeTail h copy v;
            dup_loop f h \<lparr>li_next = n_next n, li_direction = AL_START_HEAD\<rparr> copy
          })"
  by (simp add: listNext_def dup_value_def)

lemma dup_loop_ok:
  assumes "list_wf h copy cs" and "dll h p ns 0" and "addrs cs \<inter> addrs ns = {}" and "length ns < fuel"
  shows "dup_result h copy cs (map snd ns)
           (dup_loop fuel h \<lparr>li_next = first_node ns 0, li_direction = AL_START_HEAD\<rparr> copy)"
  using assms
proof (induction ns arbitrary: h p copy cs fuel)
  case Nil
  then show ?case
    by (cases fuel) (auto simp: dup_result_def listNext_def intro!: exI [of _ "[]"] evolves_refl)
next
  case (Cons x ns)
  obtain f where f: "fuel = Suc f"
    using Cons.prems by (cases fuel) simp_all
  have hw: "heap_wf h"
    using Cons.prems by (simp add: list_wf_def)
  have pos: "0 < fst x"
    using dll_nonzero [OF hw Cons.prems(2), of "fst x"] by simp
  have node: "node_at h (fst x) = Some \<lparr>n_prev = p, n_next = first_node ns 0, n_value = snd x\<rparr>"
    using Cons.prems by (simp add: node_at_def)
  show ?case
  proof (cases "dup_value copy (snd x)")
    case None
    then show ?thesis
      using listRelease_ok [OF Cons.prems(1)] pos node
      by (auto simp: f dup_result_def dup_loop_step simp del: dup_loop.simps split: if_splits)
  next
    case (Some w)
    obtain h1 copy1 where add: "listAddNodeTail h copy w = Some (h1, copy1)"
      and e: "evolves h copy cs h1 copy1 (cs @ [(next_node h, w)])"
      using listAddNodeTail_ok [OF Cons.prems(1)] by blast
    have lt: "a < next_node h \<and> a \<notin> addrs cs" if "a \<in> addrs ns" for a
      using dll_nonzero [OF hw Cons.prems(2), of a] Cons.prems(3) that by auto
    have "dll h1 (fst x) ns 0"
      by (rule dll_frame [of h]) (use Cons.prems(2) e lt in \<open>auto simp: evolves_def touches_def\<close>)
    moreover have "addrs (cs @ [(next_node h, w)]) \<inter> addrs ns = {}"
      using lt by fastforce
    moreover have "list_wf h1 copy1 (cs @ [(next_node h, w)])" "length ns < f"
      using e f Cons.prems by (simp_all add: evolves_def)
    ultimately have "dup_result h1 copy1 (cs @ [(next_node h, w)]) (map snd ns)
        (dup_loop f h1 \<lparr>li_next = first_node ns 0, li_direction = AL_START_HEAD\<rparr> copy1)"
      using Cons.IH by blast
    from dup_result_step [OF e Cons.prems(1) Some this listAddNodeTail_next [OF add]] show ?thesis
      using pos node add Some by (simp add: f dup_loop_step del: dup_loop.simps)
  qed
qed

subsection \<open>Lists of values\<close>

text \<open>The operations clients compose, with the position of a node looked up by \<^verbatim>\<open>listIndex\<close>.\<close>

datatype 'v list_op =
    Push_Head 'v
  | Push_Tail 'v
  | Insert_At int 'v bool
  | Delete_At int
  | Rotate_List

type_synonym ('v, 'k) list_state = "'v listNode heap \<times> ('v, 'k) adlist"

fun list_step :: "'v list_op \<Rightarrow> ('v, 'k) list_state \<Rightarrow> (('v, 'k) list_state \<times> unit) option" where
  "list_step (Push_Head v) (h, l) = map_option (\<lambda>s. (s, ())) (listAddNodeHead h l v)"
| "list_step (Push_Tail v) (h, l) = map_option (\<lambda>s. (s, ())) (listAddNodeTail h l v)"
| "list_step (Insert_At i v after) (h, l) =
     do {
       node \<leftarrow> listIndex h l i;
       if node = 0 then Some ((h, l), ())
       else map_option (\<lambda>s. (s, ())) (listInsertNode h l node v after)
     }"
| "list_step (Delete_At i) (h, l) =
     do {
       node \<leftarrow> listIndex h l i;
       if node = 0 then Some ((h, l), ())
       else map_option (\<lambda>(h, l, fr). ((h, l), ())) (listDelNode h l node)
     }"
| "list_step Rotate_List (h, l) = map_option (\<lambda>s. (s, ())) (listRotate h l)"

fun list_spec :: "'v list_op \<Rightarrow> 'v list \<Rightarrow> 'v list \<times> unit" where
  "list_spec (Push_Head v) vs = (v # vs, ())"
| "list_spec (Push_Tail v) vs = (vs @ [v], ())"
| "list_spec (Insert_At i v after) vs =
     (case list_pos i (length vs) of
        None \<Rightarrow> vs
      | Some k \<Rightarrow> (let j = (if after then Suc k else k) in take j vs @ v # drop j vs), ())"
| "list_spec (Delete_At i) vs =
     (case list_pos i (length vs) of None \<Rightarrow> vs | Some k \<Rightarrow> take k vs @ drop (Suc k) vs, ())"
| "list_spec Rotate_List vs = (if vs = [] then [] else last vs # butlast vs, ())"

text \<open>An index is a \<^verbatim>\<open>long\<close> whose negation is one too.\<close>

fun list_valid :: "'v list_op \<Rightarrow> 'v list \<Rightarrow> bool" where
  "list_valid (Insert_At i v after) vs \<longleftrightarrow> - (2 ^ 63) < i \<and> i < 2 ^ 63"
| "list_valid (Delete_At i) vs \<longleftrightarrow> - (2 ^ 63) < i \<and> i < 2 ^ 63"
| "list_valid _ vs \<longleftrightarrow> True"

text \<open>
  The list of \<open>(h, l)\<close> has the values \<open>vs\<close>, and it is reached from \<open>ns0\<close> in \<open>(h0, l0)\<close> without touching
  the nodes of other lists.
\<close>

definition list_rel :: "'v listNode heap \<Rightarrow> ('v, 'k) adlist \<Rightarrow> (nat \<times> 'v) list \<Rightarrow> ('v, 'k) list_state \<Rightarrow> 'v list \<Rightarrow> bool" where
  "list_rel h0 l0 ns0 s vs \<longleftrightarrow> (\<exists>ns. evolves h0 l0 ns0 (fst s) (snd s) ns \<and> map snd ns = vs)"

lemma list_relI:
  "\<lbrakk>evolves h0 l0 ns0 h l ns; evolves h l ns h' l' ns'; map snd ns' = vs\<rbrakk> \<Longrightarrow> list_rel h0 l0 ns0 (h', l') vs"
  using evolves_trans unfolding list_rel_def by fastforce

lemma listIndex_cases:
  assumes wf: "list_wf h l ns" and i: "- (2 ^ 63) < i"
  obtains (out) "list_pos i (length ns) = None" and "listIndex h l i = Some 0"
  | (at) k a v where "list_pos i (length ns) = Some k" and "listIndex h l i = Some a" and "0 < a"
      and "k < length ns" and "ns = take k ns @ (a, v) # drop (Suc k) ns" and "ns ! k = (a, v)"
proof (cases "list_pos i (length ns)")
  case None
  then show ?thesis
    using listIndex_ok [OF wf i] out by simp
next
  case (Some k)
  obtain a v where av: "ns ! k = (a, v)"
    by (cases "ns ! k")
  have k: "k < length ns"
    using Some by (rule list_pos_less)
  have split: "ns = take k ns @ (a, v) # drop (Suc k) ns"
    using split_nth [OF k] av by simp
  then have "0 < a"
    using list_wf_node(2) wf by metis
  with Some k av split show ?thesis
    using listIndex_ok [OF wf i] at by simp
qed

lemma rotate_values:
  "map snd (rotate (length ns - 1) ns) = (if ns = [] then [] else last (map snd ns) # butlast (map snd ns))"
proof (cases ns rule: rev_cases)
  case (snoc xs x)
  then show ?thesis
    using rotate_append [of xs "[x]"] by simp
qed simp

lemma list_step_sim:
  assumes rel: "list_rel h0 l0 ns0 s vs" and valid: "list_valid op vs"
  shows "\<exists>s'. list_step op s = Some (s', snd (list_spec op vs)) \<and> list_rel h0 l0 ns0 s' (fst (list_spec op vs))"
proof -
  obtain h l where s: "s = (h, l)"
    by (cases s)
  obtain ns where e: "evolves h0 l0 ns0 h l ns" and vs: "vs = map snd ns"
    using rel by (auto simp: list_rel_def s)
  have wf: "list_wf h l ns"
    using e by (simp add: evolves_def)
  note rel' = list_relI [OF e]
  show ?thesis
  proof (cases op)
    case (Push_Head v)
    with listAddNodeHead_ok [OF wf, of v] rel' show ?thesis
      by (fastforce simp: s vs)
  next
    case (Push_Tail v)
    with listAddNodeTail_ok [OF wf, of v] rel' show ?thesis
      by (fastforce simp: s vs)
  next
    case op: (Insert_At i v after)
    have i: "- (2 ^ 63) < i"
      using valid by (simp add: op)
    from wf i show ?thesis
    proof (cases rule: listIndex_cases)
      case out
      then show ?thesis
        using rel by (simp add: op s vs)
    next
      case (at k a u)
      have "list_wf h l (take k ns @ (a, u) # drop (Suc k) ns)"
        using wf at(5) by simp
      from listInsertNode_ok [OF this, of v after] obtain h' l'
        where ins: "listInsertNode h l a v after = Some (h', l')"
          and e': "evolves h l ns h' l' (if after then take k ns @ (a, u) # (next_node h, v) # drop (Suc k) ns
            else take k ns @ (next_node h, v) # (a, u) # drop (Suc k) ns)"
        using at(5) by auto
      have "list_rel h0 l0 ns0 (h', l') (fst (list_spec op vs))"
        using at(1,4,6) by (intro rel' [OF e'])
          (auto simp: op vs take_map drop_map take_Suc_conv_app_nth Cons_nth_drop_Suc [symmetric])
      with ins at(1-3) show ?thesis
        by (simp add: op s)
    qed
  next
    case op: (Delete_At i)
    have i: "- (2 ^ 63) < i"
      using valid by (simp add: op)
    from wf i show ?thesis
    proof (cases rule: listIndex_cases)
      case out
      then show ?thesis
        using rel by (simp add: op s vs)
    next
      case (at k a u)
      have "list_wf h l (take k ns @ (a, u) # drop (Suc k) ns)"
        using wf at(5) by simp
      from listDelNode_ok [OF this] obtain h' l' fr where del: "listDelNode h l a = Some (h', l', fr)"
          and e': "evolves h l ns h' l' (take k ns @ drop (Suc k) ns)"
        using at(5) by auto
      have "list_rel h0 l0 ns0 (h', l') (fst (list_spec op vs))"
        using at(1) by (intro rel' [OF e']) (simp add: op vs take_map drop_map)
      with del at(1-3) show ?thesis
        by (simp add: op s)
    qed
  next
    case Rotate_List
    obtain h' l' where "listRotate h l = Some (h', l')" "evolves h l ns h' l' (rotate (length ns - 1) ns)"
      using listRotate_ok [OF wf] by blast
    with rel' [OF this(2) rotate_values] show ?thesis
      by (simp add: Rotate_List s vs)
  qed
qed

interpretation adl: simulation "list_rel h0 l0 ns0" list_step list_spec list_valid
  by unfold_locales (rule list_step_sim)

subsection \<open>The theorems\<close>

text \<open>A heap with the list of the numbers 1, 2, 3 at the addresses 1, 2, 3.\<close>

definition ex_heap :: "nat listNode heap" where
  "ex_heap =
     \<lparr>nodes = [1 \<mapsto> \<lparr>n_prev = 0, n_next = 2, n_value = 1\<rparr>, 2 \<mapsto> \<lparr>n_prev = 1, n_next = 3, n_value = 2\<rparr>,
               3 \<mapsto> \<lparr>n_prev = 2, n_next = 0, n_value = 3\<rparr>],
      next_node = 4\<rparr>"

definition ex_list :: "(nat, nat) adlist" where
  "ex_list = \<lparr>l_head = 1, l_tail = 3, l_dup = Some (\<lambda>v. if v = 7 then None else Some (v + 10)), l_free = True,
     l_match = None, l_len = 3\<rparr>"

lemma ex_list_wf: "list_wf ex_heap ex_list [(1, 1), (2, 2), (3, 3)]"
  by (auto simp: list_wf_def heap_wf_def ex_heap_def ex_list_def split: if_splits)

text \<open>
  C7: the doubly linked list refines the list of its values. Any run of pushes at both ends, insertions
  before or after the node at an index, deletions of the node at an index and rotations starts from a
  well formed list and ends in one that holds what the run computes on plain lists; it dereferences
  no null or dangling pointer, keeps the methods of the list and leaves every node of other lists alone.
\<close>

theorem adlist_refines_list:
  assumes "list_wf h l ns" and "valid_ops list_spec list_valid ops (map snd ns)"
  shows "\<exists>h' l' ns' rs. run_ops list_step ops (h, l) = Some ((h', l'), rs) \<and>
           list_wf h' l' ns' \<and> map snd ns' = fst (spec_ops list_spec ops (map snd ns)) \<and>
           methods l' = methods l \<and> touches h (addrs ns) h'"
proof -
  have "list_rel h l ns (h, l) (map snd ns)"
    using evolves_refl [OF assms(1)] by (auto simp: list_rel_def)
  from adl.run_sim [OF this assms(2)] show ?thesis
    by (fastforce simp: list_rel_def evolves_def)
qed

theorem adlist_refines_list_witness:
  "\<exists>h' l' ns' rs. run_ops list_step [Push_Head 9, Insert_At (-1) 8 False, Delete_At 1, Rotate_List] (ex_heap, ex_list) =
     Some ((h', l'), rs) \<and> list_wf h' l' ns' \<and> map snd ns' = [3, 9, 2, 8] \<and>
     methods l' = methods ex_list \<and> touches ex_heap {1, 2, 3} h'"
  using adlist_refines_list [OF ex_list_wf, of "[Push_Head 9, Insert_At (-1) 8 False, Delete_At 1, Rotate_List]"]
  by (simp add: list_pos_def)

text \<open>
  C24: the iterator of a list visits every value once, in the order of its direction, and ends, also when
  the loop deletes nodes it has just been given; the deletions leave exactly the other nodes, in order.
\<close>

theorem listNext_visits_all:
  assumes "list_wf h l ns"
  shows "\<exists>h' l'. iter_prune (Suc (length ns)) h l (listGetIterator l dir) P =
           Some (h', l', if dir = AL_START_HEAD then map snd ns else rev (map snd ns)) \<and>
           list_wf h' l' (kept P ns) \<and> touches h (addrs ns) h'"
proof (cases dir)
  case AL_START_HEAD
  then show ?thesis
    using iter_prune_head [of h l "[]" ns "Suc (length ns)" P] assms
    by (auto simp: listGetIterator_def list_wf_def [of h] evolves_def)
next
  case AL_START_TAIL
  then show ?thesis
    using iter_prune_tail [of h l ns "[]" "Suc (length ns)" P] assms
    by (auto simp: listGetIterator_def list_wf_def [of h] evolves_def rev_map)
qed

theorem listNext_visits_all_witness:
  "\<exists>h' l'. iter_prune 4 ex_heap ex_list (listGetIterator ex_list AL_START_TAIL) (\<lambda>v. v \<noteq> 2) =
     Some (h', l', [3, 2, 1]) \<and> list_wf h' l' [(2, 2)] \<and> touches ex_heap {1, 2, 3} h'"
  using listNext_visits_all [OF ex_list_wf, of AL_START_TAIL "\<lambda>v. v \<noteq> 2"]
  by (simp add: numeral_eq_Suc del: iter_prune.simps)

text \<open>
  C25: duplicating a list either returns a list of the duplicated values, in new nodes and with the
  methods of the original, or, when the duplication of a value fails, releases what it had built: the
  heap has the nodes it had before, and the free method has been called once for each duplicate made.
  The original is untouched in both cases.
\<close>

theorem listDup_correct:
  assumes "list_wf h l ns"
  shows "case those (map (dup_value l) (map snd ns)) of
           Some ws \<Rightarrow> \<exists>h' c cs. listDup h l = Some (h', Inl c) \<and> list_wf h' c cs \<and> map snd cs = ws \<and>
             addrs cs \<inter> addrs ns = {} \<and> methods c = methods l \<and> list_wf h' l ns \<and> touches h {} h'
         | None \<Rightarrow> \<exists>h'. listDup h l =
               Some (h', Inr (if l_free l then dups_before (dup_value l) (map snd ns) else [])) \<and>
             nodes h' = nodes h \<and> list_wf h' l ns"
proof -
  define c0 where "c0 = (listCreate :: ('a, 'b) adlist)\<lparr>l_dup := l_dup l, l_free := l_free l, l_match := l_match l\<rparr>"
  have m: "methods c0 = methods l"
    by (simp add: c0_def methods_def)
  have c0: "list_wf h c0 []" and w: "dll h 0 ns 0" "l_head l = first_node ns 0" "l_len l = length ns" "heap_wf h"
    using assms by (simp_all add: list_wf_def c0_def listCreate_def)
  have r: "dup_result h c0 [] (map snd ns) (listDup h l)"
    using dup_loop_ok [OF c0 w(1), of "Suc (length ns)"] w by (simp add: listDup_def c0_def listGetIterator_def)
  have keep: "list_wf h' l ns" if "heap_wf h'" "touches h {} h'" for h'
    using assms that dll_nonzero [OF w(4,1)]
    by (auto simp: list_wf_def touches_def intro!: dll_frame [OF w(1)])
  show ?thesis
  proof (cases "those (map (dup_value l) (map snd ns))")
    case None
    with r m dup_value_methods [OF m] keep show ?thesis
      by (auto simp: dup_result_def touches_def)
  next
    case (Some ws)
    with r dup_value_methods [OF m] obtain h' c cs where "listDup h l = Some (h', Inl c)"
      and e: "evolves h c0 [] h' c cs" and "map snd cs = ws"
      by (auto simp: dup_result_def)
    moreover have "addrs cs \<inter> addrs ns = {}"
      using e dll_nonzero [OF w(4,1)] by (fastforce simp: evolves_def)
    ultimately show ?thesis
      using e m keep Some by (auto simp: evolves_def list_wf_def [of h' c])
  qed
qed

theorem listDup_correct_witness:
  "\<exists>h' c cs. listDup ex_heap ex_list = Some (h', Inl c) \<and> list_wf h' c cs \<and> map snd cs = [11, 12, 13] \<and>
     addrs cs \<inter> {1, 2, 3} = {} \<and> methods c = methods ex_list \<and>
     list_wf h' ex_list [(1, 1), (2, 2), (3, 3)] \<and> touches ex_heap {} h'"
  using listDup_correct [OF ex_list_wf] by (simp add: dup_value_def ex_list_def)

text \<open>
  C26: releasing a list frees every node of it and no other, and calls the free method, when there is
  one, once for each value in the order of the list.
\<close>

theorem listRelease_correct:
  assumes "list_wf h l ns"
  shows "\<exists>h'. listRelease h l = Some (h', if l_free l then map snd ns else []) \<and>
           heap_wf h' \<and> nodes h' = (\<lambda>a. if a \<in> addrs ns then None else nodes h a)"
  using listRelease_ok [OF assms] by blast

theorem listRelease_correct_witness:
  "\<exists>h'. listRelease ex_heap ex_list = Some (h', [1, 2, 3]) \<and> heap_wf h' \<and> nodes h' = Map.empty"
proof -
  have "\<exists>h'. listRelease ex_heap ex_list = Some (h', [1, 2, 3]) \<and> heap_wf h' \<and>
      nodes h' = (\<lambda>a. if a \<in> {1, 2, 3} then None else nodes ex_heap a)"
    using listRelease_correct [OF ex_list_wf] by (simp add: ex_list_def)
  moreover have "(\<lambda>a. if a \<in> {1, 2, 3} then None else nodes ex_heap a) = Map.empty"
    by (auto simp: ex_heap_def)
  ultimately show ?thesis
    by simp
qed

text \<open>The search returns the first node whose value matches the key, or null.\<close>

lemma listSearchKey_ok:
  assumes "list_wf h l ns"
  shows "listSearchKey eq h l key =
     Some (first_node (dropWhile (\<lambda>x. \<not> (case l_match l of Some m \<Rightarrow> m | None \<Rightarrow> eq) (snd x) key) ns) 0)"
  using search_nodes_ok [of h 0 ns "Suc (length ns)"] assms
  by (cases "l_match l") (simp_all add: listSearchKey_def listGetIterator_def list_wf_def)

end
