(* ===== verification/Zskiplist.thy ===== *)
theory Zskiplist
  imports Heap DictTypes SdsText
begin

text \<open>
  The skiplists of sorted sets, the first part of \<^verbatim>\<open>t_zset.c\<close>, on a heap of nodes. The members are
  string objects, of which only the part that comparisons see is modelled, as in the dictionary types.
  The scores are of any linearly ordered type with a zero, which stands for the doubles other than
  NaN: \<^verbatim>\<open>zslInsert\<close> asserts that a score is a number. The spans are 32-bit unsigned integers, the
  ranks that queries return 64-bit ones. The numbers \<^verbatim>\<open>random()\<close> returns are an argument, and the
  calls of \<^verbatim>\<open>decrRefCount\<close> are recorded as the list of the objects they release.
\<close>

subsection \<open>Data types\<close>

record zskiplistLevel =
  zl_forward :: nat
  zl_span :: uint32

record 's zskiplistNode =
  zn_obj :: "str_key option"
  zn_score :: 's
  zn_backward :: nat
  zn_level :: "zskiplistLevel list"

record zskiplist =
  z_header :: nat
  z_tail :: nat
  z_length :: nat
  z_level :: nat

type_synonym 's zheap = "'s zskiplistNode heap"

definition ZSKIPLIST_MAXLEVEL :: nat where
  "ZSKIPLIST_MAXLEVEL = 32"

text \<open>
  \<^verbatim>\<open>compareStringObjects\<close> and \<^verbatim>\<open>equalStringObjects\<close> on the texts of the objects. A string of the
  server has at most 512 MB, so the difference of two lengths is the same as an \<^verbatim>\<open>int\<close>.
\<close>

definition compare_keys :: "str_key \<Rightarrow> str_key \<Rightarrow> int" where
  "compare_keys a b =
     (let astr = key_string a; bstr = key_string b; alen = length astr; blen = length bstr;
          minlen = (if alen < blen then alen else blen);
          cmp = memcmp (take minlen astr) (take minlen bstr)
      in if cmp = 0 then int alen - int blen else cmp)"

definition equal_keys :: "str_key \<Rightarrow> str_key \<Rightarrow> bool" where
  "equal_keys a b \<longleftrightarrow> dictEncObjKeyCompare a b"

subsection \<open>Accesses to the level array\<close>

definition level_get :: "'s zheap \<Rightarrow> nat \<Rightarrow> nat \<Rightarrow> zskiplistLevel option" where
  "level_get h a i = do { n \<leftarrow> node_at h a; arr_get (zn_level n) i }"

definition level_set :: "'s zheap \<Rightarrow> nat \<Rightarrow> nat \<Rightarrow> (zskiplistLevel \<Rightarrow> zskiplistLevel) \<Rightarrow> 's zheap option" where
  "level_set h a i f =
     do {
       l \<leftarrow> level_get h a i;
       node_upd h a (\<lambda>n. n\<lparr>zn_level := (zn_level n)[i := f l]\<rparr>)
     }"

subsection \<open>Creation and release\<close>

text \<open>The levels and the backward pointer of a new node are not set; every caller sets them.\<close>

definition zslCreateNode :: "nat \<Rightarrow> 's \<Rightarrow> str_key option \<Rightarrow> 's zskiplistNode" where
  "zslCreateNode level score obj =
     \<lparr>zn_obj = obj, zn_score = score, zn_backward = 0, zn_level = replicate level \<lparr>zl_forward = 0, zl_span = 0\<rparr>\<rparr>"

definition zslCreate :: "'s :: zero zheap \<Rightarrow> ('s zheap \<times> zskiplist) option" where
  "zslCreate h =
     (let (h, header) = node_new h (zslCreateNode ZSKIPLIST_MAXLEVEL 0 None)
      in do {
           h \<leftarrow> for_each (\<lambda>j h. level_set h header j (\<lambda>l. l\<lparr>zl_forward := 0, zl_span := 0\<rparr>)) [0..<ZSKIPLIST_MAXLEVEL] h;
           h \<leftarrow> node_upd h header (\<lambda>n. n\<lparr>zn_backward := 0\<rparr>);
           Some (h, \<lparr>z_header = header, z_tail = 0, z_length = 0, z_level = 1\<rparr>)
         })"

definition zslFreeNode :: "'s zheap \<Rightarrow> nat \<Rightarrow> ('s zheap \<times> str_key list) option" where
  "zslFreeNode h node =
     do {
       n \<leftarrow> node_at h node;
       obj \<leftarrow> zn_obj n;
       h \<leftarrow> node_free h node;
       Some (h, [obj])
     }"

partial_function (option) zsl_free_loop :: "'s zheap \<Rightarrow> nat \<Rightarrow> str_key list \<Rightarrow> ('s zheap \<times> str_key list) option" where
  "zsl_free_loop h node rel =
     (if node = 0 then Some (h, rel)
      else do {
        l \<leftarrow> level_get h node 0;
        (h, r) \<leftarrow> zslFreeNode h node;
        zsl_free_loop h (zl_forward l) (rel @ r)
      })"

definition zslFree :: "'s zheap \<Rightarrow> zskiplist \<Rightarrow> ('s zheap \<times> str_key list) option" where
  "zslFree h zsl =
     do {
       l \<leftarrow> level_get h (z_header zsl) 0;
       h \<leftarrow> node_free h (z_header zsl);
       zsl_free_loop h (zl_forward l) []
     }"

text \<open>
  \<^verbatim>\<open>ZSKIPLIST_P * 0xFFFF\<close> is 16383.75. The loop takes numbers from the list until one is above it.
\<close>

fun random_level :: "nat list \<Rightarrow> nat \<Rightarrow> (nat \<times> nat list) option" where
  "random_level [] level = None"
| "random_level (r # rs) level =
     (if r mod 2 ^ 16 < 16384 then random_level rs (level + 1) else Some (level, rs))"

definition zslRandomLevel :: "nat list \<Rightarrow> (nat \<times> nat list) option" where
  "zslRandomLevel rs =
     map_option (\<lambda>(level, rs). (if level < ZSKIPLIST_MAXLEVEL then level else ZSKIPLIST_MAXLEVEL, rs))
       (random_level rs 1)"

subsection \<open>The search\<close>

text \<open>
  The inner loop all searches share: follow the forward pointers of level \<open>i\<close> while they are not null
  and the condition \<open>go\<close> holds of the accumulated rank, the span and the next node.
\<close>

partial_function (option) zsl_walk :: "'s zheap \<Rightarrow> ('r \<Rightarrow> uint32 \<Rightarrow> 's zskiplistNode \<Rightarrow> bool) \<Rightarrow>
    ('r \<Rightarrow> uint32 \<Rightarrow> 'r) \<Rightarrow> nat \<Rightarrow> nat \<Rightarrow> 'r \<Rightarrow> (nat \<times> 'r) option" where
  "zsl_walk h go add i x r =
     do {
       l \<leftarrow> level_get h x i;
       if zl_forward l = 0 then Some (x, r)
       else do {
         f \<leftarrow> node_at h (zl_forward l);
         if go r (zl_span l) f then zsl_walk h go add i (zl_forward l) (add r (zl_span l)) else Some (x, r)
       }
     }"

text \<open>
  The outer loop, from the level below \<open>i\<close> down to 0: the last node, the arrays \<^verbatim>\<open>update\<close> and \<^verbatim>\<open>rank\<close>.
\<close>

fun zsl_descend :: "'s zheap \<Rightarrow> ('r \<Rightarrow> uint32 \<Rightarrow> 's zskiplistNode \<Rightarrow> bool) \<Rightarrow> ('r \<Rightarrow> uint32 \<Rightarrow> 'r) \<Rightarrow>
    nat \<Rightarrow> nat \<Rightarrow> 'r \<Rightarrow> (nat \<times> 'r \<times> nat list \<times> 'r list) option" where
  "zsl_descend h go add 0 x r = Some (x, r, [], [])"
| "zsl_descend h go add (Suc i) x r =
     do {
       (x, r) \<leftarrow> zsl_walk h go add i x r;
       (y, r', update, rank) \<leftarrow> zsl_descend h go add i x r;
       Some (y, r', update @ [x], rank @ [r])
     }"

abbreviation no_rank :: "unit \<Rightarrow> uint32 \<Rightarrow> unit" where
  "no_rank r s \<equiv> ()"

text \<open>The order of the list: by score, then by member.\<close>

definition node_before :: "'s :: linorder \<Rightarrow> str_key \<Rightarrow> 's zskiplistNode \<Rightarrow> bool" where
  "node_before score obj f \<longleftrightarrow>
     zn_score f < score \<or> (zn_score f = score \<and> (case zn_obj f of None \<Rightarrow> False | Some o1 \<Rightarrow> compare_keys o1 obj < 0))"

subsection \<open>Insertion\<close>

text \<open>One round of the loop that links the new node \<open>x\<close> in level \<open>i\<close>.\<close>

definition zsl_link :: "nat \<Rightarrow> nat list \<Rightarrow> uint32 list \<Rightarrow> nat \<Rightarrow> 's zheap \<Rightarrow> 's zheap option" where
  "zsl_link x update rank i h =
     do {
       u \<leftarrow> arr_get update i;
       r0 \<leftarrow> arr_get rank 0;
       ri \<leftarrow> arr_get rank i;
       ul \<leftarrow> level_get h u i;
       h \<leftarrow> level_set h x i (\<lambda>l. l\<lparr>zl_forward := zl_forward ul\<rparr>);
       h \<leftarrow> level_set h u i (\<lambda>l. l\<lparr>zl_forward := x\<rparr>);
       ul \<leftarrow> level_get h u i;
       h \<leftarrow> level_set h x i (\<lambda>l. l\<lparr>zl_span := zl_span ul - (r0 - ri)\<rparr>);
       level_set h u i (\<lambda>l. l\<lparr>zl_span := (r0 - ri) + 1\<rparr>)
     }"

text \<open>The result is the list, the new node and the random numbers left.\<close>

definition zslInsert :: "'s :: linorder zheap \<Rightarrow> zskiplist \<Rightarrow> nat list \<Rightarrow> 's \<Rightarrow> str_key \<Rightarrow>
    ('s zheap \<times> zskiplist \<times> nat \<times> nat list) option" where
  "zslInsert h zsl rs score obj =
     do {
       (x, r, update, rank) \<leftarrow>
         zsl_descend h (\<lambda>r s f. node_before score obj f) (+) (z_level zsl) (z_header zsl) (0 :: uint32);
       (level, rs) \<leftarrow> zslRandomLevel rs;
       (h, zsl, update, rank) \<leftarrow>
         (if level > z_level zsl
          then do {
            h \<leftarrow> for_each (\<lambda>i h. level_set h (z_header zsl) i (\<lambda>l. l\<lparr>zl_span := word_of_nat (z_length zsl)\<rparr>))
                   [z_level zsl..<level] h;
            Some (h, zsl\<lparr>z_level := level\<rparr>,
                  update @ replicate (level - z_level zsl) (z_header zsl),
                  rank @ replicate (level - z_level zsl) 0)
          }
          else Some (h, zsl, update, rank));
       (h, x) \<leftarrow> Some (node_new h (zslCreateNode level score (Some obj)));
       h \<leftarrow> for_each (zsl_link x update rank) [0..<level] h;
       h \<leftarrow> for_each (\<lambda>i h. do { u \<leftarrow> arr_get update i; level_set h u i (\<lambda>l. l\<lparr>zl_span := zl_span l + 1\<rparr>) })
              [level..<z_level zsl] h;
       u0 \<leftarrow> arr_get update 0;
       h \<leftarrow> node_upd h x (\<lambda>n. n\<lparr>zn_backward := (if u0 = z_header zsl then 0 else u0)\<rparr>);
       x0 \<leftarrow> level_get h x 0;
       (h, zsl) \<leftarrow>
         (if zl_forward x0 \<noteq> 0
          then do { h \<leftarrow> node_upd h (zl_forward x0) (\<lambda>n. n\<lparr>zn_backward := x\<rparr>); Some (h, zsl) }
          else Some (h, zsl\<lparr>z_tail := x\<rparr>));
       Some (h, zsl\<lparr>z_length := z_length zsl + 1\<rparr>, x, rs)
     }"

subsection \<open>Deletion\<close>

definition zsl_unlink :: "nat \<Rightarrow> nat list \<Rightarrow> nat \<Rightarrow> 's zheap \<Rightarrow> 's zheap option" where
  "zsl_unlink x update i h =
     do {
       u \<leftarrow> arr_get update i;
       ul \<leftarrow> level_get h u i;
       if zl_forward ul = x
       then do {
         xl \<leftarrow> level_get h x i;
         level_set h u i (\<lambda>l. l\<lparr>zl_span := zl_span l + (zl_span xl - 1), zl_forward := zl_forward xl\<rparr>)
       }
       else level_set h u i (\<lambda>l. l\<lparr>zl_span := zl_span l - 1\<rparr>)
     }"

text \<open>The loop that lowers the level of the list.\<close>

fun zsl_lower :: "'s zheap \<Rightarrow> nat \<Rightarrow> nat \<Rightarrow> nat option" where
  "zsl_lower h header 0 = Some 0"
| "zsl_lower h header (Suc level) =
     (if Suc level > 1
      then do {
        l \<leftarrow> level_get h header level;
        if zl_forward l = 0 then zsl_lower h header level else Some (Suc level)
      }
      else Some (Suc level))"

definition zslDeleteNode :: "'s zheap \<Rightarrow> zskiplist \<Rightarrow> nat \<Rightarrow> nat list \<Rightarrow> ('s zheap \<times> zskiplist) option" where
  "zslDeleteNode h zsl x update =
     do {
       h \<leftarrow> for_each (zsl_unlink x update) [0..<z_level zsl] h;
       xn \<leftarrow> node_at h x;
       x0 \<leftarrow> level_get h x 0;
       (h, zsl) \<leftarrow>
         (if zl_forward x0 \<noteq> 0
          then do { h \<leftarrow> node_upd h (zl_forward x0) (\<lambda>n. n\<lparr>zn_backward := zn_backward xn\<rparr>); Some (h, zsl) }
          else Some (h, zsl\<lparr>z_tail := zn_backward xn\<rparr>));
       level \<leftarrow> zsl_lower h (z_header zsl) (z_level zsl);
       Some (h, zsl\<lparr>z_level := level, z_length := z_length zsl - 1\<rparr>)
     }"

text \<open>The result has the flag that says whether the element was found, and the objects released.\<close>

definition zslDelete :: "'s :: linorder zheap \<Rightarrow> zskiplist \<Rightarrow> 's \<Rightarrow> str_key \<Rightarrow>
    ('s zheap \<times> zskiplist \<times> bool \<times> str_key list) option" where
  "zslDelete h zsl score obj =
     do {
       (x, r, update, rank) \<leftarrow>
         zsl_descend h (\<lambda>r s f. node_before score obj f) no_rank (z_level zsl) (z_header zsl) ();
       xl \<leftarrow> level_get h x 0;
       x \<leftarrow> Some (zl_forward xl);
       found \<leftarrow> (if x \<noteq> 0
                 then do {
                   n \<leftarrow> node_at h x;
                   o1 \<leftarrow> zn_obj n;
                   Some (score = zn_score n \<and> equal_keys o1 obj)
                 }
                 else Some False);
       if found
       then do {
         (h, zsl) \<leftarrow> zslDeleteNode h zsl x update;
         (h, rel) \<leftarrow> zslFreeNode h x;
         Some (h, zsl, True, rel)
       }
       else Some (h, zsl, False, [])
     }"

subsection \<open>Ranges of scores\<close>

record 's zrangespec =
  range_min :: 's
  range_max :: 's
  minex :: bool
  maxex :: bool

definition zslValueGteMin :: "'s :: linorder \<Rightarrow> 's zrangespec \<Rightarrow> bool" where
  "zslValueGteMin value spec = (if minex spec then value > range_min spec else value \<ge> range_min spec)"

definition zslValueLteMax :: "'s :: linorder \<Rightarrow> 's zrangespec \<Rightarrow> bool" where
  "zslValueLteMax value spec = (if maxex spec then value < range_max spec else value \<le> range_max spec)"

definition zslIsInRange :: "'s :: linorder zheap \<Rightarrow> zskiplist \<Rightarrow> 's zrangespec \<Rightarrow> bool option" where
  "zslIsInRange h zsl rng =
     (if range_min rng > range_max rng \<or>
         (range_min rng = range_max rng \<and> (minex rng \<or> maxex rng))
      then Some False
      else do {
        tail_in \<leftarrow> (if z_tail zsl = 0 then Some False
                     else do { n \<leftarrow> node_at h (z_tail zsl); Some (zslValueGteMin (zn_score n) rng) });
        if \<not> tail_in then Some False
        else do {
          l \<leftarrow> level_get h (z_header zsl) 0;
          if zl_forward l = 0 then Some False
          else do { n \<leftarrow> node_at h (zl_forward l); Some (zslValueLteMax (zn_score n) rng) }
        }
      })"

definition zslFirstInRange :: "'s :: linorder zheap \<Rightarrow> zskiplist \<Rightarrow> 's zrangespec \<Rightarrow> nat option" where
  "zslFirstInRange h zsl rng =
     do {
       inr \<leftarrow> zslIsInRange h zsl rng;
       if \<not> inr then Some 0
       else do {
         (x, r, update, rank) \<leftarrow>
           zsl_descend h (\<lambda>r s f. \<not> zslValueGteMin (zn_score f) rng) no_rank (z_level zsl) (z_header zsl) ();
         l \<leftarrow> level_get h x 0;
         if zl_forward l = 0 then None
         else do {
           n \<leftarrow> node_at h (zl_forward l);
           Some (if zslValueLteMax (zn_score n) rng then zl_forward l else 0)
         }
       }
     }"

definition zslLastInRange :: "'s :: linorder zheap \<Rightarrow> zskiplist \<Rightarrow> 's zrangespec \<Rightarrow> nat option" where
  "zslLastInRange h zsl rng =
     do {
       inr \<leftarrow> zslIsInRange h zsl rng;
       if \<not> inr then Some 0
       else do {
         (x, r, update, rank) \<leftarrow>
           zsl_descend h (\<lambda>r s f. zslValueLteMax (zn_score f) rng) no_rank (z_level zsl) (z_header zsl) ();
         n \<leftarrow> node_at h x;
         Some (if zslValueGteMin (zn_score n) rng then x else 0)
       }
     }"

subsection \<open>Ranks\<close>

text \<open>A rank is an \<^verbatim>\<open>unsigned long\<close>, a 64-bit word.\<close>

definition add_span :: "uint64 \<Rightarrow> uint32 \<Rightarrow> uint64" where
  "add_span r s = r + ucast s"

fun rank_levels :: "'s :: linorder zheap \<Rightarrow> 's \<Rightarrow> str_key \<Rightarrow> nat \<Rightarrow> nat \<Rightarrow> uint64 \<Rightarrow> uint64 option" where
  "rank_levels h score obj 0 x r = Some 0"
| "rank_levels h score obj (Suc i) x r =
     do {
       (x, r) \<leftarrow> zsl_walk h (\<lambda>r s f. zn_score f < score \<or>
           (zn_score f = score \<and> (case zn_obj f of None \<Rightarrow> False | Some o1 \<Rightarrow> compare_keys o1 obj \<le> 0))) add_span i x r;
       n \<leftarrow> node_at h x;
       if (case zn_obj n of None \<Rightarrow> False | Some o1 \<Rightarrow> equal_keys o1 obj) then Some r
       else rank_levels h score obj i x r
     }"

definition zslGetRank :: "'s :: linorder zheap \<Rightarrow> zskiplist \<Rightarrow> 's \<Rightarrow> str_key \<Rightarrow> uint64 option" where
  "zslGetRank h zsl score obj = rank_levels h score obj (z_level zsl) (z_header zsl) 0"

fun element_levels :: "'s zheap \<Rightarrow> uint64 \<Rightarrow> nat \<Rightarrow> nat \<Rightarrow> uint64 \<Rightarrow> nat option" where
  "element_levels h rank 0 x traversed = Some 0"
| "element_levels h rank (Suc i) x traversed =
     do {
       (x, traversed) \<leftarrow> zsl_walk h (\<lambda>r s f. add_span r s \<le> rank) add_span i x traversed;
       if traversed = rank then Some x else element_levels h rank i x traversed
     }"

definition zslGetElementByRank :: "'s zheap \<Rightarrow> zskiplist \<Rightarrow> uint64 \<Rightarrow> nat option" where
  "zslGetElementByRank h zsl rank = element_levels h rank (z_level zsl) (z_header zsl) 0"

end
