(* ===== verification/ZskiplistProps.thy ===== *)
theory ZskiplistProps
  imports Zskiplist
begin

text \<open>
  The correctness of the skiplists. A skiplist represents a list of entries with the heights of their
  towers; each level is a chain through the header and the towers that reach it, whose spans are the
  differences of the positions.
\<close>

subsection \<open>Views of the heap\<close>

text \<open>The parts of a node: its contents and height, its backward pointer, its levels.\<close>

definition zattr :: "'s zheap \<Rightarrow> nat \<Rightarrow> (str_key option \<times> 's \<times> nat) option" where
  "zattr h a = map_option (\<lambda>n. (zn_obj n, zn_score n, length (zn_level n))) (nodes h a)"

definition zback :: "'s zheap \<Rightarrow> nat \<Rightarrow> nat option" where
  "zback h a = map_option zn_backward (nodes h a)"

lemma zattr_None: "zattr h a = None \<longleftrightarrow> nodes h a = None"
  by (simp add: zattr_def)

text \<open>Heaps with the same contents, up to the levels and backward pointers.\<close>

definition zsame :: "'s zheap \<Rightarrow> 's zheap \<Rightarrow> bool" where
  "zsame h h' \<longleftrightarrow> zattr h' = zattr h \<and> next_node h' = next_node h"

lemma zsame_refl [simp]: "zsame h h"
  by (simp add: zsame_def)

lemma zsame_trans: "zsame h h' \<Longrightarrow> zsame h' h'' \<Longrightarrow> zsame h h''"
  by (simp add: zsame_def)

lemma zsame_heap_wf:
  assumes "zsame h h'"
  shows "heap_wf h' = heap_wf h"
proof -
  have "nodes h' a = None \<longleftrightarrow> nodes h a = None" for a
    using assms zattr_None [of h a] zattr_None [of h' a] by (simp add: zsame_def)
  then show ?thesis
    using assms by (simp add: heap_wf_def zsame_def)
qed

lemma level_get_attr: "(\<exists>l. level_get h a i = Some l) \<longleftrightarrow> (\<exists>o1 s k. zattr h a = Some (o1, s, k) \<and> i < k)"
  by (cases "nodes h a") (auto simp: level_get_def node_at_def zattr_def arr_get_def)

lemma level_set_ok:
  assumes "level_get h a i = Some l"
  shows "\<exists>h'. level_set h a i f = Some h' \<and> zsame h h' \<and> zback h' = zback h \<and>
    (\<forall>b j. level_get h' b j = (if b = a \<and> j = i then Some (f l) else level_get h b j))"
proof -
  obtain n where n: "nodes h a = Some n" "i < length (zn_level n)" "zn_level n ! i = l"
    using assms by (cases "nodes h a") (auto simp: level_get_def node_at_def arr_get_Some_iff)
  let ?h = "h\<lparr>nodes := (nodes h)(a \<mapsto> n\<lparr>zn_level := (zn_level n)[i := f l]\<rparr>)\<rparr>"
  have "level_set h a i f = Some ?h"
    using assms n by (simp add: level_set_def node_upd_def)
  moreover have "zattr ?h = zattr h" "zback ?h = zback h"
    using n by (auto simp: zattr_def zback_def)
  moreover have "\<forall>b j. level_get ?h b j = (if b = a \<and> j = i then Some (f l) else level_get h b j)"
    using n by (auto simp: level_get_def node_at_def arr_get_def)
  ultimately show ?thesis
    by (intro exI [of _ ?h]) (simp add: zsame_def)
qed

lemma node_upd_back:
  assumes "nodes h a = Some n"
  shows "\<exists>h'. node_upd h a (\<lambda>n. n\<lparr>zn_backward := p\<rparr>) = Some h' \<and> zsame h h' \<and>
    zback h' = (zback h)(a \<mapsto> p) \<and> level_get h' = level_get h"
  using assms
  by (auto simp: node_upd_def zsame_def zattr_def zback_def level_get_def node_at_def fun_eq_iff arr_get_def)

subsection \<open>Chains of a level\<close>

text \<open>A chain is a list of positions and addresses; it ends at the position and address \<open>e\<close>.\<close>

fun lvl :: "'s zheap \<Rightarrow> nat \<Rightarrow> (nat \<times> nat) list \<Rightarrow> nat \<times> nat \<Rightarrow> bool" where
  "lvl h i [] e = True"
| "lvl h i (c # cs) e =
     (level_get h (snd c) i =
        Some \<lparr>zl_forward = snd (hd (cs @ [e])), zl_span = word_of_nat (fst (hd (cs @ [e])) - fst c)\<rparr> \<and>
      lvl h i cs e)"

lemma hd_append_end: "hd ((xs @ ys) @ [e]) = hd (xs @ [hd (ys @ [e])])"
  by (cases xs) simp_all

lemma lvl_append [simp]: "lvl h i (xs @ ys) e \<longleftrightarrow> lvl h i xs (hd (ys @ [e])) \<and> lvl h i ys e"
  by (induction xs) (auto simp: hd_append_end [simplified])

lemma lvl_frame: "\<lbrakk>lvl h i cs e; \<And>c. c \<in> set cs \<Longrightarrow> level_get h' (snd c) i = level_get h (snd c) i\<rbrakk> \<Longrightarrow> lvl h' i cs e"
  by (induction cs) auto

definition shift :: "nat \<times> nat \<Rightarrow> nat \<times> nat" where
  "shift c = (Suc (fst c), snd c)"

lemma shift_sel [simp]: "fst (shift c) = Suc (fst c)" "snd (shift c) = snd c"
  by (simp_all add: shift_def)

lemma lvl_shift [simp]: "lvl h i (map shift cs) (shift e) \<longleftrightarrow> lvl h i cs e"
proof (induction cs)
  case (Cons c cs)
  have "hd (map shift cs @ [shift e]) = shift (hd (cs @ [e]))"
    by (cases cs) simp_all
  with Cons show ?case
    by simp
qed simp

subsection \<open>The inner and outer loops\<close>

declare zsl_walk.simps [code]

lemma lvl_node: "lvl h i (c # cs) e \<Longrightarrow> level_get h (snd c) i =
   Some \<lparr>zl_forward = snd (hd (cs @ [e])), zl_span = word_of_nat (fst (hd (cs @ [e])) - fst c)\<rparr>"
  by simp

text \<open>
  The condition \<open>go\<close> with the accumulator \<open>A p\<close> at position \<open>p\<close> holds of a step exactly when it leads to a
  position of at most \<open>k\<close>.
\<close>

definition goes :: "'s zheap \<Rightarrow> ('r \<Rightarrow> uint32 \<Rightarrow> 's zskiplistNode \<Rightarrow> bool) \<Rightarrow> ('r \<Rightarrow> uint32 \<Rightarrow> 'r) \<Rightarrow>
    (nat \<Rightarrow> 'r) \<Rightarrow> nat \<Rightarrow> (nat \<times> nat) set \<Rightarrow> bool" where
  "goes h go add A k C \<longleftrightarrow>
     (\<forall>c \<in> C. \<forall>x \<in> C. fst c < fst x \<longrightarrow>
        (\<exists>f. node_at h (snd x) = Some f \<and> (go (A (fst c)) (word_of_nat (fst x - fst c)) f \<longleftrightarrow> fst x \<le> k)) \<and>
        add (A (fst c)) (word_of_nat (fst x - fst c)) = A (fst x))"

lemma goesD:
  assumes "goes h go add A k C" and "c \<in> C" and "x \<in> C" and "fst c < fst x"
  shows "\<exists>f. node_at h (snd x) = Some f \<and> (go (A (fst c)) (word_of_nat (fst x - fst c)) f \<longleftrightarrow> fst x \<le> k)"
    and "add (A (fst c)) (word_of_nat (fst x - fst c)) = A (fst x)"
  using assms unfolding goes_def by blast+

lemma goes_mono: "goes h go add A k C \<Longrightarrow> D \<subseteq> C \<Longrightarrow> goes h go add A k D"
  unfolding goes_def by blast

lemma zsl_walk_ok:
  assumes "lvl h i (c # xs @ ys) (n, 0)"
    and "goes h go add A k (set (c # xs @ ys))"
    and "\<And>x. x \<in> set (xs @ ys) \<Longrightarrow> 0 < snd x"
    and "\<And>x. x \<in> set xs \<Longrightarrow> fst x \<le> k" and "\<And>y. y \<in> set ys \<Longrightarrow> k < fst y"
    and "sorted_wrt (<) (map fst (c # xs @ ys))"
  shows "zsl_walk h go add i (snd c) (A (fst c)) = Some (snd (last (c # xs)), A (fst (last (c # xs))))"
  using assms
proof (induction xs arbitrary: c)
  case Nil
  show ?case
  proof (cases ys)
    case Nil
    with Nil.prems show ?thesis
      by (subst zsl_walk.simps) simp
  next
    case (Cons y ys')
    have y: "fst c < fst y" "\<not> fst y \<le> k" "0 < snd y"
      using Nil.prems(3,5,6) Cons by (auto simp: not_le)
    have "\<exists>f. node_at h (snd y) = Some f \<and> \<not> go (A (fst c)) (word_of_nat (fst y - fst c)) f"
      using goesD(1) [OF Nil.prems(2), of c y] y Cons by simp
    with Nil.prems(1) y(3) Cons show ?thesis
      by (subst zsl_walk.simps) auto
  qed
next
  case (Cons x xs)
  have x: "fst c < fst x" "fst x \<le> k" "0 < snd x"
    using Cons.prems(3,4,6) by auto
  have step: "\<exists>f. node_at h (snd x) = Some f \<and> go (A (fst c)) (word_of_nat (fst x - fst c)) f"
      "add (A (fst c)) (word_of_nat (fst x - fst c)) = A (fst x)"
    using goesD [OF Cons.prems(2), of c x] x by simp_all
  have "zsl_walk h go add i (snd x) (A (fst x)) = Some (snd (last (x # xs)), A (fst (last (x # xs))))"
  proof (rule Cons.IH)
    show "goes h go add A k (set (x # xs @ ys))"
      by (rule goes_mono [OF Cons.prems(2)]) auto
  qed (use Cons.prems in auto)
  with step x(3) Cons.prems(1) show ?case
    by (subst zsl_walk.simps) auto
qed

subsection \<open>Towers\<close>

text \<open>The chain of level \<open>i\<close> through a list of towers, pairs of an address and a height, from position \<open>p\<close> on.\<close>

fun chain :: "nat \<Rightarrow> nat \<Rightarrow> (nat \<times> nat) list \<Rightarrow> (nat \<times> nat) list" where
  "chain i p [] = []"
| "chain i p (t # ts) = (if i < snd t then [(p, fst t)] else []) @ chain i (Suc p) ts"

lemma chain_append [simp]: "chain i p (xs @ ys) = chain i p xs @ chain i (p + length xs) ys"
  by (induction xs arbitrary: p) simp_all

lemma chain_shift: "chain i (Suc p) ts = map shift (chain i p ts)"
  by (induction ts arbitrary: p) (simp_all add: shift_def)

lemma chain_pos: "c \<in> set (chain i p ts) \<Longrightarrow> p \<le> fst c \<and> fst c < p + length ts"
  by (induction ts arbitrary: p) (fastforce split: if_splits)+

lemma chain_addr: "c \<in> set (chain i p ts) \<Longrightarrow> snd c \<in> fst ` set ts"
  by (induction ts arbitrary: p) (auto split: if_splits)

lemma chain_nth: "c \<in> set (chain i p ts) \<longleftrightarrow>
   p \<le> fst c \<and> fst c < p + length ts \<and> snd c = fst (ts ! (fst c - p)) \<and> i < snd (ts ! (fst c - p))"
proof (induction ts arbitrary: p)
  case (Cons t ts)
  have s: "fst c - p = Suc (fst c - Suc p)" if "Suc p \<le> fst c"
    using that by simp
  show ?case
    using Cons.IH [of "Suc p"] s by (cases "fst c = p"; cases c) (auto simp: not_less_eq_eq Suc_le_eq)
qed simp

lemma chain_sorted: "sorted_wrt (<) (map fst (chain i p ts))"
  by (induction ts arbitrary: p) (auto dest: chain_pos)

lemma chain_mono: "j \<le> i \<Longrightarrow> set (chain i p ts) \<subseteq> set (chain j p ts)"
  by (auto simp: chain_nth)

lemma chain_zero: "\<forall>t \<in> set ts. 0 < snd t \<Longrightarrow> map snd (chain 0 p ts) = map fst ts"
  by (induction ts arbitrary: p) auto

text \<open>The last tower that reaches level \<open>j\<close>: the node \<^verbatim>\<open>update[j]\<close> of a search that ends after \<open>X\<close>.\<close>

definition pre :: "(nat \<times> nat) list \<Rightarrow> nat \<Rightarrow> nat \<times> nat" where
  "pre X j = last (chain j 0 X)"

lemma zsl_walk_pre:
  assumes lv: "lvl h i (chain i 0 (X @ Y)) (n, 0)"
    and len: "length X = Suc k"
    and go: "goes h go add A k (set (chain 0 0 (X @ Y)))"
    and pos: "\<And>t. t \<in> set (X @ Y) \<Longrightarrow> 0 < fst t"
    and c: "c \<in> set (chain i 0 X)"
  shows "zsl_walk h go add i (snd c) (A (fst c)) = Some (snd (pre X i), A (fst (pre X i)))"
proof -
  obtain us vs where split: "chain i 0 X = us @ c # vs"
    using c by (meson split_list)
  have sub: "set (chain i 0 (X @ Y)) \<subseteq> set (chain 0 0 (X @ Y))"
    by (rule chain_mono) simp
  have "zsl_walk h go add i (snd c) (A (fst c)) = Some (snd (last (c # vs)), A (fst (last (c # vs))))"
  proof (rule zsl_walk_ok)
    show "lvl h i (c # vs @ chain i (Suc k) Y) (n, 0)"
      using lv by (simp add: split len)
    show "goes h go add A k (set (c # vs @ chain i (Suc k) Y))"
      by (rule goes_mono [OF go]) (use sub in \<open>auto simp: split len\<close>)
    show "0 < snd x" if "x \<in> set (vs @ chain i (Suc k) Y)" for x
    proof -
      have "x \<in> set (chain i 0 (X @ Y))"
        using that by (auto simp: split len)
      then show ?thesis
        using chain_addr [of x i 0 "X @ Y"] pos by (metis imageE)
    qed
    show "fst x \<le> k" if "x \<in> set vs" for x
      using chain_pos [of x i 0 X] that by (simp add: split len)
    show "k < fst y" if "y \<in> set (chain i (Suc k) Y)" for y
      using chain_pos [OF that] by simp
    show "sorted_wrt (<) (map fst (c # vs @ chain i (Suc k) Y))"
      using chain_sorted [of i 0 "X @ Y"] by (simp add: split len sorted_wrt_append)
  qed
  then show ?thesis
    by (simp add: pre_def split)
qed

lemma pre_lower:
  assumes "c \<in> set (chain i 0 X)"
  shows "i = 0 \<or> pre X i \<in> set (chain (i - 1) 0 X)"
proof -
  have "pre X i \<in> set (chain i 0 X)"
    unfolding pre_def by (rule last_in_set) (use assms in auto)
  then show ?thesis
    using chain_mono [of "i - 1" i 0 X] by auto
qed

lemma zsl_descend_ok:
  assumes lv: "\<And>j. j < L \<Longrightarrow> lvl h j (chain j 0 (X @ Y)) (n, 0)"
    and len: "length X = Suc k"
    and go: "goes h go add A k (set (chain 0 0 (X @ Y)))"
    and pos: "\<And>t. t \<in> set (X @ Y) \<Longrightarrow> 0 < fst t"
  shows "\<lbrakk>i \<le> L; i = 0 \<or> c \<in> set (chain (i - 1) 0 X)\<rbrakk> \<Longrightarrow>
     zsl_descend h go add i (snd c) (A (fst c)) =
       Some (if i = 0 then snd c else snd (pre X 0), if i = 0 then A (fst c) else A (fst (pre X 0)),
         map (\<lambda>j. snd (pre X j)) [0..<i], map (\<lambda>j. A (fst (pre X j))) [0..<i])"
proof (induction i arbitrary: c)
  case (Suc i)
  have c: "c \<in> set (chain i 0 X)" and i: "i < L"
    using Suc.prems by simp_all
  have "zsl_descend h go add i (snd (pre X i)) (A (fst (pre X i))) =
       Some (snd (pre X 0), A (fst (pre X 0)), map (\<lambda>j. snd (pre X j)) [0..<i], map (\<lambda>j. A (fst (pre X j))) [0..<i])"
    using Suc.IH [OF _ pre_lower [OF c]] i by (cases "i = 0") simp_all
  then show ?case
    using zsl_walk_pre [OF lv [OF i] len go pos c] by simp
qed simp

subsection \<open>The invariant\<close>

record 's zentry =
  e_addr :: nat
  e_height :: nat
  e_score :: 's
  e_obj :: str_key

abbreviation tower :: "'s zentry \<Rightarrow> nat \<times> nat" where
  "tower e \<equiv> (e_addr e, e_height e)"

definition towers :: "zskiplist \<Rightarrow> 's zentry list \<Rightarrow> (nat \<times> nat) list" where
  "towers z ns = (z_header z, ZSKIPLIST_MAXLEVEL) # map tower ns"

fun last_addr :: "nat \<Rightarrow> 's zentry list \<Rightarrow> nat" where
  "last_addr p [] = p"
| "last_addr p (e # es) = last_addr (e_addr e) es"

fun backs :: "'s zheap \<Rightarrow> nat \<Rightarrow> 's zentry list \<Rightarrow> bool" where
  "backs h p [] = True"
| "backs h p (e # es) = (zback h (e_addr e) = Some p \<and> backs h (e_addr e) es)"

definition entry_wf :: "'s zheap \<Rightarrow> nat \<Rightarrow> 's zentry \<Rightarrow> bool" where
  "entry_wf h L e \<longleftrightarrow>
     zattr h (e_addr e) = Some (Some (e_obj e), e_score e, e_height e) \<and> 0 < e_height e \<and> e_height e \<le> L"

text \<open>The shape of a skiplist, without the order of its entries.\<close>

definition zsl_wf :: "'s zheap \<Rightarrow> zskiplist \<Rightarrow> 's zentry list \<Rightarrow> bool" where
  "zsl_wf h z ns \<longleftrightarrow>
     heap_wf h \<and> (\<exists>s. zattr h (z_header z) = Some (None, s, ZSKIPLIST_MAXLEVEL)) \<and>
     (\<forall>e \<in> set ns. entry_wf h (z_level z) e) \<and> distinct (z_header z # map e_addr ns) \<and>
     (\<forall>i < z_level z. lvl h i (chain i 0 (towers z ns)) (length ns, 0)) \<and>
     (\<forall>i. z_level z \<le> i \<and> i < ZSKIPLIST_MAXLEVEL \<longrightarrow> (\<exists>s. level_get h (z_header z) i = Some \<lparr>zl_forward = 0, zl_span = s\<rparr>)) \<and>
     0 < z_level z \<and> z_level z \<le> ZSKIPLIST_MAXLEVEL \<and>
     (z_level z = 1 \<or> (\<exists>e \<in> set ns. e_height e = z_level z)) \<and>
     backs h 0 ns \<and> z_tail z = last_addr 0 ns \<and> z_length z = length ns"

lemma last_addr_append [simp]: "last_addr p (xs @ ys) = last_addr (last_addr p xs) ys"
  by (induction xs arbitrary: p) simp_all

lemma backs_append [simp]: "backs h p (xs @ ys) \<longleftrightarrow> backs h p xs \<and> backs h (last_addr p xs) ys"
  by (induction xs arbitrary: p) simp_all

lemma backs_frame: "\<lbrakk>backs h p es; \<And>e. e \<in> set es \<Longrightarrow> zback h' (e_addr e) = zback h (e_addr e)\<rbrakk> \<Longrightarrow> backs h' p es"
  by (induction es arbitrary: p) auto

lemma last_addr_last: "xs \<noteq> [] \<Longrightarrow> last_addr p xs = e_addr (last xs)"
  by (induction xs arbitrary: p) auto

lemma towers_append: "towers z (xs @ ys) = towers z xs @ map tower ys"
  by (simp add: towers_def)

lemma length_towers [simp]: "length (towers z ns) = Suc (length ns)"
  by (simp add: towers_def)

lemma towers_upd [simp]:
  "towers (z\<lparr>z_level := l\<rparr>) ns = towers z ns" "towers (z\<lparr>z_tail := t\<rparr>) ns = towers z ns"
  "towers (z\<lparr>z_length := k\<rparr>) ns = towers z ns"
  by (simp_all add: towers_def)

text \<open>Levels above all towers have the header only.\<close>

lemma chain_high: "\<forall>t \<in> set ts. snd t \<le> i \<Longrightarrow> chain i p ts = []"
  by (induction ts arbitrary: p) auto

lemma chain_header:
  assumes "\<forall>e \<in> set ns. e_height e \<le> i" and "i < ZSKIPLIST_MAXLEVEL"
  shows "chain i 0 (towers z ns) = [(0, z_header z)]"
  using assms by (simp add: towers_def chain_high)

lemma chain_towers_ne: "i < ZSKIPLIST_MAXLEVEL \<Longrightarrow> chain i 0 (towers z ns) \<noteq> []"
  by (simp add: towers_def)

lemma pre_in: "i < ZSKIPLIST_MAXLEVEL \<Longrightarrow> pre (towers z ns) i \<in> set (chain i 0 (towers z ns))"
  by (simp add: pre_def chain_towers_ne)

lemma pre_split:
  assumes "i < ZSKIPLIST_MAXLEVEL"
  obtains ps where "chain i 0 (towers z xs) = ps @ [pre (towers z xs) i]"
  using assms by (intro that [of "butlast (chain i 0 (towers z xs))"]) (simp add: pre_def chain_towers_ne)

lemma pre_pos: "i < ZSKIPLIST_MAXLEVEL \<Longrightarrow> fst (pre (towers z xs) i) \<le> length xs"
  using chain_pos [OF pre_in, of i z xs] by simp

lemma pre_zero:
  assumes "\<forall>e \<in> set xs. 0 < e_height e"
  shows "pre (towers z xs) 0 = (length xs, last_addr (z_header z) xs)"
proof (cases xs rule: rev_cases)
  case Nil
  then show ?thesis
    by (simp add: pre_def towers_def ZSKIPLIST_MAXLEVEL_def)
next
  case (snoc ys y)
  then show ?thesis
    using assms by (simp add: pre_def towers_append)
qed

lemma tower_addr_pos:
  assumes "zsl_wf h z ns" and "t \<in> set (towers z ns)"
  shows "0 < fst t" "fst t < next_node h"
proof -
  have "zattr h (fst t) \<noteq> None"
    using assms by (auto simp: zsl_wf_def towers_def entry_wf_def)
  then show "0 < fst t" "fst t < next_node h"
    using assms(1) by (auto simp: zsl_wf_def heap_wf_def zattr_None)
qed

subsection \<open>Loops over the levels\<close>

text \<open>A loop whose round \<open>i\<close> changes level \<open>i\<close> only, to \<open>G i\<close>.\<close>

lemma for_levels:
  assumes body: "\<And>i h'. \<lbrakk>i \<in> I; zsame h h'; \<forall>b. level_get h' b i = level_get h b i\<rbrakk> \<Longrightarrow>
      \<exists>h''. body i h' = Some h'' \<and> zsame h' h'' \<and> zback h'' = zback h' \<and>
        (\<forall>b j. level_get h'' b j = (if j = i then G i b else level_get h' b j))"
    and "distinct is" and "set is \<subseteq> I" and "zsame h h1"
    and "\<forall>b. \<forall>j \<in> set is. level_get h1 b j = level_get h b j"
  shows "\<exists>h'. for_each body is h1 = Some h' \<and> zsame h1 h' \<and> zback h' = zback h1 \<and>
        (\<forall>b j. level_get h' b j = (if j \<in> set is then G j b else level_get h1 b j))"
  using assms(2-)
proof (induction "is" arbitrary: h1)
  case (Cons i "is")
  obtain h2 where h2: "body i h1 = Some h2" "zsame h1 h2" "zback h2 = zback h1"
      "\<forall>b j. level_get h2 b j = (if j = i then G i b else level_get h1 b j)"
    using body [of i h1] Cons.prems by auto
  have "zsame h h2"
    using zsame_trans Cons.prems(3) h2(2) by blast
  moreover have "\<forall>b. \<forall>j \<in> set is. level_get h2 b j = level_get h b j"
    using Cons.prems(1,4) h2(4) by auto
  ultimately obtain h' where "for_each body is h2 = Some h'" "zsame h2 h'" "zback h' = zback h2"
      "\<forall>b j. level_get h' b j = (if j \<in> set is then G j b else level_get h2 b j)"
    using Cons.IH [of h2] Cons.prems(1,2) by auto
  with h2 show ?case
    using zsame_trans [of h1 h2 h'] Cons.prems(1) by auto
qed simp

lemma for_levels_from:
  assumes "\<And>i h'. \<lbrakk>i \<in> set is; zsame h h'; \<forall>b. level_get h' b i = level_get h b i\<rbrakk> \<Longrightarrow>
      \<exists>h''. body i h' = Some h'' \<and> zsame h' h'' \<and> zback h'' = zback h' \<and>
        (\<forall>b j. level_get h'' b j = (if j = i then G i b else level_get h' b j))"
    and "distinct is"
  obtains h' where "for_each body is h = Some h'" "zsame h h'" "zback h' = zback h"
      "\<And>b j. level_get h' b j = (if j \<in> set is then G j b else level_get h b j)"
proof -
  have "\<exists>h'. for_each body is h = Some h' \<and> zsame h h' \<and> zback h' = zback h \<and>
        (\<forall>b j. level_get h' b j = (if j \<in> set is then G j b else level_get h b j))"
    by (rule for_levels [where I = "set is" and h = h]) (use assms in auto)
  then show ?thesis
    using that by blast
qed

text \<open>The views determine a node.\<close>

lemma views_node:
  assumes "zattr h' b = zattr h b" "zback h' b = zback h b" "\<And>j. level_get h' b j = level_get h b j"
  shows "nodes h' b = nodes h b"
proof (cases "nodes h b")
  case None
  then show ?thesis
    using assms(1) by (simp add: zattr_def)
next
  case (Some n)
  then obtain n' where n': "nodes h' b = Some n'"
    using assms(1) by (auto simp: zattr_def)
  have "zn_level n' = zn_level n"
  proof (rule nth_equalityI)
    show "length (zn_level n') = length (zn_level n)"
      using assms(1) Some n' by (simp add: zattr_def)
    then show "zn_level n' ! j = zn_level n ! j" if "j < length (zn_level n')" for j
      using assms(3) [of j] Some n' that by (simp add: level_get_def node_at_def arr_get_def)
  qed
  then show ?thesis
    using assms(1,2) Some n' by (simp add: zattr_def zback_def)
qed

subsection \<open>Searches\<close>

text \<open>A condition on the next entry that holds of \<open>xs\<close> and not of \<open>ys\<close> stops between them.\<close>

lemma chain_entries:
  assumes "c \<in> set (chain i 0 (towers z ns))" and "0 < fst c"
  shows "fst c - 1 < length ns" "snd c = e_addr (ns ! (fst c - 1))"
proof -
  obtain q where q: "fst c = Suc q"
    using assms(2) by (cases "fst c") auto
  show "fst c - 1 < length ns" "snd c = e_addr (ns ! (fst c - 1))"
    using assms(1) q by (auto simp: chain_nth towers_def)
qed

lemma entry_node:
  assumes "zsl_wf h z ns" and "e \<in> set ns"
  obtains f where "node_at h (e_addr e) = Some f" "zn_obj f = Some (e_obj e)" "zn_score f = e_score e"
    "length (zn_level f) = e_height e"
proof -
  have "zattr h (e_addr e) = Some (Some (e_obj e), e_score e, e_height e)"
    using assms by (simp add: zsl_wf_def entry_wf_def)
  then show ?thesis
    using that by (cases "nodes h (e_addr e)") (auto simp: zattr_def node_at_def)
qed

lemma goes_entries:
  assumes wf: "zsl_wf h z (xs @ ys)"
    and go: "\<And>p q f e. \<lbrakk>p \<le> q; q < length (xs @ ys); e = (xs @ ys) ! q; zn_obj f = Some (e_obj e); zn_score f = e_score e\<rbrakk> \<Longrightarrow>
        go (A p) (word_of_nat (Suc q - p)) f \<longleftrightarrow> q < length xs"
    and add: "\<And>p q. \<lbrakk>p < q; q \<le> length (xs @ ys)\<rbrakk> \<Longrightarrow> add (A p) (word_of_nat (q - p)) = A q"
  shows "goes h go add A (length xs) (set (chain 0 0 (towers z (xs @ ys))))"
  unfolding goes_def
proof (intro ballI impI conjI)
  fix c x
  assume x: "x \<in> set (chain 0 0 (towers z (xs @ ys)))" and lt: "fst c < fst x"
  define q where "q = fst x - 1"
  have q: "fst x = Suc q" "q < length (xs @ ys)" "snd x = e_addr ((xs @ ys) ! q)"
    using chain_entries [OF x] lt by (auto simp: q_def)
  obtain f where f: "node_at h (e_addr ((xs @ ys) ! q)) = Some f"
      "zn_obj f = Some (e_obj ((xs @ ys) ! q))" "zn_score f = e_score ((xs @ ys) ! q)"
    using entry_node [OF wf, of "(xs @ ys) ! q"] q(2) nth_mem by blast
  have "go (A (fst c)) (word_of_nat (Suc q - fst c)) f \<longleftrightarrow> q < length xs"
    using go f(2,3) q(2) lt q(1) by (metis less_Suc_eq_le)
  then show "\<exists>f. node_at h (snd x) = Some f \<and>
      (go (A (fst c)) (word_of_nat (fst x - fst c)) f \<longleftrightarrow> fst x \<le> length xs)"
    using f(1) q by (auto simp: Suc_le_eq)
  show "add (A (fst c)) (word_of_nat (fst x - fst c)) = A (fst x)"
    by (rule add [OF lt]) (use q in simp)
qed

lemma zsl_search:
  assumes wf: "zsl_wf h z (xs @ ys)"
    and go: "goes h go add A (length xs) (set (chain 0 0 (towers z (xs @ ys))))"
  shows "zsl_descend h go add (z_level z) (z_header z) (A 0) =
     Some (last_addr (z_header z) xs, A (length xs),
       map (\<lambda>j. snd (pre (towers z xs) j)) [0..<z_level z], map (\<lambda>j. A (fst (pre (towers z xs) j))) [0..<z_level z])"
proof -
  have L: "0 < z_level z" "z_level z \<le> ZSKIPLIST_MAXLEVEL" "\<forall>e \<in> set xs. 0 < e_height e"
    using wf by (auto simp: zsl_wf_def entry_wf_def)
  have "zsl_descend h go add (z_level z) (snd (0 :: nat, z_header z)) (A (fst (0 :: nat, z_header z))) =
     Some (if z_level z = 0 then snd (0 :: nat, z_header z) else snd (pre (towers z xs) 0),
       if z_level z = 0 then A (fst (0 :: nat, z_header z)) else A (fst (pre (towers z xs) 0)),
       map (\<lambda>j. snd (pre (towers z xs) j)) [0..<z_level z], map (\<lambda>j. A (fst (pre (towers z xs) j))) [0..<z_level z])"
  proof (rule zsl_descend_ok [where L = "z_level z" and Y = "map tower ys"])
    show "lvl h j (chain j 0 (towers z xs @ map tower ys)) (length (xs @ ys), 0)" if "j < z_level z" for j
      using wf that unfolding towers_append [symmetric] by (simp add: zsl_wf_def)
    show "goes h go add A (length xs) (set (chain 0 0 (towers z xs @ map tower ys)))"
      using go unfolding towers_append .
    show "0 < fst t" if "t \<in> set (towers z xs @ map tower ys)" for t
      using tower_addr_pos [OF wf, of t] that unfolding towers_append by simp
    show "z_level z = 0 \<or> (0, z_header z) \<in> set (chain (z_level z - 1) 0 (towers z xs))"
      using L by (auto simp: towers_def)
  qed simp_all
  then show ?thesis
    using L pre_zero [OF L(3), of z] by simp
qed

subsection \<open>Insertion\<close>

lemma zsl_link_ok:
  assumes u: "arr_get update i = Some u" and r0: "arr_get rank 0 = Some r0" and ri: "arr_get rank i = Some ri"
    and ul: "level_get h u i = Some \<lparr>zl_forward = fw, zl_span = sp\<rparr>" and xl: "level_get h x i = Some xl" and ne: "u \<noteq> x"
  shows "\<exists>h'. zsl_link x update rank i h = Some h' \<and> zsame h h' \<and> zback h' = zback h \<and>
    (\<forall>b j. level_get h' b j = (if j = i then
        if b = u then Some \<lparr>zl_forward = x, zl_span = (r0 - ri) + 1\<rparr>
        else if b = x then Some \<lparr>zl_forward = fw, zl_span = sp - (r0 - ri)\<rparr>
        else level_get h b i
      else level_get h b j))"
proof -
  obtain h1 where h1: "level_set h x i (\<lambda>l. l\<lparr>zl_forward := fw\<rparr>) = Some h1" "zsame h h1" "zback h1 = zback h"
      "\<forall>b j. level_get h1 b j = (if b = x \<and> j = i then Some (xl\<lparr>zl_forward := fw\<rparr>) else level_get h b j)"
    using level_set_ok [OF xl] by blast
  have "level_get h1 u i = Some \<lparr>zl_forward = fw, zl_span = sp\<rparr>"
    using h1(4) ul ne by simp
  then obtain h2 where h2: "level_set h1 u i (\<lambda>l. l\<lparr>zl_forward := x\<rparr>) = Some h2" "zsame h1 h2" "zback h2 = zback h1"
      "\<forall>b j. level_get h2 b j = (if b = u \<and> j = i then Some \<lparr>zl_forward = x, zl_span = sp\<rparr> else level_get h1 b j)"
    using level_set_ok by fastforce
  have "level_get h2 x i = Some (xl\<lparr>zl_forward := fw\<rparr>)"
    using h1(4) h2(4) ne by simp
  then obtain h3 where h3: "level_set h2 x i (\<lambda>l. l\<lparr>zl_span := sp - (r0 - ri)\<rparr>) = Some h3"
      "zsame h2 h3" "zback h3 = zback h2"
      "\<forall>b j. level_get h3 b j = (if b = x \<and> j = i then
         Some (xl\<lparr>zl_forward := fw, zl_span := sp - (r0 - ri)\<rparr>) else level_get h2 b j)"
    using level_set_ok by fastforce
  have "level_get h3 u i = Some \<lparr>zl_forward = x, zl_span = sp\<rparr>"
    using h2(4) h3(4) ne by simp
  then obtain h4 where h4: "level_set h3 u i (\<lambda>l. l\<lparr>zl_span := (r0 - ri) + 1\<rparr>) = Some h4"
      "zsame h3 h4" "zback h4 = zback h3"
      "\<forall>b j. level_get h4 b j = (if b = u \<and> j = i then
         Some \<lparr>zl_forward = x, zl_span = (r0 - ri) + 1\<rparr> else level_get h3 b j)"
    using level_set_ok by fastforce
  have "zsl_link x update rank i h = Some h4"
    using u r0 ri ul h1(1) h2(1,4) h3(1) h4(1) by (simp add: zsl_link_def)
  moreover have "zsame h h4"
    using h1(2) h2(2) h3(2) h4(2) zsame_trans by blast
  moreover have "\<forall>b j. level_get h4 b j = (if j = i then
        if b = u then Some \<lparr>zl_forward = x, zl_span = (r0 - ri) + 1\<rparr>
        else if b = x then Some \<lparr>zl_forward = fw, zl_span = sp - (r0 - ri)\<rparr>
        else level_get h b i
      else level_get h b j)"
    using h1(4) h2(4) h3(4) h4(4) by auto
  ultimately show ?thesis
    using h1(3) h2(3) h3(3) h4(3) by auto
qed

lemma zslRandomLevel_range:
  assumes "zslRandomLevel rs = Some (level, rs')"
  shows "0 < level" "level \<le> ZSKIPLIST_MAXLEVEL"
proof -
  have "random_level rs k = Some (l, rs'') \<Longrightarrow> k \<le> l" for k l rs''
    by (induction rs k rule: random_level.induct) (fastforce split: if_splits)+
  from this [of 1] show "0 < level" "level \<le> ZSKIPLIST_MAXLEVEL"
    using assms by (auto simp: zslRandomLevel_def ZSKIPLIST_MAXLEVEL_def split: if_splits)
qed

lemma node_new_views:
  assumes "heap_wf h" and "node_new h (zslCreateNode L s (Some obj)) = (h', x)"
  shows "x = next_node h" "heap_wf h'" "next_node h' = Suc x" "zattr h' = (zattr h)(x \<mapsto> (Some obj, s, L))"
    "zback h' = (zback h)(x \<mapsto> 0)"
    "level_get h' b j = (if b = x then if j < L then Some \<lparr>zl_forward = 0, zl_span = 0\<rparr> else None else level_get h b j)"
  using node_new_wf [OF assms(1), of "zslCreateNode L s (Some obj)"] assms(2)
  by (auto simp: zattr_def zback_def level_get_def node_at_def arr_get_def zslCreateNode_def fun_eq_iff)

text \<open>What one level looks like after the insertion, when the new node reaches it and when not.\<close>

lemma insert_level:
  assumes "lvl h i (ps @ u # ys) e" and "fst u \<le> k" and "k \<le> fst (hd (ys @ [e]))"
    and "level_get h' (snd u) i = Some \<lparr>zl_forward = x, zl_span = (word_of_nat k - word_of_nat (fst u)) + 1\<rparr>"
    and "level_get h' x i = Some \<lparr>zl_forward = snd (hd (ys @ [e])),
           zl_span = word_of_nat (fst (hd (ys @ [e])) - fst u) - (word_of_nat k - word_of_nat (fst u))\<rparr>"
    and "\<And>c. c \<in> set ps \<union> set ys \<Longrightarrow> level_get h' (snd c) i = level_get h (snd c) i"
  shows "lvl h' i (ps @ u # (Suc k, x) # map shift ys) (shift e)"
proof -
  have hd_shift: "hd (map shift ys @ [shift e]) = shift (hd (ys @ [e]))"
    by (cases ys) simp_all
  have "lvl h' i ps u"
    by (rule lvl_frame [of h]) (use assms(1,6) in auto)
  moreover have "lvl h' i ys e"
    by (rule lvl_frame [of h]) (use assms(1,6) in auto)
  moreover have "word_of_nat (Suc k - fst u) = word_of_nat k - word_of_nat (fst u) + (1 :: uint32)"
    using assms(2) by (simp add: of_nat_diff)
  moreover have "word_of_nat (Suc (fst (hd (ys @ [e]))) - Suc k) =
      word_of_nat (fst (hd (ys @ [e])) - fst u) - (word_of_nat k - word_of_nat (fst u) :: uint32)"
    using assms(2,3) by (simp add: of_nat_diff)
  ultimately show ?thesis
    using assms(4,5) by (simp add: hd_shift)
qed

lemma bump_level:
  assumes "lvl h i (ps @ u # ys) e" and "fst u \<le> fst (hd (ys @ [e]))"
    and "level_get h' (snd u) i = Some \<lparr>zl_forward = snd (hd (ys @ [e])),
           zl_span = word_of_nat (fst (hd (ys @ [e])) - fst u) + 1\<rparr>"
    and "\<And>c. c \<in> set ps \<union> set ys \<Longrightarrow> level_get h' (snd c) i = level_get h (snd c) i"
  shows "lvl h' i (ps @ u # map shift ys) (shift e)"
proof -
  have hd_shift: "hd (map shift ys @ [shift e]) = shift (hd (ys @ [e]))"
    by (cases ys) simp_all
  have "lvl h' i ps u"
    by (rule lvl_frame [of h]) (use assms(1,4) in auto)
  moreover have "lvl h' i ys e"
    by (rule lvl_frame [of h]) (use assms(1,4) in auto)
  moreover have "word_of_nat (Suc (fst (hd (ys @ [e]))) - fst u) =
      word_of_nat (fst (hd (ys @ [e])) - fst u) + (1 :: uint32)"
    using assms(2) by (simp add: of_nat_diff)
  ultimately show ?thesis
    using assms(3) by (simp add: hd_shift)
qed

text \<open>The position and address at level \<open>i\<close> that follow the towers of \<open>xs\<close>.\<close>

definition suc_tower :: "'s zentry list \<Rightarrow> 's zentry list \<Rightarrow> nat \<Rightarrow> nat \<times> nat" where
  "suc_tower xs ys i = hd (chain i (Suc (length xs)) (map tower ys) @ [(length (xs @ ys), 0)])"

lemma suc_tower_pos: "length xs \<le> fst (suc_tower xs ys i)"
  using chain_pos [of "hd (chain i (Suc (length xs)) (map tower ys))" i "Suc (length xs)" "map tower ys"]
  by (cases "chain i (Suc (length xs)) (map tower ys)") (auto simp: suc_tower_def)

lemma level_split:
  assumes lv: "lvl h i (chain i 0 (towers z (xs @ ys))) (length (xs @ ys), 0)" and i: "i < ZSKIPLIST_MAXLEVEL"
  obtains ps where "chain i 0 (towers z xs) = ps @ [pre (towers z xs) i]"
    and "lvl h i (ps @ pre (towers z xs) i # chain i (Suc (length xs)) (map tower ys)) (length (xs @ ys), 0)"
proof -
  obtain ps where ps: "chain i 0 (towers z xs) = ps @ [pre (towers z xs) i]"
    using pre_split [OF i] by blast
  have "lvl h i (ps @ pre (towers z xs) i # chain i (Suc (length xs)) (map tower ys)) (length (xs @ ys), 0)"
    using lv by (simp add: towers_append ps)
  with ps show ?thesis
    using that by simp
qed

lemma pre_level:
  assumes "lvl h i (chain i 0 (towers z (xs @ ys))) (length (xs @ ys), 0)" and "i < ZSKIPLIST_MAXLEVEL"
  shows "level_get h (snd (pre (towers z xs) i)) i =
      Some \<lparr>zl_forward = snd (suc_tower xs ys i),
            zl_span = word_of_nat (fst (suc_tower xs ys i) - fst (pre (towers z xs) i))\<rparr>"
  using level_split [OF assms] by (auto simp: suc_tower_def)

lemma pre_addr:
  assumes "i < ZSKIPLIST_MAXLEVEL"
  shows "snd (pre (towers z xs) i) \<in> set (z_header z # map e_addr xs)"
  using chain_addr [OF pre_in [OF assms, of z xs]] by (auto simp: towers_def)

lemma chain_addr_distinct: "distinct (map fst ts) \<Longrightarrow> distinct (map snd (chain i p ts))"
  by (induction ts arbitrary: p) (auto, metis chain_addr snd_conv)

lemma level_others:
  assumes dist: "distinct (z_header z # map e_addr (xs @ ys))" and ps: "chain i 0 (towers z xs) = ps @ [u]"
    and c: "c \<in> set ps \<union> set (chain i (Suc (length xs)) (map tower ys))"
  shows "snd c \<noteq> snd u" "snd c \<in> set (z_header z # map e_addr (xs @ ys))"
proof -
  have ch: "chain i 0 (towers z (xs @ ys)) = ps @ u # chain i (Suc (length xs)) (map tower ys)"
    by (simp add: towers_append ps)
  have "distinct (map fst (towers z (xs @ ys)))"
    using dist by (simp add: towers_def comp_def)
  from chain_addr_distinct [OF this, of i 0]
  have "snd u \<notin> snd ` (set ps \<union> set (chain i (Suc (length xs)) (map tower ys)))"
    by (simp add: ch image_Un)
  then show "snd c \<noteq> snd u"
    using c by (metis imageI)
  have "c \<in> set (chain i 0 (towers z (xs @ ys)))"
    using c by (auto simp: ch)
  from chain_addr [OF this] show "snd c \<in> set (z_header z # map e_addr (xs @ ys))"
    by (auto simp: towers_def)
qed

text \<open>Level \<open>i\<close> after the insertion of a node at \<open>x\<close> of the given height.\<close>

definition inserted_level :: "'s zheap \<Rightarrow> zskiplist \<Rightarrow> 's zentry list \<Rightarrow> 's zentry list \<Rightarrow> nat \<Rightarrow> nat \<Rightarrow> nat \<Rightarrow> nat \<Rightarrow>
    zskiplistLevel option" where
  "inserted_level h z xs ys x level i b =
     (let u = pre (towers z xs) i; e = suc_tower xs ys i;
          d = word_of_nat (length xs) - word_of_nat (fst u); sp = word_of_nat (fst e - fst u)
      in if b = snd u
         then Some (if i < level then \<lparr>zl_forward = x, zl_span = d + 1\<rparr> else \<lparr>zl_forward = snd e, zl_span = sp + 1\<rparr>)
         else if b = x \<and> i < level then Some \<lparr>zl_forward = snd e, zl_span = sp - d\<rparr>
         else level_get h b i)"

lemma lvl_inserted:
  assumes lv: "lvl h i (chain i 0 (towers z (xs @ ys))) (length (xs @ ys), 0)" and i: "i < ZSKIPLIST_MAXLEVEL"
    and dist: "distinct (z_header z # map e_addr (xs @ ys))" and x: "x \<notin> set (z_header z # map e_addr (xs @ ys))"
    and view: "\<And>b. level_get h' b i = inserted_level h z xs ys x level i b"
  shows "lvl h' i (chain i 0 (towers z xs @ (x, level) # map tower ys)) (Suc (length (xs @ ys)), 0)"
proof -
  let ?u = "pre (towers z xs) i" and ?ys = "chain i (Suc (length xs)) (map tower ys)"
  obtain ps where ps: "chain i 0 (towers z xs) = ps @ [?u]" and lv': "lvl h i (ps @ ?u # ?ys) (length (xs @ ys), 0)"
    using level_split [OF lv i] by blast
  have ux: "snd ?u \<noteq> x"
    using pre_addr [OF i, of z xs] x by auto
  have others: "level_get h' (snd c) i = level_get h (snd c) i" if "c \<in> set ps \<union> set ?ys" for c
    using level_others [OF dist ps that] x by (auto simp: view inserted_level_def Let_def)
  have pos: "fst ?u \<le> length xs" "length xs \<le> fst (hd (?ys @ [(length (xs @ ys), 0)]))"
    using pre_pos [OF i] suc_tower_pos [of xs ys i] by (simp_all add: suc_tower_def)
  have sh: "shift (length xs + length ys, 0) = (Suc (length xs + length ys), 0)" "chain i (Suc (Suc (length xs))) (map tower ys) = map shift ?ys"
    by (simp_all add: shift_def chain_shift)
  show ?thesis
  proof (cases "i < level")
    case True
    have "lvl h' i (ps @ ?u # (Suc (length xs), x) # map shift ?ys) (shift (length (xs @ ys), 0))"
      by (rule insert_level [OF lv' pos _ _ others])
        (use True ux in \<open>simp_all add: view inserted_level_def suc_tower_def Let_def\<close>)
    with True show ?thesis
      by (simp add: ps sh del: lvl_shift)
  next
    case False
    have "lvl h' i (ps @ ?u # map shift ?ys) (shift (length (xs @ ys), 0))"
      by (rule bump_level [OF lv' _ _ others])
        (use False pos in \<open>simp_all add: view inserted_level_def suc_tower_def Let_def\<close>)
    with False show ?thesis
      by (simp add: ps sh del: lvl_shift)
  qed
qed

lemma link_all:
  assumes lv: "\<And>i. i < L \<Longrightarrow> lvl h i (chain i 0 (towers z (xs @ ys))) (length (xs @ ys), 0)"
    and L: "level \<le> L" "L \<le> ZSKIPLIST_MAXLEVEL" "0 < level" and hts: "\<forall>e \<in> set xs. 0 < e_height e"
    and x: "x \<notin> set (z_header z # map e_addr xs)" and xl: "\<And>i. i < level \<Longrightarrow> \<exists>l. level_get h x i = Some l"
  defines "update \<equiv> map (\<lambda>j. snd (pre (towers z xs) j)) [0..<L]"
    and "rank \<equiv> map (\<lambda>j. word_of_nat (fst (pre (towers z xs) j)) :: uint32) [0..<L]"
  obtains h2 h3 where "for_each (zsl_link x update rank) [0..<level] h = Some h2"
    and "for_each (\<lambda>i h. do { u \<leftarrow> arr_get update i; level_set h u i (\<lambda>l. l\<lparr>zl_span := zl_span l + 1\<rparr>) }) [level..<L] h2 = Some h3"
    and "zsame h h3" "zback h3 = zback h"
    and "\<And>b j. level_get h3 b j = (if j < L then inserted_level h z xs ys x level j b else level_get h b j)"
proof -
  let ?u = "pre (towers z xs)"
  have iM: "i < ZSKIPLIST_MAXLEVEL" if "i < L" for i
    using L(2) that by simp
  have u0: "fst (?u 0) = length xs"
    using pre_zero [OF hts, of z] by simp
  have upd: "arr_get update i = Some (snd (?u i))" "arr_get rank i = Some (word_of_nat (fst (?u i)))" if "i < L" for i
    using that by (simp_all add: update_def rank_def arr_get_def)
  have une: "snd (?u i) \<noteq> x" if "i < L" for i
    using pre_addr [OF iM [OF that], of z xs] x by auto
  obtain h2 where h2: "for_each (zsl_link x update rank) [0..<level] h = Some h2" "zsame h h2" "zback h2 = zback h"
      "\<And>b j. level_get h2 b j = (if j \<in> set [0..<level] then inserted_level h z xs ys x level j b else level_get h b j)"
  proof (rule for_levels_from [of "[0..<level]" h "zsl_link x update rank" "inserted_level h z xs ys x level"])
    fix i h'
    assume i: "i \<in> set [0..<level]" and same: "\<forall>b. level_get h' b i = level_get h b i"
    then have iL: "i < L" "i < level" "0 < L"
      using L(1,3) by auto
    obtain l where l: "level_get h' x i = Some l"
      using xl [OF iL(2)] same by auto
    have "level_get h' (snd (?u i)) i = Some \<lparr>zl_forward = snd (suc_tower xs ys i), zl_span = word_of_nat (fst (suc_tower xs ys i) - fst (?u i))\<rparr>"
      using pre_level [OF lv [OF iL(1)] iM [OF iL(1)]] same by simp
    from zsl_link_ok [OF upd(1) [OF iL(1)] upd(2) [OF iL(3)] upd(2) [OF iL(1)] this l une [OF iL(1)]]
    obtain h'' where h'': "zsl_link x update rank i h' = Some h''" "zsame h' h''" "zback h'' = zback h'"
      and v: "\<forall>b j. level_get h'' b j = (if j = i then
        if b = snd (?u i) then Some \<lparr>zl_forward = x, zl_span = (word_of_nat (fst (?u 0)) - word_of_nat (fst (?u i))) + 1\<rparr>
        else if b = x then Some \<lparr>zl_forward = snd (suc_tower xs ys i), zl_span = word_of_nat (fst (suc_tower xs ys i) - fst (?u i)) -
            (word_of_nat (fst (?u 0)) - word_of_nat (fst (?u i)))\<rparr>
        else level_get h' b i
      else level_get h' b j)"
      by blast
    have "\<forall>b j. level_get h'' b j = (if j = i then inserted_level h z xs ys x level i b else level_get h' b j)"
      using v iL same unfolding u0 by (simp add: inserted_level_def Let_def)
    with h'' show "\<exists>h''. zsl_link x update rank i h' = Some h'' \<and> zsame h' h'' \<and> zback h'' = zback h' \<and>
        (\<forall>b j. level_get h'' b j = (if j = i then inserted_level h z xs ys x level i b else level_get h' b j))"
      by blast
  qed auto
  obtain h3 where h3: "for_each (\<lambda>i h. do { u \<leftarrow> arr_get update i; level_set h u i (\<lambda>l. l\<lparr>zl_span := zl_span l + 1\<rparr>) }) [level..<L] h2 = Some h3"
      "zsame h2 h3" "zback h3 = zback h2"
      "\<And>b j. level_get h3 b j = (if j \<in> set [level..<L] then inserted_level h z xs ys x level j b else level_get h2 b j)"
  proof (rule for_levels_from [of "[level..<L]" h2 _ "inserted_level h z xs ys x level"])
    fix i h'
    assume i: "i \<in> set [level..<L]" and same: "\<forall>b. level_get h' b i = level_get h2 b i"
    then have iL: "i < L" "\<not> i < level"
      by auto
    have "level_get h' (snd (?u i)) i = Some \<lparr>zl_forward = snd (suc_tower xs ys i), zl_span = word_of_nat (fst (suc_tower xs ys i) - fst (?u i))\<rparr>"
      using pre_level [OF lv [OF iL(1)] iM [OF iL(1)]] same iL by (simp add: h2(4))
    from level_set_ok [OF this, of "\<lambda>l. l\<lparr>zl_span := zl_span l + 1\<rparr>"]
    show "\<exists>h''. do { u \<leftarrow> arr_get update i; level_set h' u i (\<lambda>l. l\<lparr>zl_span := zl_span l + 1\<rparr>) } = Some h'' \<and>
        zsame h' h'' \<and> zback h'' = zback h' \<and>
        (\<forall>b j. level_get h'' b j = (if j = i then inserted_level h z xs ys x level i b else level_get h' b j))"
      using upd(1) [OF iL(1)] iL same h2(4) by (fastforce simp: inserted_level_def Let_def)
  qed auto
  show ?thesis
  proof (rule that [OF h2(1) h3(1)])
    show "zsame h h3" "zback h3 = zback h"
      using h2(2,3) h3(2,3) zsame_trans by auto
    show "level_get h3 b j = (if j < L then inserted_level h z xs ys x level j b else level_get h b j)" for b j
      using L(1) by (auto simp: h2(4) h3(4))
  qed
qed

text \<open>The levels the new node adds start with the header only, and the arrays are extended for them.\<close>

lemma zsl_grow_ok:
  assumes wf: "zsl_wf h z (xs @ ys)" and lev: "level \<le> ZSKIPLIST_MAXLEVEL"
  defines "L \<equiv> max level (z_level z)"
  obtains h0 where
    "(if level > z_level z
      then do {
        h \<leftarrow> for_each (\<lambda>i h. level_set h (z_header z) i (\<lambda>l. l\<lparr>zl_span := word_of_nat (z_length z)\<rparr>)) [z_level z..<level] h;
        Some (h, z\<lparr>z_level := level\<rparr>,
              map (\<lambda>j. snd (pre (towers z xs) j)) [0..<z_level z] @ replicate (level - z_level z) (z_header z),
              map (\<lambda>j. word_of_nat (fst (pre (towers z xs) j)) :: uint32) [0..<z_level z] @ replicate (level - z_level z) 0)
      }
      else Some (h, z, map (\<lambda>j. snd (pre (towers z xs) j)) [0..<z_level z],
        map (\<lambda>j. word_of_nat (fst (pre (towers z xs) j))) [0..<z_level z])) =
     Some (h0, z\<lparr>z_level := L\<rparr>, map (\<lambda>j. snd (pre (towers z xs) j)) [0..<L], map (\<lambda>j. word_of_nat (fst (pre (towers z xs) j))) [0..<L])"
    and "zsame h h0" "zback h0 = zback h"
    and "\<And>i. i < L \<Longrightarrow> lvl h0 i (chain i 0 (towers z (xs @ ys))) (length (xs @ ys), 0)"
    and "\<And>i. \<lbrakk>L \<le> i; i < ZSKIPLIST_MAXLEVEL\<rbrakk> \<Longrightarrow> \<exists>s. level_get h0 (z_header z) i = Some \<lparr>zl_forward = 0, zl_span = s\<rparr>"
    and "\<And>b j. b \<noteq> z_header z \<Longrightarrow> level_get h0 b j = level_get h b j"
proof (cases "level > z_level z")
  case False
  then have "L = z_level z"
    by (simp add: L_def)
  with False wf show ?thesis
    by (intro that [of h]) (simp_all add: zsl_wf_def)
next
  case True
  define Z where "Z = (\<lambda>i b. if b = z_header z then Some \<lparr>zl_forward = 0, zl_span = word_of_nat (z_length z) :: uint32\<rparr> else level_get h b i)"
  have hts: "\<forall>e \<in> set (xs @ ys). e_height e \<le> z_level z" and len: "z_length z = length (xs @ ys)"
    and high: "\<And>i. \<lbrakk>z_level z \<le> i; i < ZSKIPLIST_MAXLEVEL\<rbrakk> \<Longrightarrow> \<exists>s. level_get h (z_header z) i = Some \<lparr>zl_forward = 0, zl_span = s\<rparr>"
    using wf by (auto simp: zsl_wf_def entry_wf_def)
  obtain h0 where h0: "for_each (\<lambda>i h. level_set h (z_header z) i (\<lambda>l. l\<lparr>zl_span := word_of_nat (z_length z)\<rparr>)) [z_level z..<level] h = Some h0"
      "zsame h h0" "zback h0 = zback h"
      "\<And>b j. level_get h0 b j = (if j \<in> set [z_level z..<level] then Z j b else level_get h b j)"
  proof (rule for_levels_from [of "[z_level z..<level]" h _ Z])
    fix i h'
    assume i: "i \<in> set [z_level z..<level]" and same: "\<forall>b. level_get h' b i = level_get h b i"
    obtain s where "level_get h' (z_header z) i = Some \<lparr>zl_forward = 0, zl_span = s\<rparr>"
      using high [of i] i lev same by auto
    from level_set_ok [OF this, of "\<lambda>l. l\<lparr>zl_span := word_of_nat (z_length z)\<rparr>"]
    show "\<exists>h''. level_set h' (z_header z) i (\<lambda>l. l\<lparr>zl_span := word_of_nat (z_length z)\<rparr>) = Some h'' \<and> zsame h' h'' \<and>
        zback h'' = zback h' \<and> (\<forall>b j. level_get h'' b j = (if j = i then Z i b else level_get h' b j))"
      using same by (fastforce simp: Z_def)
  qed auto
  have single: "chain i 0 (towers z zs) = [(0, z_header z)]" if "z_level z \<le> i" "i < level" "set zs \<subseteq> set (xs @ ys)" for i and zs :: "'a zentry list"
    using chain_header [of zs i z] hts that lev by force
  have pre_new: "pre (towers z xs) i = (0, z_header z)" if "z_level z \<le> i" "i < level" for i
    using single [OF that, of xs] by (simp add: pre_def)
  have L: "L = level" "[0..<L] = [0..<z_level z] @ [z_level z..<level]"
    using True upt_add_eq_append [of 0 "z_level z" "level - z_level z"] by (simp_all add: L_def)
  have news: "map (\<lambda>j. f (pre (towers z xs) j)) [z_level z..<level] = replicate (level - z_level z) (f (0, z_header z))" for f :: "nat \<times> nat \<Rightarrow> 'c"
    using pre_new by (intro nth_equalityI) simp_all
  show ?thesis
  proof (rule that [OF _ h0(2,3)])
    show "lvl h0 i (chain i 0 (towers z (xs @ ys))) (length (xs @ ys), 0)" if "i < L" for i
    proof (cases "i < z_level z")
      case True
      then have "lvl h i (chain i 0 (towers z (xs @ ys))) (length (xs @ ys), 0)"
        using wf by (simp add: zsl_wf_def)
      then show ?thesis
        by (rule lvl_frame) (use True in \<open>simp add: h0(4)\<close>)
    next
      case False
      then show ?thesis
        using that single [of i "xs @ ys"] L(1) len by (simp add: h0(4) Z_def)
    qed
  qed (use True L high news [of snd] news [of "\<lambda>c. word_of_nat (fst c) :: uint32"] h0(1,4) in \<open>auto simp: Z_def\<close>)
qed

text \<open>The order of the list, on entries.\<close>

definition entry_before :: "'s :: linorder \<Rightarrow> str_key \<Rightarrow> 's zentry \<Rightarrow> bool" where
  "entry_before score obj e \<longleftrightarrow> e_score e < score \<or> (e_score e = score \<and> compare_keys (e_obj e) obj < 0)"

lemma node_before_entry:
  "\<lbrakk>zn_obj f = Some (e_obj e); zn_score f = e_score e\<rbrakk> \<Longrightarrow> node_before score obj f = entry_before score obj e"
  by (simp add: node_before_def entry_before_def)

lemma goes_before:
  assumes "zsl_wf h z (xs @ ys)" "\<forall>e \<in> set xs. P e" "\<forall>e \<in> set ys. \<not> P e"
    and "\<And>f e. \<lbrakk>zn_obj f = Some (e_obj e); zn_score f = e_score e\<rbrakk> \<Longrightarrow> go f = P e"
    and "\<And>p q. \<lbrakk>p < q; q \<le> length (xs @ ys)\<rbrakk> \<Longrightarrow> add (A p) (word_of_nat (q - p)) = A q"
  shows "goes h (\<lambda>r s. go) add A (length xs) (set (chain 0 0 (towers z (xs @ ys))))"
proof (rule goes_entries [OF assms(1)])
  show "add (A p) (word_of_nat (q - p)) = A q" if "p < q" "q \<le> length (xs @ ys)" for p q
    using assms(5) that by blast
next
  fix q and f :: "'a zskiplistNode" and e :: "'a zentry"
  assume q: "q < length (xs @ ys)" and e: "e = (xs @ ys) ! q" and f: "zn_obj f = Some (e_obj e)" "zn_score f = e_score e"
  show "go f \<longleftrightarrow> q < length xs"
  proof (cases "q < length xs")
    case True
    then show ?thesis
      using assms(2,4) f e by (simp add: nth_append)
  next
    case False
    then have "e \<in> set ys"
      using q e by (simp add: nth_append)
    with False show ?thesis
      using assms(3,4) f by simp
  qed
qed

text \<open>The state after the new node has been linked, before the backward pointers are set.\<close>

lemma zslInsert_links:
  assumes wf: "zsl_wf h z (xs @ ys)" and lev: "0 < level" "level \<le> ZSKIPLIST_MAXLEVEL"
    and h0: "zsame h h0" "zback h0 = zback h"
      "\<And>i. i < L \<Longrightarrow> lvl h0 i (chain i 0 (towers z (xs @ ys))) (length (xs @ ys), 0)"
      "\<And>i. \<lbrakk>L \<le> i; i < ZSKIPLIST_MAXLEVEL\<rbrakk> \<Longrightarrow> \<exists>s. level_get h0 (z_header z) i = Some \<lparr>zl_forward = 0, zl_span = s\<rparr>"
      "\<And>b j. b \<noteq> z_header z \<Longrightarrow> level_get h0 b j = level_get h b j"
    and new: "node_new h0 (zslCreateNode level score (Some obj)) = (h1, x)"
    and L: "L = max level (z_level z)"
  defines "e \<equiv> \<lparr>e_addr = x, e_height = level, e_score = score, e_obj = obj\<rparr>"
    and "update \<equiv> map (\<lambda>j. snd (pre (towers z xs) j)) [0..<L]"
    and "rank \<equiv> map (\<lambda>j. word_of_nat (fst (pre (towers z xs) j)) :: uint32) [0..<L]"
  obtains h2 h3 where "x = next_node h"
    and "for_each (zsl_link x update rank) [0..<level] h1 = Some h2"
    and "for_each (\<lambda>i h. do { u \<leftarrow> arr_get update i; level_set h u i (\<lambda>l. l\<lparr>zl_span := zl_span l + 1\<rparr>) }) [level..<L] h2 = Some h3"
    and "heap_wf h3" "next_node h3 = Suc x" "zattr h3 = (zattr h)(x \<mapsto> (Some obj, score, level))" "zback h3 = (zback h)(x \<mapsto> 0)"
    and "\<And>i. i < L \<Longrightarrow> lvl h3 i (chain i 0 (towers z (xs @ e # ys))) (length (xs @ e # ys), 0)"
    and "\<And>i. \<lbrakk>L \<le> i; i < ZSKIPLIST_MAXLEVEL\<rbrakk> \<Longrightarrow> \<exists>s. level_get h3 (z_header z) i = Some \<lparr>zl_forward = 0, zl_span = s\<rparr>"
    and "\<And>b j. b \<notin> set (z_header z # x # map e_addr xs) \<Longrightarrow> level_get h3 b j = level_get h b j"
proof -
  have hw: "heap_wf h0" and L32: "L \<le> ZSKIPLIST_MAXLEVEL" and hts: "\<forall>e \<in> set xs. 0 < e_height e"
    and dist: "distinct (z_header z # map e_addr (xs @ ys))"
    using wf lev zsame_heap_wf [OF h0(1)] by (auto simp: zsl_wf_def entry_wf_def L)
  note nw = node_new_views [OF hw new]
  have x: "x = next_node h"
    using nw(1) h0(1) by (simp add: zsame_def)
  have xt: "x \<notin> fst ` set (towers z (xs @ ys))"
    using tower_addr_pos(2) [OF wf] x by (metis imageE less_irrefl)
  then have fresh: "x \<notin> set (z_header z # map e_addr (xs @ ys))"
    by (simp add: towers_def image_image image_Un)
  have lv1: "lvl h1 i (chain i 0 (towers z (xs @ ys))) (length (xs @ ys), 0)" if "i < L" for i
  proof (rule lvl_frame [OF h0(3) [OF that]])
    fix c
    assume "c \<in> set (chain i 0 (towers z (xs @ ys)))"
    then have "snd c \<noteq> x"
      using xt chain_addr by metis
    then show "level_get h1 (snd c) i = level_get h0 (snd c) i"
      by (simp add: nw(6))
  qed
  have fresh': "x \<notin> set (z_header z # map e_addr xs)"
    using fresh by auto
  obtain h2 h3 where l: "for_each (zsl_link x update rank) [0..<level] h1 = Some h2"
    "for_each (\<lambda>i h. do { u \<leftarrow> arr_get update i; level_set h u i (\<lambda>l. l\<lparr>zl_span := zl_span l + 1\<rparr>) }) [level..<L] h2 = Some h3"
    "zsame h1 h3" "zback h3 = zback h1"
    "\<And>b j. level_get h3 b j = (if j < L then inserted_level h1 z xs ys x level j b else level_get h1 b j)"
    unfolding update_def rank_def
    by (rule link_all [OF lv1 _ L32 lev(1) hts fresh']) (auto simp: L nw(6))
  show ?thesis
  proof (rule that [OF x l(1,2)])
    show "heap_wf h3" "next_node h3 = Suc x" "zattr h3 = (zattr h)(x \<mapsto> (Some obj, score, level))"
      using zsame_heap_wf [OF l(3)] l(3) nw h0(1) by (simp_all add: zsame_def)
    show "zback h3 = (zback h)(x \<mapsto> 0)"
      using l(4) nw(5) h0(2) by simp
    show "lvl h3 i (chain i 0 (towers z (xs @ e # ys))) (length (xs @ e # ys), 0)" if "i < L" for i
      using lvl_inserted [OF lv1 [OF that] _ dist fresh, of h3 level] that L32
      by (simp add: l(5) towers_append e_def)
    show "\<exists>s. level_get h3 (z_header z) i = Some \<lparr>zl_forward = 0, zl_span = s\<rparr>" if "L \<le> i" "i < ZSKIPLIST_MAXLEVEL" for i
      using h0(4) [OF that] that fresh by (simp add: l(5) nw(6))
    show "level_get h3 b j = level_get h b j" if b: "b \<notin> set (z_header z # x # map e_addr xs)" for b j
    proof -
      have "b \<noteq> snd (pre (towers z xs) j)" if "j < L"
        using pre_addr [of j z xs] that L32 b by auto
      then show ?thesis
        using b h0(5) by (auto simp: l(5) nw(6) inserted_level_def Let_def)
    qed
  qed
qed

lemma lvl_cong: "level_get h' = level_get h \<Longrightarrow> lvl h' i cs e = lvl h i cs e"
  by (induction cs) auto

lemma suc_tower_zero:
  assumes "\<forall>e \<in> set ys. 0 < e_height e"
  shows "snd (suc_tower xs ys 0) = (if ys = [] then 0 else e_addr (hd ys))"
  using assms by (cases ys) (simp_all add: suc_tower_def)

lemma last_addr_header:
  assumes "distinct (z_header z # map e_addr xs)"
  shows "(if last_addr (z_header z) xs = z_header z then 0 else last_addr (z_header z) xs) = last_addr 0 xs"
proof (cases "xs = []")
  case False
  then have "e_addr (last xs) \<in> e_addr ` set xs"
    by simp
  then have "e_addr (last xs) \<noteq> z_header z"
    using assms by (metis distinct.simps(2) set_map)
  with False show ?thesis
    by (simp add: last_addr_last)
qed simp

definition z_addrs :: "zskiplist \<Rightarrow> 's zentry list \<Rightarrow> nat set" where
  "z_addrs z ns = set (z_header z # map e_addr ns)"

lemma touches_views:
  assumes "next_node h \<le> next_node h'"
    and "\<And>b. \<lbrakk>b < next_node h; b \<notin> F\<rbrakk> \<Longrightarrow> zattr h' b = zattr h b \<and> zback h' b = zback h b \<and> (\<forall>j. level_get h' b j = level_get h b j)"
  shows "touches h F h'"
  using assms views_node [of h' _ h] by (simp add: touches_def)

text \<open>Setting the backward pointer of the first entry of \<open>ys\<close>, or the tail when there is none.\<close>

lemma set_back:
  assumes att: "\<And>e. e \<in> set ys \<Longrightarrow> zattr h (e_addr e) \<noteq> None" and dist: "distinct (map e_addr ys)"
    and b: "backs h q ys" and f: "f = (if ys = [] then 0 else e_addr (hd ys))" and pos: "\<And>e. e \<in> set ys \<Longrightarrow> 0 < e_addr e"
  obtains h' where "(if f \<noteq> 0 then do { h \<leftarrow> node_upd h f (\<lambda>n. n\<lparr>zn_backward := p\<rparr>); Some (h, z) }
      else Some (h, z\<lparr>z_tail := p\<rparr>)) = Some (h', if ys = [] then z\<lparr>z_tail := p\<rparr> else z)"
    and "zsame h h'" "level_get h' = level_get h" "backs h' p ys"
    and "\<And>b. b \<notin> set (map e_addr ys) \<Longrightarrow> zback h' b = zback h b"
proof (cases ys)
  case Nil
  then show ?thesis
    using f by (intro that [of h]) simp_all
next
  case (Cons y zs)
  obtain n where "nodes h (e_addr y) = Some n"
    using att [of y] Cons zattr_None [of h "e_addr y"] by auto
  from node_upd_back [OF this, of p] obtain h' where h': "node_upd h (e_addr y) (\<lambda>n. n\<lparr>zn_backward := p\<rparr>) = Some h'"
      "zsame h h'" "zback h' = (zback h)(e_addr y \<mapsto> p)" "level_get h' = level_get h"
    by blast
  have "backs h' (e_addr y) zs"
  proof (rule backs_frame [of h])
    show "backs h (e_addr y) zs"
      using b Cons by simp
    show "zback h' (e_addr e) = zback h (e_addr e)" if "e \<in> set zs" for e
    proof -
      have "e_addr e \<noteq> e_addr y"
        using dist Cons that by (metis distinct.simps(2) imageI list.simps(9) set_map)
      then show ?thesis
        by (simp add: h'(3))
    qed
  qed
  then show ?thesis
    using h' f pos [of y] Cons by (intro that [of h']) auto
qed

lemma zslInsert_finish:
  assumes wf: "zsl_wf h z (xs @ ys)" and x: "x = next_node h"
    and lev: "0 < level" "level \<le> ZSKIPLIST_MAXLEVEL" and L: "L = max level (z_level z)"
    and h3: "heap_wf h3" "next_node h3 = Suc x" "zattr h3 = (zattr h)(x \<mapsto> (Some obj, score, level))" "zback h3 = (zback h)(x \<mapsto> 0)"
      "\<And>i. i < L \<Longrightarrow> lvl h3 i (chain i 0 (towers z (xs @ \<lparr>e_addr = x, e_height = level, e_score = score, e_obj = obj\<rparr> # ys)))
        (length (xs @ \<lparr>e_addr = x, e_height = level, e_score = score, e_obj = obj\<rparr> # ys), 0)"
      "\<And>i. \<lbrakk>L \<le> i; i < ZSKIPLIST_MAXLEVEL\<rbrakk> \<Longrightarrow> \<exists>s. level_get h3 (z_header z) i = Some \<lparr>zl_forward = 0, zl_span = s\<rparr>"
      "\<And>b j. b \<notin> set (z_header z # x # map e_addr xs) \<Longrightarrow> level_get h3 b j = level_get h b j"
  obtains h' z' where "do {
        u0 \<leftarrow> arr_get (map (\<lambda>j. snd (pre (towers z xs) j)) [0..<L]) 0;
        h \<leftarrow> node_upd h3 x (\<lambda>n. n\<lparr>zn_backward := (if u0 = z_header z then 0 else u0)\<rparr>);
        x0 \<leftarrow> level_get h x 0;
        (h, zsl) \<leftarrow>
          (if zl_forward x0 \<noteq> 0
           then do { h \<leftarrow> node_upd h (zl_forward x0) (\<lambda>n. n\<lparr>zn_backward := x\<rparr>); Some (h, z\<lparr>z_level := L\<rparr>) }
           else Some (h, z\<lparr>z_level := L, z_tail := x\<rparr>));
        Some (h, zsl\<lparr>z_length := z_length zsl + 1\<rparr>, x, rs')
      } = Some (h', z', x, rs')"
    and "zsl_wf h' z' (xs @ \<lparr>e_addr = x, e_height = level, e_score = score, e_obj = obj\<rparr> # ys)"
    and "z_header z' = z_header z" and "touches h (z_addrs z (xs @ ys)) h'"
proof -
  define e where "e = \<lparr>e_addr = x, e_height = level, e_score = score, e_obj = obj\<rparr>"
  have W: "heap_wf h" "\<forall>e \<in> set (xs @ ys). entry_wf h (z_level z) e" "distinct (z_header z # map e_addr (xs @ ys))"
      "backs h 0 (xs @ ys)" "z_tail z = last_addr 0 (xs @ ys)" "z_length z = length (xs @ ys)"
      "z_level z = 1 \<or> (\<exists>e \<in> set (xs @ ys). e_height e = z_level z)" "0 < z_level z" "z_level z \<le> ZSKIPLIST_MAXLEVEL"
      "\<exists>s. zattr h (z_header z) = Some (None, s, ZSKIPLIST_MAXLEVEL)"
    using wf by (auto simp: zsl_wf_def)
  have fresh: "x \<notin> set (z_header z # map e_addr (xs @ ys))"
  proof -
    have "x \<notin> fst ` set (towers z (xs @ ys))"
      using tower_addr_pos(2) [OF wf] x by (metis imageE less_irrefl)
    then show ?thesis
      by (simp add: towers_def image_image image_Un)
  qed
  have hts: "\<forall>e \<in> set xs. 0 < e_height e" "\<forall>e \<in> set ys. 0 < e_height e"
    using W(2) by (auto simp: entry_wf_def)
  have LM: "0 < L" "L \<le> ZSKIPLIST_MAXLEVEL"
    using lev W(9) by (simp_all add: L)
  have u0: "arr_get (map (\<lambda>j. snd (pre (towers z xs) j)) [0..<L]) 0 = Some (last_addr (z_header z) xs)"
    using LM pre_zero [OF hts(1), of z] by (simp add: arr_get_def)
  have bk: "(if last_addr (z_header z) xs = z_header z then 0 else last_addr (z_header z) xs) = last_addr 0 xs"
    using last_addr_header [of z xs] W(3) by simp
  obtain n where "nodes h3 x = Some n"
    using h3(3) zattr_None [of h3 x] by auto
  from node_upd_back [OF this, of "last_addr 0 xs"] obtain h4 where h4:
      "node_upd h3 x (\<lambda>n. n\<lparr>zn_backward := last_addr 0 xs\<rparr>) = Some h4" "zsame h3 h4"
      "zback h4 = (zback h)(x \<mapsto> last_addr 0 xs)" "level_get h4 = level_get h3"
    using h3(4) by auto
  have "lvl h3 0 (chain 0 0 (towers z ((xs @ [e]) @ ys))) (length ((xs @ [e]) @ ys), 0)"
    using h3(5) [OF LM(1)] by (simp add: e_def)
  from pre_level [OF this] have x0: "\<exists>s. level_get h4 x 0 = Some \<lparr>zl_forward = (if ys = [] then 0 else e_addr (hd ys)), zl_span = s\<rparr>"
    using pre_zero [of "xs @ [e]" z] hts lev suc_tower_zero [OF hts(2), of "xs @ [e]"]
    by (auto simp: h4(4) e_def ZSKIPLIST_MAXLEVEL_def)
  have att: "zattr h4 = (zattr h)(x \<mapsto> (Some obj, score, level))"
    using h4(2) h3(3) by (simp add: zsame_def)
  have apart: "e_addr e' \<noteq> x" "zattr h (e_addr e') \<noteq> None" "0 < e_addr e'" if "e' \<in> set (xs @ ys)" for e'
    using that fresh W(2) tower_addr_pos(1) [OF wf, of "tower e'"] by (auto simp: entry_wf_def towers_def)
  have backs4: "backs h4 0 xs" "backs h4 (last_addr 0 xs) ys"
    using W(4) apart(1) by (auto intro!: backs_frame [of h _ _ h4] simp: h4(3))
  have ys: "zattr h4 (e_addr e') \<noteq> None" "0 < e_addr e'" if "e' \<in> set ys" for e'
    using apart [of e'] that by (auto simp: att)
  have dist_y: "distinct (map e_addr ys)"
    using W(3) by simp
  obtain h5 where h5: "(if (if ys = [] then 0 else e_addr (hd ys)) \<noteq> 0
      then do { h \<leftarrow> node_upd h4 (if ys = [] then 0 else e_addr (hd ys)) (\<lambda>n. n\<lparr>zn_backward := x\<rparr>); Some (h, z\<lparr>z_level := L\<rparr>) }
      else Some (h4, z\<lparr>z_level := L, z_tail := x\<rparr>)) = Some (h5, if ys = [] then z\<lparr>z_level := L, z_tail := x\<rparr> else z\<lparr>z_level := L\<rparr>)"
      "zsame h4 h5" "level_get h5 = level_get h4" "backs h5 x ys"
      "\<And>b. b \<notin> set (map e_addr ys) \<Longrightarrow> zback h5 b = zback h4 b"
    by (rule set_back [OF ys(1) dist_y backs4(2) refl ys(2), where z = "z\<lparr>z_level := L\<rparr>"]) auto
  define z' where "z' = (if ys = [] then z\<lparr>z_level := L, z_tail := x\<rparr> else z\<lparr>z_level := L\<rparr>)\<lparr>z_length := z_length z + 1\<rparr>"
  have att5: "zattr h5 = (zattr h)(x \<mapsto> (Some obj, score, level))" "next_node h5 = Suc x" "heap_wf h5"
    using h5(2) h4(2) att h3(1,2) zsame_heap_wf [OF h4(2)] zsame_heap_wf [OF h5(2)] by (simp_all add: zsame_def)
  have backs5: "backs h5 0 (xs @ e # ys)"
  proof -
    have "backs h5 0 xs"
    proof (rule backs_frame [OF backs4(1)])
      fix e'
      assume "e' \<in> set xs"
      then have "e_addr e' \<in> e_addr ` set xs" "e_addr ` set xs \<inter> e_addr ` set ys = {}"
        using W(3) by simp_all
      then have "e_addr e' \<notin> set (map e_addr ys)"
        by (metis disjoint_iff set_map)
      then show "zback h5 (e_addr e') = zback h4 (e_addr e')"
        by (rule h5(5))
    qed
    then show ?thesis
      using h5(4) h5(5) [of x] fresh by (simp add: e_def h4(3))
  qed
  have flds: "z_level z' = L" "z_header z' = z_header z" "z_length z' = length (xs @ e # ys)"
      "z_tail z' = last_addr 0 (xs @ e # ys)" "towers z' ns = towers z ns" for ns :: "'a zentry list"
    using W(5,6) by (cases ys; simp add: z'_def e_def towers_def)+
  show ?thesis
  proof (rule that)
    show "zsl_wf h5 z' (xs @ \<lparr>e_addr = x, e_height = level, e_score = score, e_obj = obj\<rparr> # ys)"
      unfolding zsl_wf_def flds e_def [symmetric]
    proof (intro conjI allI impI)
      show "lvl h5 i (chain i 0 (towers z (xs @ e # ys))) (length (xs @ e # ys), 0)" if "i < L" for i
        using h3(5) [OF that] lvl_cong [of h5 h3] h5(3) h4(4) by (simp add: e_def)
      show "\<exists>s. level_get h5 (z_header z) i = Some \<lparr>zl_forward = 0, zl_span = s\<rparr>" if "L \<le> i \<and> i < ZSKIPLIST_MAXLEVEL" for i
        using h3(6) that by (simp add: h5(3) h4(4))
      show "L = 1 \<or> (\<exists>e' \<in> set (xs @ e # ys). e_height e' = L)"
        using W(7,8) lev by (auto simp: L e_def max_def)
      show "\<forall>e' \<in> set (xs @ e # ys). entry_wf h5 L e'"
        using W(2) lev apart(1) by (auto simp: entry_wf_def att5 e_def L le_max_iff_disj)
    qed (use W fresh LM backs5 in \<open>auto simp: att5 e_def\<close>)
    show "touches h (z_addrs z (xs @ ys)) h5"
    proof (rule touches_views)
      fix b
      assume "b < next_node h" and b: "b \<notin> z_addrs z (xs @ ys)"
      then show "zattr h5 b = zattr h b \<and> zback h5 b = zback h b \<and> (\<forall>j. level_get h5 b j = level_get h b j)"
        using h3(7) by (auto simp: att5 h5(3,5) h4(3,4) z_addrs_def x)
    qed (simp add: att5 x)
  qed (use u0 bk h4(1) x0 h5(1) in \<open>auto simp: z'_def bind_eq_Some_conv\<close>)
qed

text \<open>The effect of \<^verbatim>\<open>zslInsert\<close> on a list split where the new entry belongs.\<close>

lemma zslInsert_ok:
  assumes wf: "zsl_wf h z (xs @ ys)"
    and bef: "\<forall>e \<in> set xs. entry_before score obj e" "\<forall>e \<in> set ys. \<not> entry_before score obj e"
    and rnd: "zslRandomLevel rs = Some (level, rs')"
  defines "e \<equiv> \<lparr>e_addr = next_node h, e_height = level, e_score = score, e_obj = obj\<rparr>"
  shows "\<exists>h' z'. zslInsert h z rs score obj = Some (h', z', next_node h, rs') \<and> zsl_wf h' z' (xs @ e # ys) \<and>
    z_header z' = z_header z \<and> touches h (z_addrs z (xs @ ys)) h'"
proof -
  note lev = zslRandomLevel_range [OF rnd]
  define L where "L = max level (z_level z)"
  let ?X = "towers z xs"
  have search: "zsl_descend h (\<lambda>r s f. node_before score obj f) (+) (z_level z) (z_header z) (0 :: uint32) =
     Some (last_addr (z_header z) xs, word_of_nat (length xs), map (\<lambda>j. snd (pre ?X j)) [0..<z_level z],
       map (\<lambda>j. word_of_nat (fst (pre ?X j))) [0..<z_level z])"
    using zsl_search [OF wf goes_before [OF wf bef node_before_entry, where add = "(+)" and A = word_of_nat]]
    by (simp add: of_nat_diff)
  obtain h0 where h0: "(if level > z_level z
      then do {
        h \<leftarrow> for_each (\<lambda>i h. level_set h (z_header z) i (\<lambda>l. l\<lparr>zl_span := word_of_nat (z_length z)\<rparr>)) [z_level z..<level] h;
        Some (h, z\<lparr>z_level := level\<rparr>,
              map (\<lambda>j. snd (pre ?X j)) [0..<z_level z] @ replicate (level - z_level z) (z_header z),
              map (\<lambda>j. word_of_nat (fst (pre ?X j)) :: uint32) [0..<z_level z] @ replicate (level - z_level z) 0)
      }
      else Some (h, z, map (\<lambda>j. snd (pre ?X j)) [0..<z_level z], map (\<lambda>j. word_of_nat (fst (pre ?X j))) [0..<z_level z])) =
     Some (h0, z\<lparr>z_level := L\<rparr>, map (\<lambda>j. snd (pre ?X j)) [0..<L], map (\<lambda>j. word_of_nat (fst (pre ?X j))) [0..<L])"
    "zsame h h0" "zback h0 = zback h"
    "\<And>i. i < L \<Longrightarrow> lvl h0 i (chain i 0 (towers z (xs @ ys))) (length (xs @ ys), 0)"
    "\<And>i. \<lbrakk>L \<le> i; i < ZSKIPLIST_MAXLEVEL\<rbrakk> \<Longrightarrow> \<exists>s. level_get h0 (z_header z) i = Some \<lparr>zl_forward = 0, zl_span = s\<rparr>"
    "\<And>b j. b \<noteq> z_header z \<Longrightarrow> level_get h0 b j = level_get h b j"
    unfolding L_def by (rule zsl_grow_ok [OF wf lev(2)]) blast
  obtain h1 x' where new: "node_new h0 (zslCreateNode level score (Some obj)) = (h1, x')"
    by (cases "node_new h0 (zslCreateNode level score (Some obj))")
  show ?thesis
  proof (rule zslInsert_links [OF wf lev h0(2-6) new L_def])
    fix h2 h3
    assume x': "x' = next_node h"
      and l2: "for_each (zsl_link x' (map (\<lambda>j. snd (pre ?X j)) [0..<L]) (map (\<lambda>j. word_of_nat (fst (pre ?X j))) [0..<L])) [0..<level] h1 = Some h2"
      and l3: "for_each (\<lambda>i h. do { u \<leftarrow> arr_get (map (\<lambda>j. snd (pre ?X j)) [0..<L]) i; level_set h u i (\<lambda>l. l\<lparr>zl_span := zl_span l + 1\<rparr>) }) [level..<L] h2 = Some h3"
      and h3: "heap_wf h3" "next_node h3 = Suc x'" "zattr h3 = (zattr h)(x' \<mapsto> (Some obj, score, level))" "zback h3 = (zback h)(x' \<mapsto> 0)"
        "\<And>i. i < L \<Longrightarrow> lvl h3 i (chain i 0 (towers z (xs @ \<lparr>e_addr = x', e_height = level, e_score = score, e_obj = obj\<rparr> # ys)))
          (length (xs @ \<lparr>e_addr = x', e_height = level, e_score = score, e_obj = obj\<rparr> # ys), 0)"
        "\<And>i. \<lbrakk>L \<le> i; i < ZSKIPLIST_MAXLEVEL\<rbrakk> \<Longrightarrow> \<exists>s. level_get h3 (z_header z) i = Some \<lparr>zl_forward = 0, zl_span = s\<rparr>"
        "\<And>b j. b \<notin> set (z_header z # x' # map e_addr xs) \<Longrightarrow> level_get h3 b j = level_get h b j"
    show ?thesis
    proof (rule zslInsert_finish [OF wf x' lev L_def h3, of rs'])
      fix h' z'
      assume fin: "do {
          u0 \<leftarrow> arr_get (map (\<lambda>j. snd (pre ?X j)) [0..<L]) 0;
          h \<leftarrow> node_upd h3 x' (\<lambda>n. n\<lparr>zn_backward := (if u0 = z_header z then 0 else u0)\<rparr>);
          x0 \<leftarrow> level_get h x' 0;
          (h, zsl) \<leftarrow>
            (if zl_forward x0 \<noteq> 0
             then do { h \<leftarrow> node_upd h (zl_forward x0) (\<lambda>n. n\<lparr>zn_backward := x'\<rparr>); Some (h, z\<lparr>z_level := L\<rparr>) }
             else Some (h, z\<lparr>z_level := L, z_tail := x'\<rparr>));
          Some (h, zsl\<lparr>z_length := z_length zsl + 1\<rparr>, x', rs')
        } = Some (h', z', x', rs')"
        and res: "zsl_wf h' z' (xs @ \<lparr>e_addr = x', e_height = level, e_score = score, e_obj = obj\<rparr> # ys)"
          "z_header z' = z_header z" "touches h (z_addrs z (xs @ ys)) h'"
      have upd: "z_level (z\<lparr>z_level := L\<rparr>) = L" "z_header (z\<lparr>z_level := L\<rparr>) = z_header z"
        by simp_all
      have "zslInsert h z rs score obj = Some (h', z', x', rs')"
        by (simp only: zslInsert_def search rnd h0(1) Option.bind.simps prod.case new upd l2 l3 fin)
      with res x' show ?thesis
        by (simp add: e_def)
    qed
  qed
qed

end
