(* ===== verification/ZskiplistDelete.thy ===== *)
theory ZskiplistDelete
  imports ZskiplistProps
begin

text \<open>
  Deletion from a skiplist: the node is unlinked from every level, the level of the list is lowered,
  and the node is freed.
\<close>

subsection \<open>Frames\<close>

lemma zsl_wf_frame:
  assumes wf: "zsl_wf h z ns" and hw: "heap_wf h'" and same: "\<And>b. b \<in> z_addrs z ns \<Longrightarrow> nodes h' b = nodes h b"
  shows "zsl_wf h' z ns"
proof -
  have views: "zattr h' b = zattr h b" "zback h' b = zback h b" "level_get h' b i = level_get h b i" if "b \<in> z_addrs z ns" for b i
    using same [OF that] by (simp_all add: zattr_def zback_def level_get_def node_at_def)
  have lv: "lvl h' i (chain i 0 (towers z ns)) (length ns, 0)" if "i < z_level z" for i
  proof (rule lvl_frame [of h])
    show "lvl h i (chain i 0 (towers z ns)) (length ns, 0)"
      using wf that by (simp add: zsl_wf_def)
    fix c
    assume "c \<in> set (chain i 0 (towers z ns))"
    then have "snd c \<in> z_addrs z ns"
      using chain_addr [of c i 0 "towers z ns"] by (auto simp: towers_def z_addrs_def)
    then show "level_get h' (snd c) i = level_get h (snd c) i"
      by (rule views(3))
  qed
  have "backs h' 0 ns"
    by (rule backs_frame [of h]) (use wf views(2) in \<open>auto simp: zsl_wf_def z_addrs_def\<close>)
  with lv hw wf views show ?thesis
    by (auto simp: zsl_wf_def entry_wf_def z_addrs_def)
qed

subsection \<open>Unlinking\<close>

definition deleted_level :: "'s zheap \<Rightarrow> zskiplist \<Rightarrow> 's zentry list \<Rightarrow> 's zentry \<Rightarrow> 's zentry list \<Rightarrow> nat \<Rightarrow> nat \<Rightarrow>
    zskiplistLevel option" where
  "deleted_level h z xs e ys i b =
     (let u = pre (towers z xs) i; s = suc_tower (xs @ [e]) ys i
      in if b = snd u then Some \<lparr>zl_forward = snd s, zl_span = word_of_nat (fst s - fst u) - 1\<rparr> else level_get h b i)"

text \<open>The levels of the predecessor and of the node, when it reaches the level and when not.\<close>

lemma unlink_views:
  assumes lv: "lvl h i (chain i 0 (towers z (xs @ e # ys))) (length (xs @ e # ys), 0)" and i: "i < ZSKIPLIST_MAXLEVEL"
  defines "u \<equiv> pre (towers z xs) i" and "s \<equiv> suc_tower (xs @ [e]) ys i"
  shows "i < e_height e \<Longrightarrow> level_get h (snd u) i = Some \<lparr>zl_forward = e_addr e, zl_span = word_of_nat (Suc (length xs) - fst u)\<rparr>"
    and "i < e_height e \<Longrightarrow> level_get h (e_addr e) i = Some \<lparr>zl_forward = snd s, zl_span = word_of_nat (fst s - Suc (length xs))\<rparr>"
    and "\<not> i < e_height e \<Longrightarrow> level_get h (snd u) i = Some \<lparr>zl_forward = snd s, zl_span = word_of_nat (fst s - fst u)\<rparr>"
proof -
  have s1: "suc_tower xs (e # ys) i = (if i < e_height e then (Suc (length xs), e_addr e) else s)"
    by (simp add: suc_tower_def s_def)
  note u1 = pre_level [OF lv i, folded u_def]
  show "level_get h (snd u) i = Some \<lparr>zl_forward = e_addr e, zl_span = word_of_nat (Suc (length xs) - fst u)\<rparr>" if "i < e_height e"
    using u1 that by (simp add: s1)
  show "level_get h (snd u) i = Some \<lparr>zl_forward = snd s, zl_span = word_of_nat (fst s - fst u)\<rparr>" if "\<not> i < e_height e"
    using u1 that by (simp add: s1)
  have lv': "lvl h i (chain i 0 (towers z ((xs @ [e]) @ ys))) (length ((xs @ [e]) @ ys), 0)"
    using lv by simp
  show "level_get h (e_addr e) i = Some \<lparr>zl_forward = snd s, zl_span = word_of_nat (fst s - Suc (length xs))\<rparr>" if "i < e_height e"
  proof -
    have "pre (towers z (xs @ [e])) i = (Suc (length xs), e_addr e)"
      using that by (simp add: pre_def towers_append)
    then show ?thesis
      using pre_level [OF lv' i] by (simp add: s_def)
  qed
qed

lemma suc_tower_addr: "snd (suc_tower xs ys i) = 0 \<or> snd (suc_tower xs ys i) \<in> set (map e_addr ys)"
  using chain_addr [of "hd (chain i (Suc (length xs)) (map tower ys))" i "Suc (length xs)" "map tower ys"]
  by (cases "chain i (Suc (length xs)) (map tower ys)") (auto simp: suc_tower_def)

lemma zsl_unlink_ok:
  assumes lv: "lvl h i (chain i 0 (towers z (xs @ e # ys))) (length (xs @ e # ys), 0)" and i: "i < ZSKIPLIST_MAXLEVEL"
    and x: "e_addr e \<notin> set (map e_addr ys)" "0 < e_addr e"
    and u: "arr_get update i = Some (snd (pre (towers z xs) i))"
    and same: "\<forall>b. level_get h' b i = level_get h b i"
  shows "\<exists>h''. zsl_unlink (e_addr e) update i h' = Some h'' \<and> zsame h' h'' \<and> zback h'' = zback h' \<and>
    (\<forall>b j. level_get h'' b j = (if j = i then deleted_level h z xs e ys i b else level_get h' b j))"
proof -
  define s where "s = suc_tower (xs @ [e]) ys i"
  define u where "u = pre (towers z xs) i"
  define new where "new = \<lparr>zl_forward = snd s, zl_span = word_of_nat (fst s - fst u) - 1 :: uint32\<rparr>"
  note v = unlink_views [OF lv i, folded s_def u_def]
  have pos: "fst u \<le> length xs" "Suc (length xs) \<le> fst s"
    using pre_pos [OF i, of z xs] suc_tower_pos [of "xs @ [e]" ys i] by (simp_all add: u_def s_def)
  have ne: "snd s \<noteq> e_addr e"
    using suc_tower_addr [of "xs @ [e]" ys i] x unfolding s_def by (metis neq0_conv)
  have "\<exists>l f. level_get h' (snd u) i = Some l \<and> f l = new \<and> zsl_unlink (e_addr e) update i h' = level_set h' (snd u) i f"
  proof (cases "i < e_height e")
    case True
    have sp: "word_of_nat (Suc (length xs) - fst u) + (word_of_nat (fst s - Suc (length xs)) - 1) =
        word_of_nat (fst s - fst u) - (1 :: uint32)"
      using pos by (simp add: of_nat_diff)
    show ?thesis
      using v(1,2) [OF True] same u sp
      by (intro exI [of _ "\<lparr>zl_forward = e_addr e, zl_span = word_of_nat (Suc (length xs) - fst u)\<rparr>"]
          exI [of _ "\<lambda>l. l\<lparr>zl_span := zl_span l + (word_of_nat (fst s - Suc (length xs)) - 1), zl_forward := snd s\<rparr>"])
        (simp add: zsl_unlink_def new_def u_def)
  next
    case False
    show ?thesis
      using v(3) [OF False] same u ne
      by (intro exI [of _ "\<lparr>zl_forward = snd s, zl_span = word_of_nat (fst s - fst u)\<rparr>"]
          exI [of _ "\<lambda>l. l\<lparr>zl_span := zl_span l - 1\<rparr>"])
        (simp add: zsl_unlink_def new_def u_def)
  qed
  then obtain l f where l: "level_get h' (snd u) i = Some l" "f l = new"
      "zsl_unlink (e_addr e) update i h' = level_set h' (snd u) i f"
    by blast
  from level_set_ok [OF l(1), of f] show ?thesis
    using same l(2,3) by (auto simp: deleted_level_def Let_def new_def s_def u_def)
qed

lemma lvl_deleted:
  assumes lv: "lvl h i (chain i 0 (towers z (xs @ e # ys))) (length (xs @ e # ys), 0)" and i: "i < ZSKIPLIST_MAXLEVEL"
    and dist: "distinct (z_header z # map e_addr (xs @ e # ys))"
    and view: "\<And>b. level_get h' b i = deleted_level h z xs e ys i b"
  shows "lvl h' i (chain i 0 (towers z (xs @ ys))) (length (xs @ ys), 0)"
proof -
  let ?u = "pre (towers z xs) i" and ?ys = "chain i (Suc (length xs)) (map tower ys)" and ?n = "(length (xs @ ys), 0 :: nat)"
  obtain ps where ps: "chain i 0 (towers z xs) = ps @ [?u]"
    using pre_split [OF i] by blast
  have sh: "shift ?n = (length (xs @ e # ys), 0)" "chain i (Suc (Suc (length xs))) (map tower ys) = map shift ?ys"
    by (simp_all add: shift_def chain_shift)
  have s: "suc_tower (xs @ [e]) ys i = shift (hd (?ys @ [?n]))"
    by (cases ?ys) (simp_all add: suc_tower_def chain_shift shift_def)
  have old: "lvl h i (map shift ?ys) (shift ?n)" "lvl h i ps ?u"
    using lv unfolding sh(1) [symmetric] by (simp_all add: towers_append ps sh(2) del: lvl_shift split: if_splits)
  have others: "level_get h' (snd c) i = level_get h (snd c) i" if "c \<in> set ps \<union> set ?ys" for c
    using level_others(1) [OF _ ps that] dist by (auto simp: view deleted_level_def Let_def)
  have "lvl h' i ps ?u"
    by (rule lvl_frame [OF old(2)]) (use others in blast)
  moreover have "lvl h' i ?ys ?n"
    by (rule lvl_frame [OF old(1) [unfolded lvl_shift]]) (use others in blast)
  moreover have "fst ?u \<le> fst (hd (?ys @ [?n]))"
    using pre_pos [OF i, of z xs] suc_tower_pos [of xs ys i] by (simp add: suc_tower_def)
  then have "level_get h' (snd ?u) i = Some \<lparr>zl_forward = snd (hd (?ys @ [?n])), zl_span = word_of_nat (fst (hd (?ys @ [?n])) - fst ?u)\<rparr>"
    by (simp add: view deleted_level_def s of_nat_diff)
  ultimately show ?thesis
    by (simp add: towers_append ps)
qed

subsection \<open>Lowering the level\<close>

lemma zsl_lower_ok:
  assumes "0 < L" and "\<And>i. i < L \<Longrightarrow> level_get h a i \<noteq> None"
  shows "\<exists>L'. zsl_lower h a L = Some L' \<and> 0 < L' \<and> L' \<le> L \<and>
     (\<forall>i. L' \<le> i \<and> i < L \<longrightarrow> (\<exists>s. level_get h a i = Some \<lparr>zl_forward = 0, zl_span = s\<rparr>)) \<and>
     (L' = 1 \<or> (\<exists>l. level_get h a (L' - 1) = Some l \<and> zl_forward l \<noteq> 0))"
  using assms
proof (induction L)
  case (Suc L)
  show ?case
  proof (cases "L = 0")
    case False
    obtain l where l: "level_get h a L = Some l"
      using Suc.prems(2) [of L] by auto
    show ?thesis
    proof (cases "zl_forward l = 0")
      case True
      then have hd: "level_get h a L = Some \<lparr>zl_forward = 0, zl_span = zl_span l\<rparr>"
        using l by simp
      from Suc.IH Suc.prems(2) False obtain L' where L': "zsl_lower h a L = Some L'" "0 < L'" "L' \<le> L"
          "\<forall>i. L' \<le> i \<and> i < L \<longrightarrow> (\<exists>s. level_get h a i = Some \<lparr>zl_forward = 0, zl_span = s\<rparr>)"
          "L' = 1 \<or> (\<exists>l. level_get h a (L' - 1) = Some l \<and> zl_forward l \<noteq> 0)"
        by fastforce
      then show ?thesis
        using False True l hd by (intro exI [of _ L']) (auto simp: less_Suc_eq)
    next
      case False
      with l \<open>L \<noteq> 0\<close> show ?thesis
        by (intro exI [of _ "Suc L"]) auto
    qed
  qed simp
qed simp

lemma chain_empty_iff: "chain i p (map tower ns) = [] \<longleftrightarrow> (\<forall>e \<in> set ns. e_height e \<le> i)"
  by (induction ns arbitrary: p) auto

text \<open>The header has no successor at a level exactly when no tower reaches it.\<close>

lemma header_level:
  assumes lv: "lvl h i (chain i 0 (towers z ns)) (length ns, 0)" and i: "i < ZSKIPLIST_MAXLEVEL"
    and pos: "\<And>e. e \<in> set ns \<Longrightarrow> 0 < e_addr e" and l: "level_get h (z_header z) i = Some l"
  shows "zl_forward l = 0 \<longleftrightarrow> (\<forall>e \<in> set ns. e_height e \<le> i)"
proof -
  define cs where "cs = chain i (Suc 0) (map tower ns)"
  have f: "zl_forward l = snd (hd (cs @ [(length ns, 0)]))"
    using lv i l by (simp add: towers_def cs_def)
  have "zl_forward l = 0 \<longleftrightarrow> cs = []"
  proof (cases cs)
    case (Cons c ds)
    then have "snd c \<in> e_addr ` set ns"
      using chain_addr [of c i "Suc 0" "map tower ns"] by (auto simp: cs_def)
    with Cons pos show ?thesis
      by (auto simp: f)
  qed (simp add: f)
  moreover have "cs = [] \<longleftrightarrow> (\<forall>e \<in> set ns. e_height e \<le> i)"
    by (simp add: cs_def chain_empty_iff)
  ultimately show ?thesis
    by simp
qed

text \<open>The level the loop leaves is the height of the highest tower.\<close>

lemma zsl_lower_heights:
  assumes L: "0 < L" "L \<le> ZSKIPLIST_MAXLEVEL"
    and lv: "\<And>i. i < L \<Longrightarrow> lvl h i (chain i 0 (towers z ns)) (length ns, 0)"
    and pos: "\<And>e. e \<in> set ns \<Longrightarrow> 0 < e_addr e" and hts: "\<forall>e \<in> set ns. e_height e \<le> L"
    and hdl: "\<And>i. i < L \<Longrightarrow> level_get h (z_header z) i \<noteq> None"
  shows "\<exists>L'. zsl_lower h (z_header z) L = Some L' \<and> 0 < L' \<and> L' \<le> L \<and>
    (\<forall>i. L' \<le> i \<and> i < L \<longrightarrow> (\<exists>s. level_get h (z_header z) i = Some \<lparr>zl_forward = 0, zl_span = s\<rparr>)) \<and>
    (\<forall>e \<in> set ns. e_height e \<le> L') \<and> (L' = 1 \<or> (\<exists>e \<in> set ns. e_height e = L'))"
proof -
  obtain L' where L': "zsl_lower h (z_header z) L = Some L'" "0 < L'" "L' \<le> L"
      "\<forall>i. L' \<le> i \<and> i < L \<longrightarrow> (\<exists>s. level_get h (z_header z) i = Some \<lparr>zl_forward = 0, zl_span = s\<rparr>)"
      "L' = 1 \<or> (\<exists>l. level_get h (z_header z) (L' - 1) = Some l \<and> zl_forward l \<noteq> 0)"
    by atomize_elim (rule zsl_lower_ok [OF L(1) hdl])
  have low: "\<forall>e \<in> set ns. e_height e \<le> L'"
  proof (cases "L' < L")
    case True
    with L'(4) obtain s where "level_get h (z_header z) L' = Some \<lparr>zl_forward = 0, zl_span = s\<rparr>"
      by blast
    with header_level [OF lv [OF True] _ pos] True L(2) show ?thesis
      by auto
  next
    case False
    with L'(3) hts show ?thesis
      by auto
  qed
  have "L' = 1 \<or> (\<exists>e \<in> set ns. e_height e = L')"
  proof (cases "L' = 1")
    case False
    with L'(2,3,5) obtain l where l: "level_get h (z_header z) (L' - 1) = Some l" "zl_forward l \<noteq> 0" "L' - 1 < L"
      by auto
    from header_level [OF lv [OF l(3)] _ pos l(1)] l(2,3) L(2) obtain e where "e \<in> set ns" "L' - 1 < e_height e"
      by (auto simp: not_le)
    with low L'(2) show ?thesis
      by (metis Suc_diff_1 Suc_leI le_antisym)
  qed simp
  with L' low show ?thesis
    by blast
qed

subsection \<open>The deletion of a node\<close>

lemma unlink_all:
  assumes wf: "zsl_wf h z (xs @ e # ys)"
    and upd: "\<And>i. i < z_level z \<Longrightarrow> arr_get update i = Some (snd (pre (towers z xs) i))"
  obtains h1 where "for_each (zsl_unlink (e_addr e) update) [0..<z_level z] h = Some h1"
    and "zsame h h1" "zback h1 = zback h"
    and "\<And>i. i < z_level z \<Longrightarrow> lvl h1 i (chain i 0 (towers z (xs @ ys))) (length (xs @ ys), 0)"
    and "\<And>b j. z_level z \<le> j \<or> b \<notin> z_addrs z xs \<Longrightarrow> level_get h1 b j = level_get h b j"
proof -
  have lv: "lvl h i (chain i 0 (towers z (xs @ e # ys))) (length (xs @ e # ys), 0)" "i < ZSKIPLIST_MAXLEVEL" if "i < z_level z" for i
    using wf that by (simp_all add: zsl_wf_def)
  have dist: "distinct (z_header z # map e_addr (xs @ e # ys))"
    using wf by (simp add: zsl_wf_def)
  have x: "e_addr e \<notin> set (map e_addr ys)" "0 < e_addr e"
    using dist tower_addr_pos(1) [OF wf, of "tower e"] by (auto simp: towers_def)
  obtain h1 where h1: "for_each (zsl_unlink (e_addr e) update) [0..<z_level z] h = Some h1" "zsame h h1" "zback h1 = zback h"
      "\<And>b j. level_get h1 b j = (if j \<in> set [0..<z_level z] then deleted_level h z xs e ys j b else level_get h b j)"
  proof (rule for_levels_from [of "[0..<z_level z]" h _ "deleted_level h z xs e ys"])
    fix i h'
    assume i: "i \<in> set [0..<z_level z]" and same: "\<forall>b. level_get h' b i = level_get h b i"
    then show "\<exists>h''. zsl_unlink (e_addr e) update i h' = Some h'' \<and> zsame h' h'' \<and> zback h'' = zback h' \<and>
        (\<forall>b j. level_get h'' b j = (if j = i then deleted_level h z xs e ys i b else level_get h' b j))"
      by (intro zsl_unlink_ok [OF lv x upd]) auto
  qed auto
  show ?thesis
  proof (rule that [OF h1(1-3)])
    show "lvl h1 i (chain i 0 (towers z (xs @ ys))) (length (xs @ ys), 0)" if "i < z_level z" for i
      by (rule lvl_deleted [OF lv [OF that] dist]) (use that in \<open>simp add: h1(4)\<close>)
    show "level_get h1 b j = level_get h b j" if "z_level z \<le> j \<or> b \<notin> z_addrs z xs" for b j
    proof (cases "j < z_level z")
      case True
      then have "b \<noteq> snd (pre (towers z xs) j)"
        using that pre_addr [OF lv(2) [OF True], of z xs] by (auto simp: z_addrs_def)
      then show ?thesis
        using True by (simp add: h1(4) deleted_level_def Let_def)
    qed (simp add: h1(4))
  qed
qed

lemma zslDeleteNode_ok:
  assumes wf: "zsl_wf h z (xs @ e # ys)"
    and upd: "\<And>i. i < z_level z \<Longrightarrow> arr_get update i = Some (snd (pre (towers z xs) i))"
  obtains h' z' where "zslDeleteNode h z (e_addr e) update = Some (h', z')"
    and "zsl_wf h' z' (xs @ ys)" and "z_header z' = z_header z" and "z_level z' \<le> z_level z"
    and "nodes h' (e_addr e) = nodes h (e_addr e)" and "touches h (z_addrs z (xs @ ys)) h'"
    and "next_node h' = next_node h"
proof -
  have W: "heap_wf h" "\<forall>e \<in> set (xs @ e # ys). entry_wf h (z_level z) e" "distinct (z_header z # map e_addr (xs @ e # ys))"
      "backs h 0 (xs @ e # ys)" "z_tail z = last_addr 0 (xs @ e # ys)" "z_length z = length (xs @ e # ys)"
      "0 < z_level z" "z_level z \<le> ZSKIPLIST_MAXLEVEL" "\<exists>s. zattr h (z_header z) = Some (None, s, ZSKIPLIST_MAXLEVEL)"
      "\<And>i. z_level z \<le> i \<Longrightarrow> i < ZSKIPLIST_MAXLEVEL \<Longrightarrow> \<exists>s. level_get h (z_header z) i = Some \<lparr>zl_forward = 0, zl_span = s\<rparr>"
      "lvl h 0 (chain 0 0 (towers z (xs @ e # ys))) (length (xs @ e # ys), 0)"
    using wf by (auto simp: zsl_wf_def)
  have hts: "\<forall>e \<in> set ys. 0 < e_height e" "0 < e_height e"
    using W(2) by (auto simp: entry_wf_def)
  have pos: "0 < e_addr e'" if "e' \<in> set (xs @ ys)" for e'
    using tower_addr_pos(1) [OF wf, of "tower e'"] that by (auto simp: towers_def)
  obtain h1 where h1: "for_each (zsl_unlink (e_addr e) update) [0..<z_level z] h = Some h1" "zsame h h1" "zback h1 = zback h"
      "\<And>i. i < z_level z \<Longrightarrow> lvl h1 i (chain i 0 (towers z (xs @ ys))) (length (xs @ ys), 0)"
      "\<And>b j. z_level z \<le> j \<or> b \<notin> z_addrs z xs \<Longrightarrow> level_get h1 b j = level_get h b j"
    by (rule unlink_all [OF wf upd]) blast+
  have xo: "e_addr e \<notin> z_addrs z (xs @ ys)" "z_addrs z xs \<subseteq> z_addrs z (xs @ ys)"
    using W(3) by (auto simp: z_addrs_def)
  then have x1: "level_get h1 (e_addr e) j = level_get h (e_addr e) j" for j
    using h1(5) by blast
  have att1: "zattr h1 = zattr h"
    using h1(2) by (simp add: zsame_def)
  have "zback h1 (e_addr e) = Some (last_addr 0 xs)"
    using W(4) h1(3) by simp
  then obtain xn where xn: "node_at h1 (e_addr e) = Some xn" "zn_backward xn = last_addr 0 xs"
    by (auto simp: zback_def node_at_def)
  obtain sp where x0: "level_get h1 (e_addr e) 0 = Some \<lparr>zl_forward = (if ys = [] then 0 else e_addr (hd ys)), zl_span = sp\<rparr>"
    using unlink_views(2) [OF W(11)] hts suc_tower_zero [OF hts(1), of "xs @ [e]"]
    by (auto simp: x1 ZSKIPLIST_MAXLEVEL_def)
  have ys: "zattr h1 (e_addr e') \<noteq> None" "0 < e_addr e'" if "e' \<in> set ys" for e'
    using pos [of e'] W(2) that by (auto simp: att1 entry_wf_def)
  have dist_y: "distinct (map e_addr ys)" and b1: "backs h1 0 xs" "backs h1 (e_addr e) ys"
    using W(3,4) by (auto intro!: backs_frame [of h _ _ h1] simp: h1(3))
  obtain h2 where h2: "(if (if ys = [] then 0 else e_addr (hd ys)) \<noteq> 0
      then do { h \<leftarrow> node_upd h1 (if ys = [] then 0 else e_addr (hd ys)) (\<lambda>n. n\<lparr>zn_backward := last_addr 0 xs\<rparr>); Some (h, z) }
      else Some (h1, z\<lparr>z_tail := last_addr 0 xs\<rparr>)) = Some (h2, if ys = [] then z\<lparr>z_tail := last_addr 0 xs\<rparr> else z)"
      "zsame h1 h2" "level_get h2 = level_get h1" "backs h2 (last_addr 0 xs) ys"
      "\<And>b. b \<notin> set (map e_addr ys) \<Longrightarrow> zback h2 b = zback h1 b"
    by (rule set_back [OF ys(1) dist_y b1(2) refl ys(2), where z = z]) auto
  have att2: "zattr h2 = zattr h" "next_node h2 = next_node h" "heap_wf h2"
    using h1(2) h2(2) W(1) zsame_heap_wf [OF h1(2)] zsame_heap_wf [OF h2(2)] by (simp_all add: zsame_def)
  have hdl: "level_get h2 (z_header z) i \<noteq> None" if "i < z_level z" for i
    using W(8,9) that level_get_attr [of h2 "z_header z" i] by (auto simp: att2)
  have lv2: "lvl h2 i (chain i 0 (towers z (xs @ ys))) (length (xs @ ys), 0)" if "i < z_level z" for i
    using h1(4) [OF that] lvl_cong [OF h2(3)] by simp
  have hts': "\<forall>e' \<in> set (xs @ ys). e_height e' \<le> z_level z"
    using W(2) by (auto simp: entry_wf_def)
  obtain L' where L': "zsl_lower h2 (z_header z) (z_level z) = Some L'" "0 < L'" "L' \<le> z_level z"
      "\<forall>i. L' \<le> i \<and> i < z_level z \<longrightarrow> (\<exists>s. level_get h2 (z_header z) i = Some \<lparr>zl_forward = 0, zl_span = s\<rparr>)"
      "\<forall>e \<in> set (xs @ ys). e_height e \<le> L'" "L' = 1 \<or> (\<exists>e \<in> set (xs @ ys). e_height e = L')"
    by atomize_elim (rule zsl_lower_heights [OF W(7,8) lv2 pos hts' hdl])
  define z' where "z' = (if ys = [] then z\<lparr>z_tail := last_addr 0 xs\<rparr> else z)\<lparr>z_level := L', z_length := z_length z - 1\<rparr>"
  have flds: "z_level z' = L'" "z_header z' = z_header z" "z_length z' = length (xs @ ys)"
      "z_tail z' = last_addr 0 (xs @ ys)" "towers z' ns = towers z ns" for ns :: "'a zentry list"
    using W(5,6) by (cases ys; simp add: z'_def towers_def)+
  have out: "b \<notin> set (map e_addr ys)" if "b \<in> e_addr ` set (xs @ [e])" for b
  proof -
    have "e_addr ` set (xs @ [e]) \<inter> set (map e_addr ys) = {}"
      using W(3) by (simp add: image_Un Int_Un_distrib2 Int_insert_left)
    with that show ?thesis
      by blast
  qed
  have b2: "backs h2 0 xs"
    by (rule backs_frame [OF b1(1)]) (rule h2(5) [OF out], simp)
  show ?thesis
  proof (rule that)
    show "zslDeleteNode h z (e_addr e) update = Some (h2, z')"
      using h1(1) xn x0 h2(1) L'(1) ys(2) [of "hd ys"]
      by (cases "ys = []") (auto simp: zslDeleteNode_def z'_def bind_eq_Some_conv)
    show "zsl_wf h2 z' (xs @ ys)"
      unfolding zsl_wf_def flds
    proof (intro conjI allI impI)
      show "lvl h2 i (chain i 0 (towers z (xs @ ys))) (length (xs @ ys), 0)" if "i < L'" for i
        using lv2 L'(3) that by simp
      show "\<exists>s. level_get h2 (z_header z) i = Some \<lparr>zl_forward = 0, zl_span = s\<rparr>" if "L' \<le> i \<and> i < ZSKIPLIST_MAXLEVEL" for i
        using L'(4) W(10) [of i] h1(5) [of i "z_header z"] that by (cases "i < z_level z") (auto simp: h2(3))
      show "\<forall>e' \<in> set (xs @ ys). entry_wf h2 L' e'"
        using W(2) L'(5) by (auto simp: entry_wf_def att2)
      show "backs h2 0 (xs @ ys)"
        using b2 h2(4) by simp
    qed (use W att2 L'(2,3,6) in auto)
    show "nodes h2 (e_addr e) = nodes h (e_addr e)"
      using h2(5) [OF out, of "e_addr e"] by (intro views_node) (simp_all add: att2 h2(3) h1(3) x1)
    show "touches h (z_addrs z (xs @ ys)) h2"
      by (rule touches_views) (use h1(5) in \<open>auto simp: att2 h2(3,5) h1(3) z_addrs_def\<close>)
  qed (use L'(3) att2(2) flds in auto)
qed

end
