(* ===== verification/ZskiplistOps.thy ===== *)
theory ZskiplistOps
  imports ZskiplistDelete SdsEdit
begin

text \<open>
  The operations of skiplists on lists in the order of the code: insertion and deletion by score and
  member, the searches by range and the ranks.
\<close>

subsection \<open>The order\<close>

definition text_less :: "char list \<Rightarrow> char list \<Rightarrow> bool" where
  "text_less s t \<longleftrightarrow> (s, t) \<in> lexord {(a, b). (of_char a :: nat) < of_char b}"

text \<open>A score and the text of a member.\<close>

type_synonym 's zpair = "'s \<times> char list"

definition zp_less :: "'s :: linorder zpair \<Rightarrow> 's zpair \<Rightarrow> bool" where
  "zp_less p q \<longleftrightarrow> fst p < fst q \<or> (fst p = fst q \<and> text_less (snd p) (snd q))"

definition zpair :: "'s zentry \<Rightarrow> 's zpair" where
  "zpair e = (e_score e, key_string (e_obj e))"

lemma text_less_trans: "text_less r s \<Longrightarrow> text_less s t \<Longrightarrow> text_less r t"
  unfolding text_less_def by (rule lexord_trans) (auto simp: trans_def)

lemma text_less_irrefl: "\<not> text_less s s"
  unfolding text_less_def by (rule lexord_irreflexive) auto

lemma text_less_total: "s \<noteq> t \<Longrightarrow> text_less s t \<or> text_less t s"
proof -
  have "(s, t) \<in> lexord {(a, b). (of_char a :: nat) < of_char b} \<or> s = t \<or> (t, s) \<in> lexord {(a, b). (of_char a :: nat) < of_char b}"
    by (rule lexord_linear) (use of_char_eq_iff [where 'a = nat] in \<open>auto simp: neq_iff\<close>)
  then show "s \<noteq> t \<Longrightarrow> text_less s t \<or> text_less t s"
    by (auto simp: text_less_def)
qed

lemma zp_less_trans: "zp_less p q \<Longrightarrow> zp_less q r \<Longrightarrow> zp_less p r"
  by (auto simp: zp_less_def intro: text_less_trans)

lemma zp_less_irrefl [simp]: "\<not> zp_less p p"
  by (simp add: zp_less_def text_less_irrefl)

lemma zp_less_total: "p \<noteq> q \<Longrightarrow> zp_less p q \<or> zp_less q p"
  using text_less_total by (cases p; cases q) (auto simp: zp_less_def)

lemma zp_less_asym: "zp_less p q \<Longrightarrow> \<not> zp_less q p"
  using zp_less_trans [of p q p] by auto

lemma compare_keys_sign:
  "compare_keys a b < 0 \<longleftrightarrow> text_less (key_string a) (key_string b)"
  "compare_keys a b = 0 \<longleftrightarrow> key_string a = key_string b"
proof -
  define c where "c = compare_keys a b"
  have m: "(if x < y then x else y) = min x y" for x y :: nat
    by simp
  have "c = (if memcmp (key_string a) (key_string b) = 0
      then int (length (key_string a)) - int (length (key_string b)) else memcmp (key_string a) (key_string b))"
    using memcmp_take [of "key_string a" "key_string b"] by (simp add: c_def compare_keys_def Let_def m)
  from memcmp_length_lexord [OF this] show "compare_keys a b < 0 \<longleftrightarrow> text_less (key_string a) (key_string b)"
      "compare_keys a b = 0 \<longleftrightarrow> key_string a = key_string b"
    by (auto simp: c_def text_less_def)
qed

lemma equal_keys_iff: "equal_keys a b \<longleftrightarrow> key_string a = key_string b"
  by (simp add: equal_keys_def dictEncObjKeyCompare_eq)

lemma entry_before_pair: "entry_before score obj e \<longleftrightarrow> zp_less (zpair e) (score, key_string obj)"
  by (simp add: entry_before_def zp_less_def zpair_def compare_keys_sign)

abbreviation zsorted :: "'s :: linorder zentry list \<Rightarrow> bool" where
  "zsorted ns \<equiv> sorted_wrt (\<lambda>e f. zp_less (zpair e) (zpair f)) ns"

text \<open>A property that holds below every entry it holds of splits a sorted list.\<close>

lemma zsorted_split:
  assumes "zsorted ns" and mono: "\<And>e f. \<lbrakk>e \<in> set ns; f \<in> set ns; zp_less (zpair e) (zpair f); P f\<rbrakk> \<Longrightarrow> P e"
  shows "\<forall>e \<in> set (takeWhile P ns). P e" and "\<forall>e \<in> set (dropWhile P ns). \<not> P e"
proof -
  show "\<forall>e \<in> set (takeWhile P ns). P e"
    by (auto dest: set_takeWhileD)
  show "\<forall>e \<in> set (dropWhile P ns). \<not> P e"
  proof (cases "dropWhile P ns")
    case (Cons y ys)
    have ns: "ns = takeWhile P ns @ y # ys"
      using Cons by (metis takeWhile_dropWhile_id)
    have "\<not> P y"
      using Cons by (metis hd_dropWhile list.distinct(1) list.sel(1))
    moreover have "zp_less (zpair y) (zpair f)" if "f \<in> set ys" for f
    proof -
      have "zsorted (takeWhile P ns @ y # ys)"
        using assms(1) ns by simp
      with that show ?thesis
        by (simp add: sorted_wrt_append)
    qed
    moreover have "set (y # ys) \<subseteq> set ns"
      by (subst ns) auto
    ultimately show ?thesis
      using mono Cons by auto
  next
    case Nil
    show ?thesis
      unfolding Nil by simp
  qed
qed

lemma zsorted_distinct: "zsorted ns \<Longrightarrow> distinct (map zpair ns)"
proof (induction ns)
  case (Cons e ns)
  then have "zpair f \<noteq> zpair e" if "f \<in> set ns" for f
    using that by (metis zp_less_irrefl sorted_wrt.simps(2))
  with Cons show ?case
    by auto
qed simp

subsection \<open>Insertion and deletion\<close>

text \<open>A skiplist of the entries \<open>ns\<close>, in order.\<close>

definition zsl_holds :: "'s :: linorder zheap \<Rightarrow> zskiplist \<Rightarrow> 's zentry list \<Rightarrow> bool" where
  "zsl_holds h z ns \<longleftrightarrow> zsl_wf h z ns \<and> zsorted ns"

abbreviation zbelow :: "'s :: linorder zpair \<Rightarrow> 's zentry list \<Rightarrow> 's zentry list" where
  "zbelow p ns \<equiv> takeWhile (\<lambda>e. zp_less (zpair e) p) ns"

abbreviation zabove :: "'s :: linorder zpair \<Rightarrow> 's zentry list \<Rightarrow> 's zentry list" where
  "zabove p ns \<equiv> dropWhile (\<lambda>e. zp_less (zpair e) p) ns"

lemma below_above:
  assumes "zsorted ns"
  shows "\<forall>e \<in> set (zbelow p ns). zp_less (zpair e) p" "\<forall>e \<in> set (zabove p ns). \<not> zp_less (zpair e) p"
  by (rule zsorted_split [OF assms]; blast intro: zp_less_trans)+

lemma zslInsert_holds:
  assumes hold: "zsl_holds h z ns" and new: "(score, key_string obj) \<notin> zpair ` set ns"
    and rnd: "zslRandomLevel rs = Some (level, rs')"
  defines "p \<equiv> (score, key_string obj)" and "e \<equiv> \<lparr>e_addr = next_node h, e_height = level, e_score = score, e_obj = obj\<rparr>"
  shows "\<exists>h' z'. zslInsert h z rs score obj = Some (h', z', next_node h, rs') \<and>
    zsl_holds h' z' (zbelow p ns @ e # zabove p ns) \<and> z_header z' = z_header z \<and> touches h (z_addrs z ns) h'"
proof -
  have wf: "zsl_wf h z (zbelow p ns @ zabove p ns)" and sorted: "zsorted ns" "zsorted (zbelow p ns @ zabove p ns)"
    using hold unfolding takeWhile_dropWhile_id zsl_holds_def by blast+
  note ba = below_above [OF sorted(1), of p]
  have "\<forall>e' \<in> set (zbelow p ns). entry_before score obj e'" "\<forall>e' \<in> set (zabove p ns). \<not> entry_before score obj e'"
    using ba unfolding entry_before_pair p_def by blast+
  from zslInsert_ok [OF wf this rnd] obtain h' z' where "zslInsert h z rs score obj = Some (h', z', next_node h, rs')"
      "zsl_wf h' z' (zbelow p ns @ e # zabove p ns)" "z_header z' = z_header z" "touches h (z_addrs z ns) h'"
    unfolding takeWhile_dropWhile_id e_def by blast
  moreover have "zsorted (zbelow p ns @ e # zabove p ns)"
  proof -
    have pe: "zpair e = p"
      by (simp add: zpair_def e_def p_def)
    have "zp_less p (zpair f)" if "f \<in> set (zabove p ns)" for f
    proof -
      have "zpair f \<noteq> p"
        using new that unfolding p_def by (metis imageI set_dropWhileD)
      then show ?thesis
        using ba(2) that zp_less_total by blast
    qed
    with ba(1) sorted(2) show ?thesis
      unfolding sorted_wrt_append by (simp add: pe)
  qed
  ultimately show ?thesis
    by (auto simp: zsl_holds_def)
qed

text \<open>The node after the end of a search.\<close>

lemma search_next:
  assumes wf: "zsl_wf h z (xs @ ys)"
  obtains s where "level_get h (last_addr (z_header z) xs) 0 = Some \<lparr>zl_forward = (if ys = [] then 0 else e_addr (hd ys)), zl_span = s\<rparr>"
proof -
  have lv: "lvl h 0 (chain 0 0 (towers z (xs @ ys))) (length (xs @ ys), 0)"
    and hts: "\<forall>e \<in> set xs. 0 < e_height e" "\<forall>e \<in> set ys. 0 < e_height e"
    using wf by (auto simp: zsl_wf_def entry_wf_def)
  show ?thesis
    using pre_level [OF lv] pre_zero [OF hts(1), of z] suc_tower_zero [OF hts(2), of xs] that
    by (simp add: ZSKIPLIST_MAXLEVEL_def)
qed

lemma goes_plain:
  assumes "zsl_wf h z (xs @ ys)" "\<forall>e \<in> set xs. P e" "\<forall>e \<in> set ys. \<not> P e"
    and "\<And>f e. \<lbrakk>zn_obj f = Some (e_obj e); zn_score f = e_score e\<rbrakk> \<Longrightarrow> go f = P e"
  shows "zsl_descend h (\<lambda>r s. go) no_rank (z_level z) (z_header z) () =
     Some (last_addr (z_header z) xs, (), map (\<lambda>j. snd (pre (towers z xs) j)) [0..<z_level z], map (\<lambda>j. ()) [0..<z_level z])"
  using zsl_search [OF assms(1) goes_before [OF assms, where add = no_rank and A = "\<lambda>_. ()"]] by simp

lemma zsl_free_node:
  assumes wf: "zsl_wf h z ns" and a: "a \<notin> z_addrs z ns" and n: "nodes h a = Some n" "zn_obj n = Some obj"
  obtains h' where "zslFreeNode h a = Some (h', [obj])" "zsl_wf h' z ns" "nodes h' = (nodes h)(a := None)" "next_node h' = next_node h"
proof -
  let ?h = "h\<lparr>nodes := (nodes h)(a := None)\<rparr>"
  have "zslFreeNode h a = Some (?h, [obj])"
    using n by (simp add: zslFreeNode_def node_at_def node_free_def)
  moreover have "heap_wf ?h"
    using wf by (simp add: zsl_wf_def)
  then have "zsl_wf ?h z ns"
    by (rule zsl_wf_frame [OF wf]) (use a in auto)
  ultimately show ?thesis
    using that by simp
qed

text \<open>The deletion of a node and its release, as all callers of \<^verbatim>\<open>zslDeleteNode\<close> do.\<close>

lemma delete_and_free:
  assumes wf: "zsl_wf h z (xs @ e # ys)"
    and upd: "\<And>i. i < z_level z \<Longrightarrow> arr_get update i = Some (snd (pre (towers z xs) i))"
  obtains h1 z' h' where "zslDeleteNode h z (e_addr e) update = Some (h1, z')" and "zslFreeNode h1 (e_addr e) = Some (h', [e_obj e])"
    and "zsl_wf h' z' (xs @ ys)" and "z_header z' = z_header z" and "z_level z' \<le> z_level z"
    and "touches h (z_addrs z (xs @ e # ys)) h'" and "nodes h1 (e_addr e) = nodes h (e_addr e)"
    and "next_node h' = next_node h"
proof -
  obtain h1 z' where d: "zslDeleteNode h z (e_addr e) update = Some (h1, z')" "zsl_wf h1 z' (xs @ ys)"
      "z_header z' = z_header z" "z_level z' \<le> z_level z" "nodes h1 (e_addr e) = nodes h (e_addr e)"
      "touches h (z_addrs z (xs @ ys)) h1" "next_node h1 = next_node h"
    by (rule zslDeleteNode_ok [OF wf upd]) blast+
  have out: "e_addr e \<notin> z_addrs z' (xs @ ys)"
    using wf d(3) by (auto simp: zsl_wf_def z_addrs_def)
  obtain n where n: "nodes h1 (e_addr e) = Some n" "zn_obj n = Some (e_obj e)"
    using entry_node [OF wf, of e] d(5) by (auto simp: node_at_def)
  obtain h' where f: "zslFreeNode h1 (e_addr e) = Some (h', [e_obj e])" "zsl_wf h' z' (xs @ ys)"
      "nodes h' = (nodes h1)(e_addr e := None)" "next_node h' = next_node h1"
    by (rule zsl_free_node [OF d(2) out n]) blast
  have "touches h (z_addrs z (xs @ e # ys)) h'"
    using d(6) f(3,4) by (auto simp: touches_def z_addrs_def)
  with d f show ?thesis
    using that by simp
qed

lemma zabove_hd:
  assumes sorted: "zsorted ns"
  shows "p \<in> zpair ` set ns \<longleftrightarrow> zabove p ns \<noteq> [] \<and> zpair (hd (zabove p ns)) = p"
    and "zabove p ns = e # ys \<Longrightarrow> zpair e = p \<Longrightarrow> filter (\<lambda>f. zpair f \<noteq> p) ns = zbelow p ns @ ys"
proof -
  note ba = below_above [OF sorted, of p]
  have s2: "zsorted (zbelow p ns @ zabove p ns)"
    using sorted unfolding takeWhile_dropWhile_id .
  show "p \<in> zpair ` set ns \<longleftrightarrow> zabove p ns \<noteq> [] \<and> zpair (hd (zabove p ns)) = p"
  proof
    assume "p \<in> zpair ` set ns"
    then obtain f where f: "f \<in> set ns" "zpair f = p"
      by auto
    then have "f \<notin> set (zbelow p ns)"
      using ba(1) zp_less_irrefl by metis
    then have fa: "f \<in> set (zabove p ns)"
      using f(1) by (metis Un_iff set_append takeWhile_dropWhile_id)
    then obtain y ys where y: "zabove p ns = y # ys"
      by (cases "zabove p ns") auto
    have "f = y \<or> zp_less (zpair y) p"
      using fa s2 f(2) unfolding y sorted_wrt_append by auto
    moreover have "\<not> zp_less (zpair y) p"
      using ba(2) y by (metis list.set_intros(1))
    ultimately show "zabove p ns \<noteq> [] \<and> zpair (hd (zabove p ns)) = p"
      using y f(2) by simp
  next
    assume "zabove p ns \<noteq> [] \<and> zpair (hd (zabove p ns)) = p"
    then show "p \<in> zpair ` set ns"
      by (metis hd_in_set imageI set_dropWhileD)
  qed
  assume y: "zabove p ns = e # ys" "zpair e = p"
  have "filter (\<lambda>f. zpair f \<noteq> p) (zbelow p ns) = zbelow p ns"
    using ba(1) by (intro filter_True ballI) (metis zp_less_irrefl)
  moreover have "zpair f \<noteq> p" if "f \<in> set ys" for f
    using s2 that y(2) zp_less_irrefl unfolding y(1) sorted_wrt_append by (metis sorted_wrt.simps(2))
  then have "filter (\<lambda>f. zpair f \<noteq> p) (e # ys) = ys"
    using y(2) by (simp add: filter_True)
  ultimately show "filter (\<lambda>f. zpair f \<noteq> p) ns = zbelow p ns @ ys"
    by (metis filter_append takeWhile_dropWhile_id y(1))
qed

lemma zslDelete_holds:
  fixes score :: "'s :: linorder" and obj :: str_key
  assumes hold: "zsl_holds h z ns"
  defines "p \<equiv> (score, key_string obj)"
  shows "\<exists>h' z' rel. zslDelete h z score obj = Some (h', z', p \<in> zpair ` set ns, rel) \<and>
    zsl_holds h' z' (filter (\<lambda>e. zpair e \<noteq> p) ns) \<and> z_header z' = z_header z \<and> touches h (z_addrs z ns) h' \<and>
    map key_string rel = (if p \<in> zpair ` set ns then [key_string obj] else [])"
proof -
  have wf: "zsl_wf h z (zbelow p ns @ zabove p ns)" and sorted: "zsorted ns"
    using hold unfolding takeWhile_dropWhile_id zsl_holds_def by blast+
  note ba = below_above [OF sorted, of p]
  have bef: "\<forall>e \<in> set (zbelow p ns). entry_before score obj e" "\<forall>e \<in> set (zabove p ns). \<not> entry_before score obj e"
    using ba unfolding entry_before_pair p_def by blast+
  note search = goes_plain [OF wf bef node_before_entry]
  obtain s where nxt: "level_get h (last_addr (z_header z) (zbelow p ns)) 0 =
      Some \<lparr>zl_forward = (if zabove p ns = [] then 0 else e_addr (hd (zabove p ns))), zl_span = s\<rparr>"
    by (rule search_next [OF wf])
  show ?thesis
  proof (cases "zabove p ns")
    case Nil
    then have "p \<notin> zpair ` set ns"
      using zabove_hd(1) [OF sorted, of p] by simp
    moreover from this have "filter (\<lambda>e. zpair e \<noteq> p) ns = ns"
      by (intro filter_True) auto
    ultimately show ?thesis
      using hold search nxt Nil by (simp add: zslDelete_def)
  next
    case (Cons y ys)
    have y: "0 < e_addr y" "\<exists>f. node_at h (e_addr y) = Some f \<and> zn_obj f = Some (e_obj y) \<and> zn_score f = e_score y"
      using tower_addr_pos(1) [OF wf, of "tower y"] entry_node [OF wf, of y] Cons by (auto simp: towers_def)
    have found: "score = e_score y \<and> equal_keys (e_obj y) obj \<longleftrightarrow> p \<in> zpair ` set ns"
    proof -
      have "p \<in> zpair ` set ns \<longleftrightarrow> zpair y = p"
        using zabove_hd(1) [OF sorted, of p] unfolding Cons by simp
      then show ?thesis
        by (auto simp: equal_keys_iff zpair_def p_def)
    qed
    show ?thesis
    proof (cases "p \<in> zpair ` set ns")
      case False
      then have "filter (\<lambda>e. zpair e \<noteq> p) ns = ns"
        by (intro filter_True) auto
      with False found y search nxt hold Cons show ?thesis
        by (auto simp: zslDelete_def)
    next
      case True
      have wf': "zsl_wf h z (zbelow p ns @ y # ys)" and yp: "zpair y = p"
        using wf Cons zabove_hd(1) [OF sorted, of p] True by simp_all
      obtain h1 z' h' where d: "zslDeleteNode h z (e_addr y) (map (\<lambda>j. snd (pre (towers z (zbelow p ns)) j)) [0..<z_level z]) = Some (h1, z')"
          "zslFreeNode h1 (e_addr y) = Some (h', [e_obj y])" "zsl_wf h' z' (zbelow p ns @ ys)" "z_header z' = z_header z"
          "touches h (z_addrs z (zbelow p ns @ y # ys)) h'"
        by (rule delete_and_free [OF wf', of "map (\<lambda>j. snd (pre (towers z (zbelow p ns)) j)) [0..<z_level z]"]) (auto simp: arr_get_def)
      have rest: "zbelow p ns @ ys = filter (\<lambda>e. zpair e \<noteq> p) ns"
        using zabove_hd(2) [OF sorted Cons yp] by simp
      have ns: "zbelow p ns @ y # ys = ns"
        using Cons by (metis takeWhile_dropWhile_id)
      have "zslDelete h z score obj = Some (h', z', True, [e_obj y])"
        using found True y search nxt Cons d(1,2) by (auto simp: zslDelete_def)
      moreover have "zsl_holds h' z' (filter (\<lambda>e. zpair e \<noteq> p) ns)"
        using d(3) sorted unfolding zsl_holds_def rest by (simp add: sorted_wrt_filter)
      moreover have "key_string (e_obj y) = key_string obj"
        using yp by (simp add: zpair_def p_def)
      ultimately show ?thesis
        using d(4,5) True unfolding ns by auto
    qed
  qed
qed

end
