(* ===== verification/ZskiplistQuery.thy ===== *)
theory ZskiplistQuery
  imports ZskiplistOps
begin

text \<open>The queries of skiplists: ranges of scores, the rank of an entry and the entry of a rank.\<close>

subsection \<open>Ranges\<close>

lemma entry_found:
  assumes "zsl_wf h z ns" "e \<in> set ns"
  shows "\<exists>f. node_at h (e_addr e) = Some f \<and> zn_score f = e_score e \<and> zn_obj f = Some (e_obj e)" and "0 < e_addr e"
  using entry_node [OF assms] tower_addr_pos(1) [OF assms(1), of "tower e"] assms(2) by (auto simp: towers_def)

text \<open>The tail and the first node, which the quick tests for empty ranges look at.\<close>

lemma zsl_ends:
  assumes wf: "zsl_wf h z ns"
  obtains s where "level_get h (z_header z) 0 = Some \<lparr>zl_forward = (if ns = [] then 0 else e_addr (hd ns)), zl_span = s\<rparr>"
    and "z_tail z = (if ns = [] then 0 else e_addr (last ns))"
proof -
  have wf': "zsl_wf h z ([] @ ns)" and tail: "z_tail z = last_addr 0 ns"
    using wf by (auto simp: zsl_wf_def)
  obtain s where "level_get h (z_header z) 0 = Some \<lparr>zl_forward = (if ns = [] then 0 else e_addr (hd ns)), zl_span = s\<rparr>"
    by (rule search_next [OF wf']) simp
  then show ?thesis
    using that tail by (cases "ns = []") (simp_all add: last_addr_last)
qed

text \<open>
  A range is what lies above one bound and below another; the bounds are given both on nodes and on
  entries. The searches by score and by member share these lemmas.
\<close>

locale zsl_range =
  fixes gte lte :: "'s :: linorder zentry \<Rightarrow> bool" and gte_node lte_node :: "'s zskiplistNode \<Rightarrow> bool" and ns :: "'s zentry list"
  assumes gte_node: "\<lbrakk>zn_obj f = Some (e_obj e); zn_score f = e_score e\<rbrakk> \<Longrightarrow> gte_node f = gte e"
    and lte_node: "\<lbrakk>zn_obj f = Some (e_obj e); zn_score f = e_score e\<rbrakk> \<Longrightarrow> lte_node f = lte e"
    and gte_up: "\<lbrakk>d \<in> set ns; e \<in> set ns; zp_less (zpair d) (zpair e); gte d\<rbrakk> \<Longrightarrow> gte e"
    and lte_down: "\<lbrakk>d \<in> set ns; e \<in> set ns; zp_less (zpair d) (zpair e); lte e\<rbrakk> \<Longrightarrow> lte d"
begin

abbreviation inside :: "'s zentry \<Rightarrow> bool" where
  "inside e \<equiv> gte e \<and> lte e"

lemma range_split:
  assumes sorted: "zsorted ns"
  obtains xs ms ys where "ns = xs @ ms @ ys" and "\<forall>e \<in> set xs. \<not> gte e" and "\<forall>e \<in> set (ms @ ys). gte e"
    and "\<forall>e \<in> set ms. lte e" and "\<forall>e \<in> set ys. \<not> lte e" and "filter inside ns = ms" and "filter (\<lambda>e. \<not> inside e) ns = xs @ ys"
proof -
  define xs rs where "xs = takeWhile (\<lambda>e. \<not> gte e) ns" and "rs = dropWhile (\<lambda>e. \<not> gte e) ns"
  define ms ys where "ms = takeWhile lte rs" and "ys = dropWhile lte rs"
  have ns: "ns = xs @ rs" and rs: "rs = ms @ ys"
    by (simp_all add: xs_def rs_def ms_def ys_def)
  have 1: "\<forall>e \<in> set xs. \<not> gte e" "\<forall>e \<in> set rs. \<not> \<not> gte e"
    unfolding xs_def rs_def by (rule zsorted_split [OF sorted]; blast intro: gte_up)+
  have sub: "set rs \<subseteq> set ns" and sorted': "zsorted rs"
    using ns sorted by (auto simp: sorted_wrt_append)
  have 2: "\<forall>e \<in> set ms. lte e" "\<forall>e \<in> set ys. \<not> lte e"
    unfolding ms_def ys_def by (rule zsorted_split [OF sorted']; meson lte_down sub subsetD)+
  have "filter inside ns = ms" "filter (\<lambda>e. \<not> inside e) ns = xs @ ys"
    using 1 2 unfolding ns rs by (auto simp: filter_empty_conv intro!: filter_True)
  then show ?thesis
    using that ns rs 1 2 by blast
qed

lemma outside:
  assumes sorted: "zsorted ns" and "\<not> gte (last ns) \<or> \<not> lte (hd ns)"
  shows "filter inside ns = []"
proof (rule ccontr)
  assume ne: "filter inside ns \<noteq> []"
  obtain xs ms ys where s: "ns = xs @ ms @ ys" "\<forall>e \<in> set (ms @ ys). gte e" "\<forall>e \<in> set ms. lte e" "filter inside ns = ms"
    by (rule range_split [OF sorted]) blast
  have "ms @ ys \<noteq> []"
    using ne s(4) by simp
  then have "gte (last ns)"
    using s(2) last_in_set [of "ms @ ys"] unfolding s(1) by (metis last_appendR)
  moreover obtain m where m: "m \<in> set ms"
    using ne s(4) by (cases ms) auto
  have "lte (hd ns)"
  proof (cases "hd ns = m")
    case True
    then show ?thesis
      using m s(3) by simp
  next
    case False
    have ns: "ns = hd ns # tl ns" "m \<in> set ns"
      using m s(1) by (auto simp: neq_Nil_conv intro!: list.collapse [symmetric])
    have "zsorted (hd ns # tl ns)"
      using sorted ns(1) by metis
    moreover have "m \<in> set (tl ns)"
      using ns False by (metis set_ConsD)
    ultimately have "zp_less (zpair (hd ns)) (zpair m)"
      by simp
    then show ?thesis
      using lte_down [of "hd ns" m] m s(3) ns by (metis list.set_intros(1))
  qed
  ultimately show False
    using assms(2) by blast
qed

lemma first_search:
  assumes hold: "zsl_holds h z ns" and "ns \<noteq> []" and "gte (last ns)"
  obtains x u w l f where "zsl_descend h (\<lambda>r s f. \<not> gte_node f) no_rank (z_level z) (z_header z) () = Some (x, u, w)"
    and "level_get h x 0 = Some l" and "zl_forward l \<noteq> 0" and "node_at h (zl_forward l) = Some f" and "zn_obj f \<noteq> None"
    and "(if lte_node f then zl_forward l else 0) = (case filter inside ns of [] \<Rightarrow> 0 | e # es \<Rightarrow> e_addr e)"
proof -
  have sorted: "zsorted ns"
    using hold by (simp add: zsl_holds_def)
  obtain xs ms ys where s: "ns = xs @ ms @ ys" "\<forall>e \<in> set xs. \<not> gte e" "\<forall>e \<in> set (ms @ ys). gte e"
      "\<forall>e \<in> set ms. lte e" "\<forall>e \<in> set ys. \<not> lte e" "filter inside ns = ms"
    by (rule range_split [OF sorted]) blast
  have wf: "zsl_wf h z (xs @ (ms @ ys))"
    using hold s(1) by (simp add: zsl_holds_def)
  have "ms @ ys \<noteq> []"
  proof
    assume "ms @ ys = []"
    then have "ns = xs"
      using s(1) by simp
    then show False
      using s(2) assms(2,3) last_in_set by blast
  qed
  then obtain y zs where y: "ms @ ys = y # zs"
    by (cases "ms @ ys") auto
  obtain t where nxt: "level_get h (last_addr (z_header z) xs) 0 = Some \<lparr>zl_forward = e_addr y, zl_span = t\<rparr>"
    by (rule search_next [OF wf]) (simp add: y)
  obtain f where f: "node_at h (e_addr y) = Some f" "zn_score f = e_score y" "zn_obj f = Some (e_obj y)" and pos: "0 < e_addr y"
    using entry_found [OF wf, of y] y by auto
  have "\<forall>e \<in> set (ms @ ys). \<not> \<not> gte e"
    using s(3) by blast
  note search = goes_plain [OF wf s(2) this, of "\<lambda>f. \<not> gte_node f"]
  have res: "(if lte_node f then e_addr y else 0) = (case filter inside ns of [] \<Rightarrow> 0 | e # es \<Rightarrow> e_addr e)"
    using s(4,5) y lte_node [OF f(3,2)] unfolding s(6) by (cases ms) auto
  show ?thesis
    by (rule that [OF search nxt]) (use f pos res gte_node in auto)
qed

lemma last_search:
  assumes hold: "zsl_holds h z ns" and "ns \<noteq> []" and "lte (hd ns)"
  obtains x u w f where "zsl_descend h (\<lambda>r s f. lte_node f) no_rank (z_level z) (z_header z) () = Some (x, u, w)"
    and "node_at h x = Some f" and "zn_obj f \<noteq> None"
    and "(if gte_node f then x else 0) = (if filter inside ns = [] then 0 else e_addr (last (filter inside ns)))"
proof -
  have sorted: "zsorted ns"
    using hold by (simp add: zsl_holds_def)
  define xs ys where "xs = takeWhile lte ns" and "ys = dropWhile lte ns"
  have ns: "ns = xs @ ys"
    by (simp add: xs_def ys_def)
  have split: "\<forall>e \<in> set xs. lte e" "\<forall>e \<in> set ys. \<not> lte e"
    unfolding xs_def ys_def by (rule zsorted_split [OF sorted]; blast intro: lte_down)+
  have wf: "zsl_wf h z (xs @ ys)"
    using hold ns by (simp add: zsl_holds_def)
  have "xs \<noteq> []"
    using split(2) assms(2,3) ns by (metis append_Nil hd_in_set)
  then obtain zs y where xs: "xs = zs @ [y]"
    by (cases xs rule: rev_cases) auto
  obtain f where f: "node_at h (e_addr y) = Some f" "zn_score f = e_score y" "zn_obj f = Some (e_obj y)"
    using entry_found [OF wf, of y] xs by auto
  have none: "filter inside ns = []" if "\<not> gte y"
  proof -
    have "\<not> gte e" if "e \<in> set zs" for e
    proof -
      have "zp_less (zpair e) (zpair y)"
        using sorted that unfolding ns xs by (simp add: sorted_wrt_append)
      then show ?thesis
        using gte_up [of e y] that \<open>\<not> gte y\<close> by (auto simp: ns xs)
    qed
    then show ?thesis
      using split(2) \<open>\<not> gte y\<close> by (auto simp: ns xs filter_empty_conv)
  qed
  have some: "filter inside ns = filter inside zs @ [y]" if "gte y"
    using split that by (auto simp: ns xs filter_empty_conv)
  have res: "(if gte_node f then e_addr y else 0) = (if filter inside ns = [] then 0 else e_addr (last (filter inside ns)))"
    using gte_node [OF f(3,2)] none some by (cases "gte y") simp_all
  have "node_at h (last_addr (z_header z) xs) = Some f" "last_addr (z_header z) xs = e_addr y"
    using f(1) by (simp_all add: xs)
  then show ?thesis
    using f(3) res lte_node by (intro that [OF goes_plain [OF wf split, of lte_node]]) auto
qed

end

subsection \<open>Ranges of scores\<close>

definition in_range :: "'s :: linorder zrangespec \<Rightarrow> 's zentry \<Rightarrow> bool" where
  "in_range rng e \<longleftrightarrow> zslValueGteMin (e_score e) rng \<and> zslValueLteMax (e_score e) rng"

lemma gte_mono: "\<lbrakk>zslValueGteMin s rng; s \<le> t\<rbrakk> \<Longrightarrow> zslValueGteMin t rng"
  by (auto simp: zslValueGteMin_def split: if_splits)

lemma lte_mono: "\<lbrakk>zslValueLteMax t rng; s \<le> t\<rbrakk> \<Longrightarrow> zslValueLteMax s rng"
  by (auto simp: zslValueLteMax_def split: if_splits)

lemma zp_less_score: "zp_less (zpair e) (zpair f) \<Longrightarrow> e_score e \<le> e_score f"
  by (auto simp: zp_less_def zpair_def)

interpretation scores: zsl_range "\<lambda>e. zslValueGteMin (e_score e) rng" "\<lambda>e. zslValueLteMax (e_score e) rng"
  "\<lambda>f. zslValueGteMin (zn_score f) rng" "\<lambda>f. zslValueLteMax (zn_score f) rng" ns for rng :: "'s :: linorder zrangespec" and ns
  by unfold_locales (auto dest!: zp_less_score intro: gte_mono lte_mono)

lemma zslIsInRange_ok:
  assumes hold: "zsl_holds h z ns"
  shows "zslIsInRange h z rng = Some (
    \<not> (range_min rng > range_max rng \<or> (range_min rng = range_max rng \<and> (minex rng \<or> maxex rng))) \<and>
    ns \<noteq> [] \<and> zslValueGteMin (e_score (last ns)) rng \<and> zslValueLteMax (e_score (hd ns)) rng)"
proof -
  have wf: "zsl_wf h z ns"
    using hold by (simp add: zsl_holds_def)
  obtain s where ends: "level_get h (z_header z) 0 = Some \<lparr>zl_forward = (if ns = [] then 0 else e_addr (hd ns)), zl_span = s\<rparr>"
      "z_tail z = (if ns = [] then 0 else e_addr (last ns))"
    by (rule zsl_ends [OF wf])
  show ?thesis
  proof (cases "ns = []")
    case True
    then show ?thesis
      using ends by (simp add: zslIsInRange_def)
  next
    case False
    with ends entry_found [OF wf hd_in_set] entry_found [OF wf last_in_set] show ?thesis
      by (auto simp: zslIsInRange_def)
  qed
qed

text \<open>When the quick test fails no entry is in the range.\<close>

lemma not_in_range:
  assumes "zsl_holds h z ns" and "zslIsInRange h z rng = Some False"
  shows "filter (in_range rng) ns = []"
proof (cases "range_min rng > range_max rng \<or> (range_min rng = range_max rng \<and> (minex rng \<or> maxex rng))")
  case True
  then show ?thesis
    by (auto simp: in_range_def zslValueGteMin_def zslValueLteMax_def filter_empty_conv split: if_splits)
next
  case False
  then show ?thesis
    using assms scores.outside [of ns rng] by (auto simp: zslIsInRange_ok in_range_def [abs_def] zsl_holds_def)
qed

lemma zslFirstInRange_ok:
  assumes hold: "zsl_holds h z ns"
  shows "zslFirstInRange h z rng =
    Some (case filter (in_range rng) ns of [] \<Rightarrow> 0 | e # es \<Rightarrow> e_addr e)"
proof (cases "zslIsInRange h z rng = Some False")
  case True
  then show ?thesis
    using not_in_range [OF hold True] by (simp add: zslFirstInRange_def)
next
  case False
  then have inr: "zslIsInRange h z rng = Some True" "ns \<noteq> []" "zslValueGteMin (e_score (last ns)) rng"
    by (auto simp: zslIsInRange_ok [OF hold])
  show ?thesis
    by (rule scores.first_search [OF hold inr(2,3)]) (simp add: zslFirstInRange_def inr(1) in_range_def [abs_def])
qed

lemma zslLastInRange_ok:
  assumes hold: "zsl_holds h z ns"
  shows "zslLastInRange h z rng =
    Some (if filter (in_range rng) ns = [] then 0 else e_addr (last (filter (in_range rng) ns)))"
proof (cases "zslIsInRange h z rng = Some False")
  case True
  then show ?thesis
    using not_in_range [OF hold True] by (simp add: zslLastInRange_def)
next
  case False
  then have inr: "zslIsInRange h z rng = Some True" "ns \<noteq> []" "zslValueLteMax (e_score (hd ns)) rng"
    by (auto simp: zslIsInRange_ok [OF hold])
  show ?thesis
    by (rule scores.last_search [OF hold inr(2,3)]) (simp add: zslLastInRange_def inr(1) in_range_def [abs_def])
qed

subsection \<open>Ranks\<close>

lemma walk_level:
  assumes wf: "zsl_wf h z (xs @ ys)" and i: "i < z_level z"
    and go: "goes h go add A (length xs) (set (chain 0 0 (towers z (xs @ ys))))"
    and c: "c \<in> set (chain i 0 (towers z xs))"
  shows "zsl_walk h go add i (snd c) (A (fst c)) = Some (snd (pre (towers z xs) i), A (fst (pre (towers z xs) i)))"
proof (rule zsl_walk_pre [where Y = "map tower ys"])
  show "lvl h i (chain i 0 (towers z xs @ map tower ys)) (length (xs @ ys), 0)"
    using wf i unfolding towers_append [symmetric] by (simp add: zsl_wf_def)
  show "goes h go add A (length xs) (set (chain 0 0 (towers z xs @ map tower ys)))"
    using go unfolding towers_append .
  show "0 < fst t" if "t \<in> set (towers z xs @ map tower ys)" for t
    using tower_addr_pos [OF wf, of t] that unfolding towers_append by simp
qed (use c in simp_all)

text \<open>A 64-bit sum of 32-bit spans does not wrap below \<open>2 ^ 32\<close>.\<close>

lemma add_span_nat:
  assumes "p < q" and "q < 2 ^ 32"
  shows "add_span (word_of_nat p) (word_of_nat (q - p)) = word_of_nat q"
proof -
  have "(ucast (word_of_nat (q - p) :: uint32) :: uint64) = word_of_nat (q - p)"
    using assms by (simp only: unsigned_of_nat) (simp add: take_bit_nat_eq_self)
  then show ?thesis
    using assms by (simp add: add_span_def of_nat_diff)
qed

lemma unat_rank: "q < 2 ^ 32 \<Longrightarrow> unat (word_of_nat q :: uint64) = q"
  by (simp add: unat_of_nat)

text \<open>The node the search stops at in level \<open>i\<close> is the header or the entry before its position.\<close>

lemma pre_node:
  assumes wf: "zsl_wf h z (xs @ ys)" and i: "i < ZSKIPLIST_MAXLEVEL"
  shows "(pre (towers z xs) i = (0, z_header z) \<and> (\<exists>f. node_at h (z_header z) = Some f \<and> zn_obj f = None)) \<or>
    (\<exists>q < length xs. pre (towers z xs) i = (Suc q, e_addr (xs ! q)) \<and>
      (\<exists>f. node_at h (e_addr (xs ! q)) = Some f \<and> zn_obj f = Some (e_obj (xs ! q))))"
proof (cases "fst (pre (towers z xs) i) = 0")
  case True
  have "zattr h (z_header z) \<noteq> None" "\<And>s k. zattr h (z_header z) = Some (s, k) \<Longrightarrow> s = None"
    using wf by (auto simp: zsl_wf_def)
  then have "\<exists>f. node_at h (z_header z) = Some f \<and> zn_obj f = None"
    by (cases "nodes h (z_header z)") (auto simp: zattr_def node_at_def)
  moreover have "pre (towers z xs) i = (0, z_header z)"
    using pre_in [OF i, of z xs] True by (auto simp: chain_nth towers_def prod_eq_iff)
  ultimately show ?thesis
    by simp
next
  case False
  define q where "q = fst (pre (towers z xs) i) - 1"
  have q: "q < length xs" "pre (towers z xs) i = (Suc q, e_addr (xs ! q))"
    using chain_entries [OF pre_in [OF i, of z xs]] False by (auto simp: q_def prod_eq_iff)
  then have "xs ! q \<in> set (xs @ ys)"
    by simp
  from entry_found(1) [OF wf this] q show ?thesis
    by blast
qed

subsubsection \<open>The rank of an entry\<close>

text \<open>The condition of the search for a rank.\<close>

abbreviation upto_node :: "'s :: linorder \<Rightarrow> str_key \<Rightarrow> 's zskiplistNode \<Rightarrow> bool" where
  "upto_node score obj f \<equiv> zn_score f < score \<or>
     (zn_score f = score \<and> (case zn_obj f of None \<Rightarrow> False | Some o1 \<Rightarrow> compare_keys o1 obj \<le> 0))"

lemma rank_levels_absent:
  assumes wf: "zsl_wf h z (xs @ ys)" and go: "goes h (\<lambda>r s. upto_node score obj) add_span A (length xs) (set (chain 0 0 (towers z (xs @ ys))))"
    and none: "\<forall>e \<in> set xs. key_string (e_obj e) \<noteq> key_string obj"
  shows "\<lbrakk>i \<le> z_level z; i = 0 \<or> c \<in> set (chain (i - 1) 0 (towers z xs))\<rbrakk> \<Longrightarrow>
    rank_levels h score obj i (snd c) (A (fst c)) = Some 0"
proof (induction i arbitrary: c)
  case (Suc i)
  then have c: "c \<in> set (chain i 0 (towers z xs))" and i: "i < z_level z" "i < ZSKIPLIST_MAXLEVEL"
    using wf by (auto simp: zsl_wf_def)
  have ne: "\<not> equal_keys (e_obj (xs ! q)) obj" if "q < length xs" for q
    using none that by (simp add: equal_keys_iff)
  have "rank_levels h score obj i (snd (pre (towers z xs) i)) (A (fst (pre (towers z xs) i))) = Some 0"
    using Suc.IH [OF _ pre_lower [OF c]] i by simp
  then show ?case
    using walk_level [OF wf i(1) go c] pre_node [OF wf i(2)] ne by auto
qed simp

lemma rank_levels_present:
  assumes wf: "zsl_wf h z (xs @ ys)" and go: "goes h (\<lambda>r s. upto_node score obj) add_span A (length xs) (set (chain 0 0 (towers z (xs @ ys))))"
    and xs: "xs \<noteq> []" "\<And>q. q < length xs \<Longrightarrow> key_string (e_obj (xs ! q)) = key_string obj \<longleftrightarrow> q = length xs - 1"
  shows "\<lbrakk>0 < i; i \<le> z_level z; c \<in> set (chain (i - 1) 0 (towers z xs))\<rbrakk> \<Longrightarrow>
    rank_levels h score obj i (snd c) (A (fst c)) = Some (A (length xs))"
proof (induction i arbitrary: c)
  case (Suc i)
  then have c: "c \<in> set (chain i 0 (towers z xs))" and i: "i < z_level z" "i < ZSKIPLIST_MAXLEVEL"
    using wf by (auto simp: zsl_wf_def)
  have eq: "equal_keys (e_obj (xs ! q)) obj \<longleftrightarrow> q = length xs - 1" if "q < length xs" for q
    using xs(2) that by (simp add: equal_keys_iff)
  have hts: "\<forall>e \<in> set xs. 0 < e_height e"
    using wf by (auto simp: zsl_wf_def entry_wf_def)
  have zero: "fst (pre (towers z xs) i) = length xs" if "i = 0"
    using pre_zero [OF hts, of z] that by simp
  have "rank_levels h score obj i (snd (pre (towers z xs) i)) (A (fst (pre (towers z xs) i))) = Some (A (length xs))" if "i \<noteq> 0"
    using Suc.IH [of "pre (towers z xs) i"] pre_lower [OF c] i that by simp
  then show ?case
    using walk_level [OF wf i(1) go c] pre_node [OF wf i(2)] eq zero xs(1) by (cases "i = 0") auto
qed simp

lemma not_after:
  assumes "zn_obj f = Some (e_obj e)" "zn_score f = e_score e"
  shows "upto_node score obj f \<longleftrightarrow>
    zp_less (zpair e) (score, key_string obj) \<or> zpair e = (score, key_string obj)"
  using assms compare_keys_sign [of "e_obj e" obj] by (auto simp: zp_less_def zpair_def le_less)

lemma top_level:
  assumes "zsl_wf h z (xs @ ys)"
  shows "0 < z_level z" "(0, z_header z) \<in> set (chain (z_level z - 1) 0 (towers z xs))"
  using assms by (auto simp: zsl_wf_def towers_def)

lemma zslGetRank_present:
  assumes hold: "zsl_holds h z ns" and len: "length ns < 2 ^ 32" and uniq: "distinct (map (\<lambda>e. key_string (e_obj e)) ns)"
    and k: "k < length ns" "zpair (ns ! k) = (score, key_string obj)"
  shows "zslGetRank h z score obj = Some (word_of_nat (Suc k))"
proof -
  define xs ys where "xs = take (Suc k) ns" and "ys = drop (Suc k) ns"
  have wf: "zsl_wf h z (xs @ ys)" and sorted: "zsorted ns" and ns: "xs @ ys = ns"
    using hold by (simp_all add: xs_def ys_def zsl_holds_def)
  have lenx: "length xs = Suc k"
    using k(1) by (simp add: xs_def)
  have le: "\<forall>e \<in> set xs. zp_less (zpair e) (score, key_string obj) \<or> zpair e = (score, key_string obj)"
  proof
    fix e
    assume "e \<in> set xs"
    then obtain q where q: "q \<le> k" "e = ns ! q"
      using k(1) by (auto simp: xs_def in_set_conv_nth less_Suc_eq_le)
    then show "zp_less (zpair e) (score, key_string obj) \<or> zpair e = (score, key_string obj)"
      using sorted_wrt_nth_less [OF sorted, of q k] k by (cases "q = k") simp_all
  qed
  have gt: "\<forall>e \<in> set ys. \<not> (zp_less (zpair e) (score, key_string obj) \<or> zpair e = (score, key_string obj))"
  proof
    fix e
    assume "e \<in> set ys"
    then obtain q where "q < length ns - Suc k" "e = ns ! (Suc k + q)"
      by (auto simp: ys_def in_set_conv_nth)
    then have "zp_less (score, key_string obj) (zpair e)"
      using sorted_wrt_nth_less [OF sorted, of k "Suc k + q"] k by simp
    then show "\<not> (zp_less (zpair e) (score, key_string obj) \<or> zpair e = (score, key_string obj))"
      using zp_less_asym by fastforce
  qed
  have go: "goes h (\<lambda>r s. upto_node score obj) add_span word_of_nat (length xs) (set (chain 0 0 (towers z (xs @ ys))))"
    by (rule goes_before [OF wf le gt not_after]) (use add_span_nat len ns in auto)
  have at: "key_string (e_obj (xs ! q)) = key_string obj \<longleftrightarrow> q = length xs - 1" if "q < length xs" for q
  proof -
    have "key_string (e_obj (ns ! k)) = key_string obj"
      using k(2) by (simp add: zpair_def)
    moreover have "xs ! q = ns ! q" "q < length ns"
      using that lenx k(1) by (simp_all add: xs_def)
    ultimately show ?thesis
      using nth_eq_iff_index_eq [OF uniq, of q k] k(1) lenx by auto
  qed
  have "rank_levels h score obj (z_level z) (snd (0 :: nat, z_header z)) (word_of_nat (fst (0 :: nat, z_header z))) =
      Some (word_of_nat (length xs))"
    by (rule rank_levels_present [OF wf go]) (use lenx at top_level [OF wf] in auto)
  then show ?thesis
    by (simp add: zslGetRank_def lenx del: of_nat_Suc)
qed

lemma zslGetRank_absent:
  assumes hold: "zsl_holds h z ns" and len: "length ns < 2 ^ 32" and none: "key_string obj \<notin> (\<lambda>e. key_string (e_obj e)) ` set ns"
  shows "zslGetRank h z score obj = Some 0"
proof -
  let ?P = "\<lambda>e. zp_less (zpair e) (score, key_string obj) \<or> zpair e = (score, key_string obj)"
  define xs ys where "xs = takeWhile ?P ns" and "ys = dropWhile ?P ns"
  have wf: "zsl_wf h z (xs @ ys)" and sorted: "zsorted ns" and ns: "xs @ ys = ns"
    using hold by (simp_all add: xs_def ys_def zsl_holds_def)
  have split: "\<forall>e \<in> set xs. ?P e" "\<forall>e \<in> set ys. \<not> ?P e"
    unfolding xs_def ys_def by (rule zsorted_split [OF sorted]; metis zp_less_trans)+
  have go: "goes h (\<lambda>r s. upto_node score obj) add_span word_of_nat (length xs) (set (chain 0 0 (towers z (xs @ ys))))"
    by (rule goes_before [OF wf split not_after]) (use add_span_nat len ns in auto)
  have none': "\<forall>e \<in> set xs. key_string (e_obj e) \<noteq> key_string obj"
    using none unfolding ns [symmetric] by (metis (no_types, lifting) UnI1 image_eqI set_append)
  have "rank_levels h score obj (z_level z) (snd (0 :: nat, z_header z)) (word_of_nat (fst (0 :: nat, z_header z))) = Some 0"
    by (rule rank_levels_absent [OF wf go none']) (use top_level [OF wf] in auto)
  then show ?thesis
    by (simp add: zslGetRank_def)
qed

subsubsection \<open>The entry of a rank\<close>

lemma element_levels_ok:
  assumes wf: "zsl_wf h z (xs @ ys)" and len: "length (xs @ ys) < 2 ^ 32" and k: "length xs = min (unat rank) (length (xs @ ys))"
    and go: "goes h (\<lambda>r s f. add_span r s \<le> rank) add_span word_of_nat (length xs) (set (chain 0 0 (towers z (xs @ ys))))"
  shows "\<lbrakk>0 < i; i \<le> z_level z; c \<in> set (chain (i - 1) 0 (towers z xs))\<rbrakk> \<Longrightarrow>
    element_levels h rank i (snd c) (word_of_nat (fst c)) =
      Some (if unat rank \<le> length (xs @ ys) then last_addr (z_header z) xs else 0)"
proof (induction i arbitrary: c)
  case (Suc i)
  then have c: "c \<in> set (chain i 0 (towers z xs))" and i: "i < z_level z" "i < ZSKIPLIST_MAXLEVEL"
    using wf by (auto simp: zsl_wf_def)
  let ?u = "pre (towers z xs) i"
  have hts: "\<forall>e \<in> set xs. 0 < e_height e"
    using wf by (auto simp: zsl_wf_def entry_wf_def)
  have u: "fst ?u \<le> length xs" "fst ?u < 2 ^ 32"
    using pre_pos [OF i(2), of z xs] len by simp_all
  have eq: "(word_of_nat (fst ?u) :: uint64) = rank \<longleftrightarrow> fst ?u = unat rank"
    using unat_rank [OF u(2)] by (metis word_unat_eq_iff)
  have addr: "snd ?u = last_addr (z_header z) xs" if "fst ?u = length xs"
    using pre_node [OF wf i(2)] that
    by (cases xs rule: rev_cases) auto
  have zero: "?u = (length xs, last_addr (z_header z) xs)" if "i = 0"
    using pre_zero [OF hts, of z] that by simp
  have rec: "element_levels h rank i (snd ?u) (word_of_nat (fst ?u)) =
      Some (if unat rank \<le> length (xs @ ys) then last_addr (z_header z) xs else 0)" if "i \<noteq> 0"
    using Suc.IH [of ?u] pre_lower [OF c] i that by simp
  have step: "element_levels h rank (Suc i) (snd c) (word_of_nat (fst c)) =
      (if word_of_nat (fst ?u) = rank then Some (snd ?u) else element_levels h rank i (snd ?u) (word_of_nat (fst ?u)))"
    using walk_level [OF wf i(1) go c] by simp
  show ?case
  proof (cases "fst ?u = unat rank")
    case True
    then have "fst ?u = length xs" "unat rank \<le> length (xs @ ys)"
      using k u(1) by auto
    then show ?thesis
      unfolding step using True eq addr by simp
  next
    case ne: False
    show ?thesis
    proof (cases "i = 0")
      case True
      have "fst ?u = length xs"
        using zero [OF True] by simp
      with ne k have "\<not> unat rank \<le> length (xs @ ys)"
        by linarith
      then show ?thesis
        unfolding step using ne eq True by simp
    next
      case False
      then show ?thesis
        unfolding step using ne eq rec by simp
    qed
  qed
qed simp

text \<open>A search whose condition looks at the rank only.\<close>

lemma goes_rank:
  assumes wf: "zsl_wf h z (xs @ ys)" and len: "length (xs @ ys) < 2 ^ 32"
    and P: "\<And>q. q < length (xs @ ys) \<Longrightarrow> P (word_of_nat (Suc q)) \<longleftrightarrow> q < length xs"
  shows "goes h (\<lambda>r s f. P (add_span r s)) add_span word_of_nat (length xs) (set (chain 0 0 (towers z (xs @ ys))))"
proof (rule goes_entries [OF wf])
  show "P (add_span (word_of_nat p) (word_of_nat (Suc q - p))) \<longleftrightarrow> q < length xs" if "p \<le> q" "q < length (xs @ ys)" for p q
    using add_span_nat [of p "Suc q"] that len P [OF that(2)] by (simp del: of_nat_Suc)
  show "add_span (word_of_nat p) (word_of_nat (q - p)) = word_of_nat q" if "p < q" "q \<le> length (xs @ ys)" for p q
    using add_span_nat that len by simp
qed

lemma zslGetElementByRank_ok:
  assumes hold: "zsl_holds h z ns" and len: "length ns < 2 ^ 32"
  shows "zslGetElementByRank h z rank =
    Some (if unat rank = 0 then z_header z else if unat rank \<le> length ns then e_addr (ns ! (unat rank - 1)) else 0)"
proof -
  define xs ys where "xs = take (unat rank) ns" and "ys = drop (unat rank) ns"
  have wf: "zsl_wf h z (xs @ ys)" and ns: "xs @ ys = ns" and k: "length xs = min (unat rank) (length (xs @ ys))"
    using hold by (simp_all add: xs_def ys_def zsl_holds_def)
  have "word_of_nat (Suc q) \<le> rank \<longleftrightarrow> q < length xs" if "q < length (xs @ ys)" for q
    using unat_rank [of "Suc q"] that len ns k by (simp add: word_le_nat_alt Suc_le_eq del: of_nat_Suc)
  then have go: "goes h (\<lambda>r s f. add_span r s \<le> rank) add_span word_of_nat (length xs) (set (chain 0 0 (towers z (xs @ ys))))"
    using len ns by (intro goes_rank [OF wf]) simp_all
  have "element_levels h rank (z_level z) (snd (0 :: nat, z_header z)) (word_of_nat (fst (0 :: nat, z_header z))) =
      Some (if unat rank \<le> length (xs @ ys) then last_addr (z_header z) xs else 0)"
    by (rule element_levels_ok [OF wf _ k go]) (use len ns top_level [OF wf] in auto)
  moreover have "last_addr (z_header z) xs = (if unat rank = 0 then z_header z else e_addr (ns ! (unat rank - 1)))"
    if "unat rank \<le> length ns"
  proof (cases "unat rank")
    case (Suc r)
    then have "xs = take r ns @ [ns ! r]"
      using that by (simp add: xs_def take_Suc_conv_app_nth)
    then show ?thesis
      using Suc by simp
  qed (simp add: xs_def)
  ultimately show ?thesis
    using ns by (simp add: zslGetElementByRank_def)
qed

end
