(* ===== verification/ZskiplistLex.thy ===== *)
theory ZskiplistLex
  imports ZskiplistQuery
begin

text \<open>
  The lexicographic ranges of sorted sets: parsing, the comparison with the infinite bounds, and the
  first and the last node in a range of a skiplist whose elements all have the same score.
\<close>

subsection \<open>The bounds\<close>

text \<open>
  A bound is one of the two shared objects that stand for the infinite bounds, which the code tells
  apart by their addresses, or another string object.
\<close>

datatype lex_bound = Minstring | Maxstring | Lex_Obj str_key

record zlexrangespec =
  lex_min :: lex_bound
  lex_max :: lex_bound
  lex_minex :: bool
  lex_maxex :: bool

text \<open>The text of the object, as \<^verbatim>\<open>createSharedObjects\<close> sets it for the two shared ones.\<close>

fun lex_key :: "lex_bound \<Rightarrow> str_key" where
  "lex_key Minstring = SdsKey ''minstring''"
| "lex_key Maxstring = SdsKey ''maxstring''"
| "lex_key (Lex_Obj k) = k"

text \<open>
  Parsing: \<^term>\<open>None\<close> is \<^verbatim>\<open>REDIS_ERR\<close>. The characters are read from the buffer of the string, which
  ends with a null character.
\<close>

definition zslParseLexRangeItem :: "char list \<Rightarrow> (lex_bound \<times> bool) option" where
  "zslParseLexRangeItem item =
     (let c = item @ [NUL]
      in if c ! 0 = CHR ''+'' then (if c ! 1 \<noteq> NUL then None else Some (Maxstring, False))
         else if c ! 0 = CHR ''-'' then (if c ! 1 \<noteq> NUL then None else Some (Minstring, False))
         else if c ! 0 = CHR ''('' then Some (Lex_Obj (SdsKey (take (length item - 1) (drop 1 c))), True)
         else if c ! 0 = CHR ''['' then Some (Lex_Obj (SdsKey (take (length item - 1) (drop 1 c))), False)
         else None)"

definition zslParseLexRange :: "str_key \<Rightarrow> str_key \<Rightarrow> zlexrangespec option" where
  "zslParseLexRange mn mx =
     (case (mn, mx) of
        (SdsKey s, SdsKey t) \<Rightarrow>
          do {
            (lo, loex) \<leftarrow> zslParseLexRangeItem s;
            (hi, hiex) \<leftarrow> zslParseLexRangeItem t;
            Some \<lparr>lex_min = lo, lex_max = hi, lex_minex = loex, lex_maxex = hiex\<rparr>
          }
      | _ \<Rightarrow> None)"

text \<open>
  The test \<^verbatim>\<open>a == b\<close> compares addresses; for objects other than the two shared ones its result is
  that of the comparison of the texts.
\<close>

definition compareStringObjectsForLexRange :: "lex_bound \<Rightarrow> lex_bound \<Rightarrow> int" where
  "compareStringObjectsForLexRange a b =
     (if a = b then 0
      else if a = Minstring \<or> b = Maxstring then -1
      else if a = Maxstring \<or> b = Minstring then 1
      else compare_keys (lex_key a) (lex_key b))"

definition zslLexValueGteMin :: "str_key \<Rightarrow> zlexrangespec \<Rightarrow> bool" where
  "zslLexValueGteMin value spec =
     (if lex_minex spec then compareStringObjectsForLexRange (Lex_Obj value) (lex_min spec) > 0
      else compareStringObjectsForLexRange (Lex_Obj value) (lex_min spec) \<ge> 0)"

definition zslLexValueLteMax :: "str_key \<Rightarrow> zlexrangespec \<Rightarrow> bool" where
  "zslLexValueLteMax value spec =
     (if lex_maxex spec then compareStringObjectsForLexRange (Lex_Obj value) (lex_max spec) < 0
      else compareStringObjectsForLexRange (Lex_Obj value) (lex_max spec) \<le> 0)"

subsection \<open>The searches\<close>

text \<open>The bounds on the objects of nodes; only the header has none.\<close>

abbreviation lex_gte_node :: "zlexrangespec \<Rightarrow> 's zskiplistNode \<Rightarrow> bool" where
  "lex_gte_node rng f \<equiv> (case zn_obj f of None \<Rightarrow> False | Some o1 \<Rightarrow> zslLexValueGteMin o1 rng)"

abbreviation lex_lte_node :: "zlexrangespec \<Rightarrow> 's zskiplistNode \<Rightarrow> bool" where
  "lex_lte_node rng f \<equiv> (case zn_obj f of None \<Rightarrow> False | Some o1 \<Rightarrow> zslLexValueLteMax o1 rng)"

definition zslIsInLexRange :: "'s zheap \<Rightarrow> zskiplist \<Rightarrow> zlexrangespec \<Rightarrow> bool option" where
  "zslIsInLexRange h zsl rng =
     (if compareStringObjectsForLexRange (lex_min rng) (lex_max rng) > 1 \<or>
         (compare_keys (lex_key (lex_min rng)) (lex_key (lex_max rng)) = 0 \<and> (lex_minex rng \<or> lex_maxex rng))
      then Some False
      else do {
        tail_in \<leftarrow> (if z_tail zsl = 0 then Some False
                     else do { n \<leftarrow> node_at h (z_tail zsl); o1 \<leftarrow> zn_obj n; Some (zslLexValueGteMin o1 rng) });
        if \<not> tail_in then Some False
        else do {
          l \<leftarrow> level_get h (z_header zsl) 0;
          if zl_forward l = 0 then Some False
          else do { n \<leftarrow> node_at h (zl_forward l); o1 \<leftarrow> zn_obj n; Some (zslLexValueLteMax o1 rng) }
        }
      })"

definition zslFirstInLexRange :: "'s zheap \<Rightarrow> zskiplist \<Rightarrow> zlexrangespec \<Rightarrow> nat option" where
  "zslFirstInLexRange h zsl rng =
     do {
       inr \<leftarrow> zslIsInLexRange h zsl rng;
       if \<not> inr then Some 0
       else do {
         (x, r, update, rank) \<leftarrow>
           zsl_descend h (\<lambda>r s f. \<not> lex_gte_node rng f) no_rank (z_level zsl) (z_header zsl) ();
         l \<leftarrow> level_get h x 0;
         if zl_forward l = 0 then None
         else do {
           n \<leftarrow> node_at h (zl_forward l);
           o1 \<leftarrow> zn_obj n;
           Some (if zslLexValueLteMax o1 rng then zl_forward l else 0)
         }
       }
     }"

definition zslLastInLexRange :: "'s zheap \<Rightarrow> zskiplist \<Rightarrow> zlexrangespec \<Rightarrow> nat option" where
  "zslLastInLexRange h zsl rng =
     do {
       inr \<leftarrow> zslIsInLexRange h zsl rng;
       if \<not> inr then Some 0
       else do {
         (x, r, update, rank) \<leftarrow>
           zsl_descend h (\<lambda>r s f. lex_lte_node rng f) no_rank (z_level zsl) (z_header zsl) ();
         n \<leftarrow> node_at h x;
         o1 \<leftarrow> zn_obj n;
         Some (if zslLexValueGteMin o1 rng then x else 0)
       }
     }"

subsection \<open>The order of the bounds\<close>

fun lex_above :: "bool \<Rightarrow> lex_bound \<Rightarrow> char list \<Rightarrow> bool" where
  "lex_above ex Minstring t = True"
| "lex_above ex Maxstring t = False"
| "lex_above ex (Lex_Obj k) t = (text_less (key_string k) t \<or> (\<not> ex \<and> t = key_string k))"

fun lex_below :: "bool \<Rightarrow> lex_bound \<Rightarrow> char list \<Rightarrow> bool" where
  "lex_below ex Minstring t = False"
| "lex_below ex Maxstring t = True"
| "lex_below ex (Lex_Obj k) t = (text_less t (key_string k) \<or> (\<not> ex \<and> t = key_string k))"

lemma text_less_asym: "text_less a b \<Longrightarrow> \<not> text_less b a"
  using text_less_trans [of a b a] text_less_irrefl by blast

lemma compare_keys_gt: "compare_keys a b > 0 \<longleftrightarrow> text_less (key_string b) (key_string a)"
proof -
  have "compare_keys a b > 0 \<longleftrightarrow> \<not> compare_keys a b < 0 \<and> compare_keys a b \<noteq> 0"
    by linarith
  also have "\<dots> \<longleftrightarrow> \<not> text_less (key_string a) (key_string b) \<and> key_string a \<noteq> key_string b"
    by (simp only: compare_keys_sign)
  also have "\<dots> \<longleftrightarrow> text_less (key_string b) (key_string a)"
    using text_less_total text_less_asym text_less_irrefl by metis
  finally show ?thesis .
qed

lemma lex_gte: "zslLexValueGteMin v rng \<longleftrightarrow> lex_above (lex_minex rng) (lex_min rng) (key_string v)"
  using compare_keys_sign(2) [of v v] compare_keys_gt [of v v]
  by (cases "lex_min rng")
    (auto simp: zslLexValueGteMin_def compareStringObjectsForLexRange_def compare_keys_gt compare_keys_sign text_less_irrefl
      order_le_less)

lemma lex_lte: "zslLexValueLteMax v rng \<longleftrightarrow> lex_below (lex_maxex rng) (lex_max rng) (key_string v)"
  by (cases "lex_max rng")
    (auto simp: zslLexValueLteMax_def compareStringObjectsForLexRange_def compare_keys_sign text_less_irrefl order_le_less)

definition in_lex_range :: "zlexrangespec \<Rightarrow> 's zentry \<Rightarrow> bool" where
  "in_lex_range rng e \<longleftrightarrow>
     lex_above (lex_minex rng) (lex_min rng) (key_string (e_obj e)) \<and> lex_below (lex_maxex rng) (lex_max rng) (key_string (e_obj e))"

definition same_score :: "'s zentry list \<Rightarrow> bool" where
  "same_score ns \<longleftrightarrow> (\<exists>s. \<forall>e \<in> set ns. e_score e = s)"

lemma lex_zsl_range:
  assumes "same_score ns"
  shows "zsl_range (\<lambda>e. zslLexValueGteMin (e_obj e) rng) (\<lambda>e. zslLexValueLteMax (e_obj e) rng)
    (lex_gte_node rng) (lex_lte_node rng) ns"
proof unfold_locales
  have less: "text_less (key_string (e_obj d)) (key_string (e_obj e))"
    if "d \<in> set ns" "e \<in> set ns" "zp_less (zpair d) (zpair e)" for d e
    using assms that by (auto simp: same_score_def zp_less_def zpair_def)
  show "zslLexValueGteMin (e_obj e) rng"
    if "d \<in> set ns" "e \<in> set ns" "zp_less (zpair d) (zpair e)" "zslLexValueGteMin (e_obj d) rng" for d e
    using less [OF that(1-3)] that(4) unfolding lex_gte by (cases "lex_min rng") (auto intro: text_less_trans)
  show "zslLexValueLteMax (e_obj d) rng"
    if "d \<in> set ns" "e \<in> set ns" "zp_less (zpair d) (zpair e)" "zslLexValueLteMax (e_obj e) rng" for d e
    using less [OF that(1-3)] that(4) unfolding lex_lte by (cases "lex_max rng") (auto intro: text_less_trans)
qed simp_all

lemma zslIsInLexRange_ok:
  assumes hold: "zsl_holds h z ns"
  shows "zslIsInLexRange h z rng = Some (
    \<not> (compareStringObjectsForLexRange (lex_min rng) (lex_max rng) > 1 \<or>
       (key_string (lex_key (lex_min rng)) = key_string (lex_key (lex_max rng)) \<and> (lex_minex rng \<or> lex_maxex rng))) \<and>
    ns \<noteq> [] \<and> zslLexValueGteMin (e_obj (last ns)) rng \<and> zslLexValueLteMax (e_obj (hd ns)) rng)"
proof -
  have wf: "zsl_wf h z ns"
    using hold by (simp add: zsl_holds_def)
  obtain s where ends: "level_get h (z_header z) 0 = Some \<lparr>zl_forward = (if ns = [] then 0 else e_addr (hd ns)), zl_span = s\<rparr>"
      "z_tail z = (if ns = [] then 0 else e_addr (last ns))"
    by (rule zsl_ends [OF wf])
  show ?thesis
  proof (cases "ns = []")
    case True
    then show ?thesis
      using ends by (simp add: zslIsInLexRange_def)
  next
    case False
    with ends entry_found [OF wf hd_in_set] entry_found [OF wf last_in_set] show ?thesis
      by (auto simp: zslIsInLexRange_def compare_keys_sign)
  qed
qed

text \<open>
  The quick test compares the texts of the bounds, also those of the shared objects. It is right unless
  a bound that excludes its text has the text of the infinite bound on the other side.
\<close>

definition proper_lex_range :: "zlexrangespec \<Rightarrow> bool" where
  "proper_lex_range rng \<longleftrightarrow>
     \<not> ((lex_minex rng \<or> lex_maxex rng) \<and>
        (lex_min rng = Minstring \<and> key_string (lex_key (lex_max rng)) = ''minstring'' \<or>
         lex_max rng = Maxstring \<and> key_string (lex_key (lex_min rng)) = ''maxstring''))"

lemma quick_test:
  assumes "proper_lex_range rng"
    and "compareStringObjectsForLexRange (lex_min rng) (lex_max rng) > 1 \<or>
       (key_string (lex_key (lex_min rng)) = key_string (lex_key (lex_max rng)) \<and> (lex_minex rng \<or> lex_maxex rng))"
  shows "\<not> in_lex_range rng e"
proof -
  have keys: "key_string (SdsKey t) = t" for t
    by (simp add: key_string_def)
  show ?thesis
  proof (cases "lex_min rng")
    case Minstring
    then show ?thesis
      using assms by (cases "lex_max rng")
        (auto simp: in_lex_range_def proper_lex_range_def compareStringObjectsForLexRange_def keys split: if_splits)
  next
    case Maxstring
    then show ?thesis
      by (simp add: in_lex_range_def)
  next
    case (Lex_Obj k)
    show ?thesis
    proof (cases "lex_max rng")
      case (Lex_Obj k')
      have "text_less (key_string k') (key_string k) \<or> (key_string k = key_string k' \<and> (lex_minex rng \<or> lex_maxex rng))"
        using assms(2) compare_keys_gt [of k k'] \<open>lex_min rng = Lex_Obj k\<close> Lex_Obj
        by (auto simp: compareStringObjectsForLexRange_def split: if_splits)
      moreover have "(text_less (key_string k) t \<or> \<not> lex_minex rng \<and> t = key_string k) \<and>
          (text_less t (key_string k') \<or> \<not> lex_maxex rng \<and> t = key_string k')" if "in_lex_range rng e" "t = key_string (e_obj e)" for t
        using that \<open>lex_min rng = Lex_Obj k\<close> Lex_Obj by (simp add: in_lex_range_def)
      ultimately show ?thesis
        using text_less_trans text_less_irrefl by metis
    qed (use assms Lex_Obj in
        \<open>auto simp: in_lex_range_def proper_lex_range_def compareStringObjectsForLexRange_def keys split: if_splits\<close>)
  qed
qed

lemma in_lex_range_iff: "in_lex_range rng e \<longleftrightarrow> zslLexValueGteMin (e_obj e) rng \<and> zslLexValueLteMax (e_obj e) rng"
  by (simp add: in_lex_range_def lex_gte lex_lte)

lemma not_in_lex_range:
  assumes "zsl_holds h z ns" and "same_score ns" and "proper_lex_range rng" and "zslIsInLexRange h z rng = Some False"
  shows "filter (in_lex_range rng) ns = []"
proof (cases "compareStringObjectsForLexRange (lex_min rng) (lex_max rng) > 1 \<or>
    (key_string (lex_key (lex_min rng)) = key_string (lex_key (lex_max rng)) \<and> (lex_minex rng \<or> lex_maxex rng))")
  case True
  then show ?thesis
    by (simp add: filter_empty_conv quick_test [OF assms(3) True])
next
  case False
  then have "ns = [] \<or> \<not> zslLexValueGteMin (e_obj (last ns)) rng \<or> \<not> zslLexValueLteMax (e_obj (hd ns)) rng"
    using assms(4) unfolding zslIsInLexRange_ok [OF assms(1)] by blast
  then show ?thesis
    using zsl_range.outside [OF lex_zsl_range [OF assms(2), of rng]] assms(1)
    by (auto simp: in_lex_range_iff [abs_def] zsl_holds_def)
qed

lemma zslFirstInLexRange_ok:
  assumes hold: "zsl_holds h z ns" and same: "same_score ns" and proper: "proper_lex_range rng"
  shows "zslFirstInLexRange h z rng = Some (case filter (in_lex_range rng) ns of [] \<Rightarrow> 0 | e # es \<Rightarrow> e_addr e)"
proof (cases "zslIsInLexRange h z rng = Some False")
  case True
  then show ?thesis
    using not_in_lex_range [OF hold same proper True] by (simp add: zslFirstInLexRange_def)
next
  case False
  then have inr: "zslIsInLexRange h z rng = Some True" "ns \<noteq> []" "zslLexValueGteMin (e_obj (last ns)) rng"
    unfolding zslIsInLexRange_ok [OF hold] by blast+
  show ?thesis
    by (rule zsl_range.first_search [OF lex_zsl_range [OF same, of rng] hold inr(2,3)])
      (auto simp: zslFirstInLexRange_def inr(1) in_lex_range_iff [abs_def] split: if_splits)
qed

lemma zslLastInLexRange_ok:
  assumes hold: "zsl_holds h z ns" and same: "same_score ns" and proper: "proper_lex_range rng"
  shows "zslLastInLexRange h z rng =
    Some (if filter (in_lex_range rng) ns = [] then 0 else e_addr (last (filter (in_lex_range rng) ns)))"
proof (cases "zslIsInLexRange h z rng = Some False")
  case True
  then show ?thesis
    using not_in_lex_range [OF hold same proper True] by (simp add: zslLastInLexRange_def)
next
  case False
  then have inr: "zslIsInLexRange h z rng = Some True" "ns \<noteq> []" "zslLexValueLteMax (e_obj (hd ns)) rng"
    unfolding zslIsInLexRange_ok [OF hold] by blast+
  show ?thesis
    by (rule zsl_range.last_search [OF lex_zsl_range [OF same, of rng] hold inr(2,3)])
      (auto simp: zslLastInLexRange_def inr(1) in_lex_range_iff [abs_def] split: if_splits)
qed

end
