(* ===== verification/Zset.thy ===== *)
theory Zset
  imports ZskiplistLex DictRandom
begin

text \<open>
  Sorted sets in the skiplist encoding: a dictionary from members to their scores beside the skiplist.
  A value of the dictionary is a pointer to the score in a node, modelled as the address of the node.
  The operations are those that the commands of \<^verbatim>\<open>t_zset.c\<close> perform on this encoding; the lookup of
  the key, the replies and the notifications of a command are not part of them, and its arguments
  are the elements after \<^verbatim>\<open>tryObjectEncoding\<close>.
\<close>

record zset =
  zs_dict :: "(str_key, nat) dict"
  zs_zsl :: zskiplist

definition createZset :: "uint32 \<Rightarrow> 's :: zero zheap \<Rightarrow> ('s zheap \<times> zset) option" where
  "createZset seed h =
     do { (h, zsl) \<leftarrow> zslCreate h; Some (h, \<lparr>zs_dict = dictCreate (zsetDictType seed), zs_zsl = zsl\<rparr>) }"

definition zsetLength :: "zset \<Rightarrow> uint32" where
  "zsetLength zs = word_of_nat (z_length (zs_zsl zs))"

text \<open>\<^verbatim>\<open>*(double*)dictGetVal(de)\<close>.\<close>

definition score_ptr :: "'s zheap \<Rightarrow> (str_key, nat) dict \<Rightarrow> nat \<Rightarrow> 's option" where
  "score_ptr h d de =
     do {
       v \<leftarrow> dictGetVal d de;
       p \<leftarrow> v;
       n \<leftarrow> node_at h p;
       Some (zn_score n)
     }"

subsection \<open>Adding\<close>

datatype zadd_status = Zadd_Added | Zadd_Updated | Zadd_Unchanged | Zadd_Nan

text \<open>
  One round of the loop of \<^verbatim>\<open>zaddGenericCommand\<close>. The sum of two scores is \<^term>\<open>None\<close> when it is
  not a number. The result has the random numbers left and the score after the round. The type of
  sorted sets has no method that copies values, so the assignment to \<^verbatim>\<open>dictGetVal\<close> is \<^verbatim>\<open>dictSetVal\<close>.
\<close>

definition zadd_element :: "bool \<Rightarrow> ('s \<Rightarrow> 's \<Rightarrow> 's option) \<Rightarrow> bool \<Rightarrow> 's :: linorder zheap \<Rightarrow> zset \<Rightarrow> nat list \<Rightarrow> 's \<Rightarrow> str_key \<Rightarrow>
    ('s zheap \<times> zset \<times> nat list \<times> zadd_status \<times> 's) option" where
  "zadd_element can_resize plus_score incr h zs rs score ele =
     do {
       (d, de) \<leftarrow> dictFind (zs_dict zs) ele;
       case de of
         Some de \<Rightarrow>
           do {
             curobj \<leftarrow> dictGetKey d de;
             curscore \<leftarrow> score_ptr h d de;
             case (if incr then plus_score score curscore else Some score) of
               None \<Rightarrow> Some (h, zs\<lparr>zs_dict := d\<rparr>, rs, Zadd_Nan, score)
             | Some score \<Rightarrow>
                 if score \<noteq> curscore
                 then do {
                   (h, zsl, deleted, rel) \<leftarrow> zslDelete h (zs_zsl zs) curscore curobj;
                   if \<not> deleted then None
                   else do {
                     (h, zsl, znode, rs) \<leftarrow> zslInsert h zsl rs score curobj;
                     d \<leftarrow> dictSetVal d de znode;
                     Some (h, \<lparr>zs_dict = d, zs_zsl = zsl\<rparr>, rs, Zadd_Updated, score)
                   }
                 }
                 else Some (h, zs\<lparr>zs_dict := d\<rparr>, rs, Zadd_Unchanged, score)
           }
       | None \<Rightarrow>
           do {
             (h, zsl, znode, rs) \<leftarrow> zslInsert h (zs_zsl zs) rs score ele;
             (d, status) \<leftarrow> dictAdd can_resize d ele znode;
             if status \<noteq> DICT_OK then None
             else Some (h, \<lparr>zs_dict = d, zs_zsl = zsl\<rparr>, rs, Zadd_Added, score)
           }
     }"

text \<open>
  The loop, with the counters \<^verbatim>\<open>added\<close> and \<^verbatim>\<open>updated\<close>. The score is that of the last round, \<^term>\<open>None\<close>
  when the loop ended because of a sum that is not a number.
\<close>

fun zadd_elements :: "bool \<Rightarrow> ('s \<Rightarrow> 's \<Rightarrow> 's option) \<Rightarrow> bool \<Rightarrow> 's :: linorder zheap \<Rightarrow> zset \<Rightarrow> nat list \<Rightarrow> ('s \<times> str_key) list \<Rightarrow>
    's \<Rightarrow> nat \<Rightarrow> nat \<Rightarrow> ('s zheap \<times> zset \<times> nat list \<times> 's option \<times> nat \<times> nat) option" where
  "zadd_elements can_resize plus_score incr h zs rs [] score added updated = Some (h, zs, rs, Some score, added, updated)"
| "zadd_elements can_resize plus_score incr h zs rs ((s, ele) # es) score added updated =
     do {
       (h, zs, rs, status, score) \<leftarrow> zadd_element can_resize plus_score incr h zs rs s ele;
       case status of
         Zadd_Nan \<Rightarrow> Some (h, zs, rs, None, added, updated)
       | Zadd_Added \<Rightarrow> zadd_elements can_resize plus_score incr h zs rs es score (added + 1) updated
       | Zadd_Updated \<Rightarrow> zadd_elements can_resize plus_score incr h zs rs es score added (updated + 1)
       | Zadd_Unchanged \<Rightarrow> zadd_elements can_resize plus_score incr h zs rs es score added updated
     }"

subsection \<open>Removing\<close>

text \<open>The loop of \<^verbatim>\<open>zremCommand\<close>. The flag says whether the set became empty, so that the key is deleted.\<close>

fun zrem_elements :: "bool \<Rightarrow> 's :: linorder zheap \<Rightarrow> zset \<Rightarrow> str_key list \<Rightarrow> nat \<Rightarrow> ('s zheap \<times> zset \<times> nat \<times> bool) option" where
  "zrem_elements can_resize h zs [] deleted = Some (h, zs, deleted, False)"
| "zrem_elements can_resize h zs (ele # es) deleted =
     do {
       (d, de) \<leftarrow> dictFind (zs_dict zs) ele;
       case de of
         Some de \<Rightarrow>
           do {
             score \<leftarrow> score_ptr h d de;
             (h, zsl, found, rel) \<leftarrow> zslDelete h (zs_zsl zs) score ele;
             if \<not> found then None
             else do {
               (d, status, evs) \<leftarrow> dictDelete d ele;
               d \<leftarrow> resize_if_needed can_resize d;
               if dictSize d = 0 then Some (h, \<lparr>zs_dict = d, zs_zsl = zsl\<rparr>, deleted + 1, True)
               else zrem_elements can_resize h \<lparr>zs_dict = d, zs_zsl = zsl\<rparr> es (deleted + 1)
             }
           }
       | None \<Rightarrow> zrem_elements can_resize h (zs\<lparr>zs_dict := d\<rparr>) es deleted
     }"

text \<open>
  The loop that the three range deletions share. The counter \<^verbatim>\<open>traversed\<close> is the one of the deletion
  by rank; the other two do not look at it.
\<close>

partial_function (option) zsl_delete_loop :: "('s zskiplistNode \<Rightarrow> uint64 \<Rightarrow> bool) \<Rightarrow> nat list \<Rightarrow> 's zheap \<Rightarrow> zskiplist \<Rightarrow>
    (str_key, nat) dict \<Rightarrow> nat \<Rightarrow> uint64 \<Rightarrow> uint64 \<Rightarrow> ('s zheap \<times> zskiplist \<times> (str_key, nat) dict \<times> uint64) option" where
  "zsl_delete_loop go update h zsl d x traversed removed =
     (if x = 0 then Some (h, zsl, d, removed)
      else do {
        n \<leftarrow> node_at h x;
        if \<not> go n traversed then Some (h, zsl, d, removed)
        else do {
          l \<leftarrow> level_get h x 0;
          (h, zsl) \<leftarrow> zslDeleteNode h zsl x update;
          n \<leftarrow> node_at h x;
          obj \<leftarrow> zn_obj n;
          (d, status, evs) \<leftarrow> dictDelete d obj;
          (h, rel) \<leftarrow> zslFreeNode h x;
          zsl_delete_loop go update h zsl d (zl_forward l) (traversed + 1) (removed + 1)
        }
      })"

definition zslDeleteRangeByScore :: "'s :: linorder zheap \<Rightarrow> zskiplist \<Rightarrow> 's zrangespec \<Rightarrow> (str_key, nat) dict \<Rightarrow>
    ('s zheap \<times> zskiplist \<times> (str_key, nat) dict \<times> uint64) option" where
  "zslDeleteRangeByScore h zsl rng d =
     do {
       (x, r, update, rank) \<leftarrow>
         zsl_descend h (\<lambda>r s f. if minex rng then zn_score f \<le> range_min rng else zn_score f < range_min rng) no_rank
           (z_level zsl) (z_header zsl) ();
       l \<leftarrow> level_get h x 0;
       zsl_delete_loop (\<lambda>n t. if maxex rng then zn_score n < range_max rng else zn_score n \<le> range_max rng) update
         h zsl d (zl_forward l) 0 0
     }"

definition zslDeleteRangeByLex :: "'s zheap \<Rightarrow> zskiplist \<Rightarrow> zlexrangespec \<Rightarrow> (str_key, nat) dict \<Rightarrow>
    ('s zheap \<times> zskiplist \<times> (str_key, nat) dict \<times> uint64) option" where
  "zslDeleteRangeByLex h zsl rng d =
     do {
       (x, r, update, rank) \<leftarrow>
         zsl_descend h (\<lambda>r s f. \<not> lex_gte_node rng f) no_rank (z_level zsl) (z_header zsl) ();
       l \<leftarrow> level_get h x 0;
       zsl_delete_loop (\<lambda>n t. lex_lte_node rng n) update h zsl d (zl_forward l) 0 0
     }"

definition zslDeleteRangeByRank :: "'s zheap \<Rightarrow> zskiplist \<Rightarrow> uint32 \<Rightarrow> uint32 \<Rightarrow> (str_key, nat) dict \<Rightarrow>
    ('s zheap \<times> zskiplist \<times> (str_key, nat) dict \<times> uint64) option" where
  "zslDeleteRangeByRank h zsl start end1 d =
     do {
       (x, traversed, update, rank) \<leftarrow>
         zsl_descend h (\<lambda>r s f. add_span r s < ucast start) add_span (z_level zsl) (z_header zsl) 0;
       l \<leftarrow> level_get h x 0;
       zsl_delete_loop (\<lambda>n t. t \<le> ucast end1) update h zsl d (zl_forward l) (traversed + 1) 0
     }"

text \<open>
  \<^verbatim>\<open>zremrangeGenericCommand\<close> from the adjustment of the indexes on: the number of elements deleted and
  whether the key is to be deleted. The indexes are of type \<^verbatim>\<open>long\<close>; no sum here leaves its range.
\<close>

datatype 's zrangetype = Zrange_Rank int int | Zrange_Score "'s zrangespec" | Zrange_Lex zlexrangespec

definition zremrange_indexes :: "zset \<Rightarrow> int \<Rightarrow> int \<Rightarrow> (int \<times> int) option" where
  "zremrange_indexes zs start end1 =
     (let llen = uint (zsetLength zs);
          start = (if start < 0 then llen + start else start);
          end1 = (if end1 < 0 then llen + end1 else end1);
          start = (if start < 0 then 0 else start)
      in if start > end1 \<or> start \<ge> llen then None
         else Some (start, if end1 \<ge> llen then llen - 1 else end1))"

definition zremrange_delete :: "'s :: linorder zheap \<Rightarrow> zset \<Rightarrow> 's zrangetype \<Rightarrow>
    ('s zheap \<times> zskiplist \<times> (str_key, nat) dict \<times> uint64) option" where
  "zremrange_delete h zs rng =
     (case rng of
        Zrange_Rank start end1 \<Rightarrow>
          zslDeleteRangeByRank h (zs_zsl zs) (word_of_int (start + 1)) (word_of_int (end1 + 1)) (zs_dict zs)
      | Zrange_Score rng \<Rightarrow> zslDeleteRangeByScore h (zs_zsl zs) rng (zs_dict zs)
      | Zrange_Lex rng \<Rightarrow> zslDeleteRangeByLex h (zs_zsl zs) rng (zs_dict zs))"

definition zremrange_apply :: "bool \<Rightarrow> 's :: linorder zheap \<Rightarrow> zset \<Rightarrow> 's zrangetype \<Rightarrow> ('s zheap \<times> zset \<times> uint64 \<times> bool) option" where
  "zremrange_apply can_resize h zs rng =
     do {
       (h, zsl, d, deleted) \<leftarrow> zremrange_delete h zs rng;
       d \<leftarrow> resize_if_needed can_resize d;
       Some (h, \<lparr>zs_dict = d, zs_zsl = zsl\<rparr>, deleted, dictSize d = 0)
     }"

definition zremrange :: "bool \<Rightarrow> 's :: linorder zheap \<Rightarrow> zset \<Rightarrow> 's zrangetype \<Rightarrow> ('s zheap \<times> zset \<times> uint64 \<times> bool) option" where
  "zremrange can_resize h zs rng =
     (case rng of
        Zrange_Rank start end1 \<Rightarrow>
          (case zremrange_indexes zs start end1 of
             None \<Rightarrow> Some (h, zs, 0, False)
           | Some (start, end1) \<Rightarrow> zremrange_apply can_resize h zs (Zrange_Rank start end1))
      | _ \<Rightarrow> zremrange_apply can_resize h zs rng)"

subsection \<open>Queries\<close>

definition zscore :: "'s zheap \<Rightarrow> zset \<Rightarrow> str_key \<Rightarrow> (zset \<times> 's option) option" where
  "zscore h zs ele =
     do {
       (d, de) \<leftarrow> dictFind (zs_dict zs) ele;
       case de of
         Some de \<Rightarrow> do { score \<leftarrow> score_ptr h d de; Some (zs\<lparr>zs_dict := d\<rparr>, Some score) }
       | None \<Rightarrow> Some (zs\<lparr>zs_dict := d\<rparr>, None)
     }"

text \<open>\<^verbatim>\<open>zrankGenericCommand\<close>: an element of the dictionary without a rank fails the assertion.\<close>

definition zrank :: "'s :: linorder zheap \<Rightarrow> zset \<Rightarrow> bool \<Rightarrow> str_key \<Rightarrow> (zset \<times> uint64 option) option" where
  "zrank h zs reverse ele =
     do {
       (d, de) \<leftarrow> dictFind (zs_dict zs) ele;
       case de of
         Some de \<Rightarrow>
           do {
             score \<leftarrow> score_ptr h d de;
             rank \<leftarrow> zslGetRank h (zs_zsl zs) score ele;
             if rank = 0 then None
             else Some (zs\<lparr>zs_dict := d\<rparr>, Some (if reverse then ucast (zsetLength zs) - rank else rank - 1))
           }
       | None \<Rightarrow> Some (zs\<lparr>zs_dict := d\<rparr>, None)
     }"

end
