(* ===== verification/ZskiplistRefine.thy ===== *)
theory ZskiplistRefine
  imports ZskiplistQuery
begin

text \<open>
  The creation and the release of skiplists, and the theorems about them: a skiplist refines the sorted
  list of its pairs of a score and a member.
\<close>

subsection \<open>Creation and release\<close>

lemma create_levels:
  assumes "nodes h a = Some n" and "zn_level n = replicate k \<lparr>zl_forward = 0, zl_span = 0\<rparr>" and "\<forall>j \<in> set js. j < k"
  shows "for_each (\<lambda>j h. level_set h a j (\<lambda>l. l\<lparr>zl_forward := 0, zl_span := 0\<rparr>)) js h = Some h"
  using assms(3)
proof (induction js)
  case (Cons j js)
  have "(zn_level n)[j := \<lparr>zl_forward = 0, zl_span = 0\<rparr>] = zn_level n"
    using assms(2) Cons.prems by (simp add: list_update_same_conv)
  then have "n\<lparr>zn_level := (zn_level n)[j := \<lparr>zl_forward = 0, zl_span = 0\<rparr>]\<rparr> = n"
    by simp
  moreover have "(nodes h)(a \<mapsto> n) = nodes h"
    using assms(1) by auto
  ultimately have "node_upd h a (\<lambda>n. n\<lparr>zn_level := (zn_level n)[j := \<lparr>zl_forward = 0, zl_span = 0\<rparr>]\<rparr>) = Some h"
    using assms(1) by (simp add: node_upd_def)
  then have "level_set h a j (\<lambda>l. l\<lparr>zl_forward := 0, zl_span := 0\<rparr>) = Some h"
    using assms(1,2) Cons.prems by (simp add: level_set_def level_get_def node_at_def arr_get_def)
  with Cons show ?case
    by simp
qed simp

lemma zslCreate_holds:
  fixes h :: "'s :: {linorder, zero} zheap"
  assumes "heap_wf h"
  shows "\<exists>h' z. zslCreate h = Some (h', z) \<and> zsl_holds h' z [] \<and> z_header z = next_node h \<and> touches h {} h'"
proof -
  define n :: "'s zskiplistNode" where "n = zslCreateNode ZSKIPLIST_MAXLEVEL 0 None"
  define h' z where "h' = fst (node_new h n)" and "z = \<lparr>z_header = next_node h, z_tail = 0, z_length = 0, z_level = 1\<rparr>"
  have nn: "node_new h n = (h', next_node h)" "nodes h' (next_node h) = Some n"
    by (simp_all add: node_new_def h'_def)
  have lev: "zn_level n = replicate ZSKIPLIST_MAXLEVEL \<lparr>zl_forward = 0, zl_span = 0\<rparr>" and b: "n\<lparr>zn_backward := 0\<rparr> = n"
    and att: "zn_obj n = None"
    by (simp_all add: n_def zslCreateNode_def)
  have l: "level_get h' (next_node h) i = Some \<lparr>zl_forward = 0, zl_span = 0\<rparr>" if "i < ZSKIPLIST_MAXLEVEL" for i
    using nn(2) lev that by (simp add: level_get_def node_at_def arr_get_def)
  have "(nodes h')(next_node h \<mapsto> n) = nodes h'"
    using nn(2) by auto
  then have "zslCreate h = Some (h', z)"
    using nn create_levels [OF nn(2) lev, of "[0..<ZSKIPLIST_MAXLEVEL]"] b
    by (simp add: zslCreate_def n_def [symmetric] node_upd_def z_def)
  moreover have "heap_wf h'"
    using node_new_wf [OF assms, of n] by (simp add: h'_def)
  then have "zsl_wf h' z []"
    using nn(2) lev att l
    by (auto simp: zsl_wf_def z_def zattr_def towers_def ZSKIPLIST_MAXLEVEL_def)
  moreover have "touches h {} h'"
    by (simp add: h'_def node_new_def touches_def)
  ultimately show ?thesis
    by (auto simp: zsl_holds_def z_def)
qed

text \<open>The loop of \<^verbatim>\<open>zslFree\<close>, over the nodes linked at level 0.\<close>

fun linked :: "'s zheap \<Rightarrow> 's zentry list \<Rightarrow> bool" where
  "linked h [] = True"
| "linked h (e # es) =
     (0 < e_addr e \<and> (\<exists>n. nodes h (e_addr e) = Some n \<and> zn_obj n = Some (e_obj e)) \<and>
      (\<exists>s. level_get h (e_addr e) 0 = Some \<lparr>zl_forward = (if es = [] then 0 else e_addr (hd es)), zl_span = s\<rparr>) \<and>
      linked h es)"

lemma linked_frame:
  "\<lbrakk>linked h es; \<And>e. e \<in> set es \<Longrightarrow> nodes h' (e_addr e) = nodes h (e_addr e)\<rbrakk> \<Longrightarrow> linked h' es"
  by (induction es) (simp_all add: level_get_def node_at_def)

lemma linked_wf:
  assumes "zsl_wf h z (xs @ ys)"
  shows "linked h ys"
  using assms
proof (induction ys arbitrary: xs)
  case (Cons e ys)
  have wf: "zsl_wf h z ((xs @ [e]) @ ys)"
    using Cons.prems by simp
  obtain s where "level_get h (e_addr e) 0 = Some \<lparr>zl_forward = (if ys = [] then 0 else e_addr (hd ys)), zl_span = s\<rparr>"
    by (rule search_next [OF wf]) simp
  then show ?case
    using Cons.IH [OF wf] entry_found [OF Cons.prems, of e] by (auto simp: node_at_def)
qed simp

lemma zsl_free_loop_ok:
  assumes "linked h es" and "distinct (map e_addr es)"
  shows "\<exists>h'. zsl_free_loop h (if es = [] then 0 else e_addr (hd es)) rel = Some (h', rel @ map e_obj es) \<and>
    nodes h' = (\<lambda>a. if a \<in> e_addr ` set es then None else nodes h a) \<and> next_node h' = next_node h"
  using assms
proof (induction es arbitrary: h rel)
  case Nil
  then show ?case
    by (simp add: zsl_free_loop.simps)
next
  case (Cons e es)
  define h1 where "h1 = h\<lparr>nodes := (nodes h)(e_addr e := None)\<rparr>"
  have f: "zslFreeNode h (e_addr e) = Some (h1, [e_obj e])"
    using Cons.prems(1) by (auto simp: zslFreeNode_def node_at_def node_free_def h1_def)
  have "linked h1 es"
  proof (rule linked_frame)
    show "linked h es"
      using Cons.prems(1) by simp
    show "nodes h1 (e_addr x) = nodes h (e_addr x)" if "x \<in> set es" for x
      using Cons.prems(2) that by (simp add: h1_def) (metis imageI)
  qed
  from Cons.IH [OF this, of "rel @ [e_obj e]"] Cons.prems(2) obtain h' where
    "zsl_free_loop h1 (if es = [] then 0 else e_addr (hd es)) (rel @ [e_obj e]) = Some (h', rel @ e_obj e # map e_obj es)"
    "nodes h' = (\<lambda>a. if a \<in> e_addr ` set es then None else nodes h1 a)" "next_node h' = next_node h1"
    by auto
  moreover from Cons.prems(1) obtain s where
    "level_get h (e_addr e) 0 = Some \<lparr>zl_forward = (if es = [] then 0 else e_addr (hd es)), zl_span = s\<rparr>" "0 < e_addr e"
    by auto
  ultimately show ?case
    using f by (subst zsl_free_loop.simps) (auto simp: h1_def fun_eq_iff)
qed

lemma zslFree_ok:
  assumes wf: "zsl_wf h z ns"
  shows "\<exists>h'. zslFree h z = Some (h', map e_obj ns) \<and>
    nodes h' = (\<lambda>a. if a \<in> z_addrs z ns then None else nodes h a) \<and> next_node h' = next_node h"
proof -
  have wf': "zsl_wf h z ([] @ ns)" and dist: "distinct (z_header z # map e_addr ns)"
    using wf by (simp_all add: zsl_wf_def)
  obtain s where l: "level_get h (z_header z) 0 = Some \<lparr>zl_forward = (if ns = [] then 0 else e_addr (hd ns)), zl_span = s\<rparr>"
    by (rule search_next [OF wf']) simp
  obtain n where n: "nodes h (z_header z) = Some n"
    using wf by (auto simp: zsl_wf_def zattr_def)
  define h1 where "h1 = h\<lparr>nodes := (nodes h)(z_header z := None)\<rparr>"
  have "linked h1 ns"
    using dist by (intro linked_frame [OF linked_wf [OF wf']]) (simp add: h1_def, metis imageI)
  from zsl_free_loop_ok [OF this, of "[]"] dist obtain h' where
    "zsl_free_loop h1 (if ns = [] then 0 else e_addr (hd ns)) [] = Some (h', map e_obj ns)"
    "nodes h' = (\<lambda>a. if a \<in> e_addr ` set ns then None else nodes h1 a)" "next_node h' = next_node h1"
    by auto
  then show ?thesis
    using l n by (auto simp: zslFree_def node_free_def h1_def z_addrs_def fun_eq_iff)
qed

subsection \<open>The refinement\<close>

datatype 's zsl_op = Zsl_Insert 's str_key "nat list" | Zsl_Delete 's str_key

fun zsl_step :: "'s :: linorder zsl_op \<Rightarrow> 's zheap \<times> zskiplist \<Rightarrow> (('s zheap \<times> zskiplist) \<times> bool) option" where
  "zsl_step (Zsl_Insert score obj rs) (h, z) = do { (h, z, x, rs) \<leftarrow> zslInsert h z rs score obj; Some ((h, z), True) }"
| "zsl_step (Zsl_Delete score obj) (h, z) = do { (h, z, found, rel) \<leftarrow> zslDelete h z score obj; Some ((h, z), found) }"

text \<open>The operations on sorted lists of pairs.\<close>

fun zsl_spec :: "'s :: linorder zsl_op \<Rightarrow> 's zpair list \<Rightarrow> 's zpair list \<times> bool" where
  "zsl_spec (Zsl_Insert score obj rs) ps =
     (let p = (score, key_string obj)
      in (takeWhile (\<lambda>q. zp_less q p) ps @ p # dropWhile (\<lambda>q. zp_less q p) ps, True))"
| "zsl_spec (Zsl_Delete score obj) ps = (let p = (score, key_string obj) in (filter (\<lambda>q. q \<noteq> p) ps, p \<in> set ps))"

text \<open>
  \<^verbatim>\<open>zslInsert\<close> leaves it to its callers that the element is not there yet; the random numbers must
  end the loop of \<^verbatim>\<open>zslRandomLevel\<close>.
\<close>

fun zsl_valid :: "'s zsl_op \<Rightarrow> 's zpair list \<Rightarrow> bool" where
  "zsl_valid (Zsl_Insert score obj rs) ps = ((score, key_string obj) \<notin> set ps \<and> zslRandomLevel rs \<noteq> None)"
| "zsl_valid (Zsl_Delete score obj) ps = True"

definition zsl_rel :: "'s :: linorder zheap \<Rightarrow> zskiplist \<Rightarrow> 's zentry list \<Rightarrow> 's zheap \<times> zskiplist \<Rightarrow> 's zpair list \<Rightarrow> bool" where
  "zsl_rel h0 z0 ns0 s ps \<longleftrightarrow>
     (\<exists>ns. zsl_holds (fst s) (snd s) ns \<and> map zpair ns = ps \<and> touches h0 (z_addrs z0 ns0) (fst s) \<and>
        z_addrs (snd s) ns \<subseteq> z_addrs z0 ns0 \<union> {next_node h0..})"

lemma zsl_rel_step:
  assumes "zsl_holds h z ns" "touches h0 (z_addrs z0 ns0) h" "z_addrs z ns \<subseteq> z_addrs z0 ns0 \<union> {next_node h0..}"
    and "zsl_holds h' z' ns'" "touches h (z_addrs z ns) h'" "z_addrs z' ns' \<subseteq> z_addrs z ns \<union> {next_node h..}"
  shows "zsl_rel h0 z0 ns0 (h', z') (map zpair ns')"
proof -
  have "next_node h0 \<le> next_node h"
    using assms(2) by (simp add: touches_def)
  then have "z_addrs z' ns' \<subseteq> z_addrs z0 ns0 \<union> {next_node h0..}"
    using assms(3,6) by fastforce
  then show ?thesis
    using assms(4) touches_trans [OF assms(2,5,3)] by (auto simp: zsl_rel_def)
qed

lemma zsl_step_sim:
  assumes "zsl_rel h0 z0 ns0 s ps" and "zsl_valid op ps"
  shows "\<exists>s'. zsl_step op s = Some (s', snd (zsl_spec op ps)) \<and> zsl_rel h0 z0 ns0 s' (fst (zsl_spec op ps))"
proof -
  obtain h z where s: "s = (h, z)"
    by (cases s)
  obtain ns where ns: "zsl_holds h z ns" "touches h0 (z_addrs z0 ns0) h" "z_addrs z ns \<subseteq> z_addrs z0 ns0 \<union> {next_node h0..}"
    and ps: "map zpair ns = ps"
    using assms(1) by (auto simp: zsl_rel_def s)
  note next_rel = zsl_rel_step [OF ns]
  have set_ps: "set ps = zpair ` set ns"
    using ps by auto
  show ?thesis
  proof (cases op)
    case (Zsl_Insert score obj rs)
    let ?p = "(score, key_string obj)"
    obtain level rs' where rnd: "zslRandomLevel rs = Some (level, rs')" and new: "?p \<notin> zpair ` set ns"
      using assms(2) by (auto simp: Zsl_Insert set_ps)
    define e where "e = \<lparr>e_addr = next_node h, e_height = level, e_score = score, e_obj = obj\<rparr>"
    have pe: "zpair e = ?p"
      by (simp add: e_def zpair_def)
    obtain h' z' where i: "zslInsert h z rs score obj = Some (h', z', next_node h, rs')"
        "zsl_holds h' z' (zbelow ?p ns @ e # zabove ?p ns)" "z_header z' = z_header z" "touches h (z_addrs z ns) h'"
      using zslInsert_holds [OF ns(1) new rnd] unfolding e_def by blast
    have "z_addrs z' (zbelow ?p ns @ e # zabove ?p ns) \<subseteq> z_addrs z ns \<union> {next_node h..}"
      using i(3) by (auto simp: z_addrs_def e_def dest: set_takeWhileD set_dropWhileD)
    from next_rel [OF i(2,4) this]
    have "zsl_rel h0 z0 ns0 (h', z') (fst (zsl_spec op ps))"
      by (simp add: Zsl_Insert ps [symmetric] takeWhile_map dropWhile_map comp_def pe Let_def)
    then show ?thesis
      using i(1) by (simp add: s Zsl_Insert Let_def)
  next
    case (Zsl_Delete score obj)
    let ?p = "(score, key_string obj)"
    obtain h' z' rel where d: "zslDelete h z score obj = Some (h', z', ?p \<in> zpair ` set ns, rel)"
        "zsl_holds h' z' (filter (\<lambda>e. zpair e \<noteq> ?p) ns)" "z_header z' = z_header z" "touches h (z_addrs z ns) h'"
      using zslDelete_holds [OF ns(1), of score obj] by blast
    have "z_addrs z' (filter (\<lambda>e. zpair e \<noteq> ?p) ns) \<subseteq> z_addrs z ns \<union> {next_node h..}"
      using d(3) by (auto simp: z_addrs_def)
    from next_rel [OF d(2,4) this]
    have "zsl_rel h0 z0 ns0 (h', z') (fst (zsl_spec op ps))"
      by (simp add: Zsl_Delete ps [symmetric] filter_map comp_def Let_def)
    then show ?thesis
      using d(1) by (simp add: s Zsl_Delete set_ps Let_def)
  qed
qed

interpretation zslsim: simulation "zsl_rel h0 z0 ns0" zsl_step zsl_spec zsl_valid
  by unfold_locales (rule zsl_step_sim)

subsection \<open>The theorems\<close>

text \<open>A skiplist of three elements, two of which have the same score.\<close>

definition ex_zsl_ops :: "int zsl_op list" where
  "ex_zsl_ops = [Zsl_Insert 2 (SdsKey ''c'') [3, 5, 65535], Zsl_Insert 7 (SdsKey ''x'') [16384],
     Zsl_Insert 2 (SdsKey ''a'') [20000], Zsl_Delete 7 (SdsKey ''x''), Zsl_Insert (-1) (IntKey 42) [16383, 16384]]"

definition empty_heap :: "'n heap" where
  "empty_heap = \<lparr>nodes = (\<lambda>a. None), next_node = 1\<rparr>"

lemma empty_heap_wf: "heap_wf empty_heap"
  by (simp add: heap_wf_def empty_heap_def)

lemma text_less_simps [simp]:
  "text_less [] t \<longleftrightarrow> t \<noteq> []" "\<not> text_less s []"
  "text_less (a # s) (b # t) \<longleftrightarrow> (of_char a :: nat) < of_char b \<or> (a = b \<and> text_less s t)"
  by (cases t; simp add: text_less_def)+

lemma ex_keys: "key_string (SdsKey s) = s" "key_string (IntKey 42) = ''42''"
  by (simp_all add: key_string_def) code_simp

lemma ex_zsl_run:
  "valid_ops zsl_spec zsl_valid ex_zsl_ops []"
  "spec_ops zsl_spec ex_zsl_ops [] = ([(-1, ''42''), (2, ''a''), (2, ''c'')], [True, True, True, True, True])"
  by (simp_all add: ex_zsl_ops_def zp_less_def zslRandomLevel_def ZSKIPLIST_MAXLEVEL_def Let_def ex_keys)

lemma ex_zsl:
  obtains h z ns where "zsl_holds (h :: int zheap) z ns" and "map zpair ns = [(-1, ''42''), (2, ''a''), (2, ''c'')]"
proof -
  obtain h z where "zsl_holds (h :: int zheap) z []"
    using zslCreate_holds [OF empty_heap_wf] by blast
  then have "zsl_rel h z [] (h, z) []"
    by (auto simp: zsl_rel_def)
  from zslsim.run_sim [OF this ex_zsl_run(1)] show ?thesis
    using that by (auto simp: zsl_rel_def ex_zsl_run(2))
qed

text \<open>
  C3: a skiplist refines the sorted list of its pairs of a score and a member. Any run of insertions of
  new elements, of whatever random heights, and of deletions starts from a well formed skiplist and
  ends in one that holds what the run computes on sorted lists, with the same answers. In particular
  every forward pointer, span, backward pointer, the tail, the level and the length are right, no
  null or dangling pointer is dereferenced, and the nodes of other skiplists are not touched.
\<close>

theorem zskiplist_refines_sorted_list:
  assumes "zsl_holds h z ns" and "valid_ops zsl_spec zsl_valid ops (map zpair ns)"
  shows "\<exists>h' z' ns'. run_ops zsl_step ops (h, z) = Some ((h', z'), snd (spec_ops zsl_spec ops (map zpair ns))) \<and>
           zsl_holds h' z' ns' \<and> map zpair ns' = fst (spec_ops zsl_spec ops (map zpair ns)) \<and>
           touches h (z_addrs z ns) h'"
proof -
  have "zsl_rel h z ns (h, z) (map zpair ns)"
    using assms(1) by (auto simp: zsl_rel_def)
  from zslsim.run_sim [OF this assms(2)] show ?thesis
    by (fastforce simp: zsl_rel_def)
qed

theorem zskiplist_refines_sorted_list_witness:
  "\<exists>h z h' z' ns'. zslCreate (empty_heap :: int zheap) = Some (h, z) \<and>
     run_ops zsl_step ex_zsl_ops (h, z) = Some ((h', z'), [True, True, True, True, True]) \<and>
     zsl_holds h' z' ns' \<and> map zpair ns' = [(-1, ''42''), (2, ''a''), (2, ''c'')]"
proof -
  obtain h z where hz: "zslCreate (empty_heap :: int zheap) = Some (h, z)" "zsl_holds h z []"
    using zslCreate_holds [OF empty_heap_wf] by blast
  from zskiplist_refines_sorted_list [OF hz(2), of ex_zsl_ops] obtain h' z' ns' where
      "run_ops zsl_step ex_zsl_ops (h, z) = Some ((h', z'), [True, True, True, True, True])" "zsl_holds h' z' ns'"
      "map zpair ns' = [(-1, ''42''), (2, ''a''), (2, ''c'')]"
    by (fastforce simp: ex_zsl_run)
  with hz(1) show ?thesis
    by (intro exI conjI)
qed

text \<open>
  C17: the ranks of a skiplist with fewer than \<open>2 ^ 32\<close> elements and no member twice. \<^verbatim>\<open>zslGetRank\<close>
  gives the 1-based position of an element, 0 when the member is not there, and
  \<^verbatim>\<open>zslGetElementByRank\<close> gives back the node at that position, the null pointer for a rank beyond
  the last element, although both only add up the spans of the levels they descend.
\<close>

theorem zsl_ranks_correct:
  assumes "zsl_holds h z ns" and "length ns < 2 ^ 32" and "distinct (map (snd \<circ> zpair) ns)"
    and "k < length ns" and "zpair (ns ! k) = (score, key_string obj)"
    and "key_string obj' \<notin> set (map (snd \<circ> zpair) ns)" and "length ns < unat rank"
  shows "zslGetRank h z score obj = Some (word_of_nat (Suc k)) \<and>
         zslGetElementByRank h z (word_of_nat (Suc k)) = Some (e_addr (ns ! k)) \<and>
         zslGetRank h z score' obj' = Some 0 \<and> zslGetElementByRank h z rank = Some 0"
proof -
  have texts: "map (snd \<circ> zpair) ns = map (\<lambda>e. key_string (e_obj e)) ns"
    by (simp add: zpair_def)
  have "unat (word_of_nat (Suc k) :: uint64) = Suc k"
    using assms(2,4) by (intro unat_rank) linarith
  then have "zslGetElementByRank h z (word_of_nat (Suc k)) = Some (e_addr (ns ! k))"
    using assms(4) unfolding zslGetElementByRank_ok [OF assms(1,2)] by simp
  moreover have "zslGetRank h z score' obj' = Some 0"
    using assms(6) unfolding texts by (intro zslGetRank_absent [OF assms(1,2)]) simp
  moreover have "zslGetElementByRank h z rank = Some 0"
    using assms(7) unfolding zslGetElementByRank_ok [OF assms(1,2)] by simp
  ultimately show ?thesis
    using zslGetRank_present [OF assms(1,2) _ assms(4,5)] assms(3) unfolding texts by blast
qed

theorem zsl_ranks_correct_witness:
  "\<exists>h z ns. zsl_holds (h :: int zheap) z ns \<and> map zpair ns = [(-1, ''42''), (2, ''a''), (2, ''c'')] \<and>
     zslGetRank h z 2 (SdsKey ''a'') = Some 2 \<and> zslGetElementByRank h z 2 = Some (e_addr (ns ! 1)) \<and>
     zslGetRank h z 2 (SdsKey ''b'') = Some 0 \<and> zslGetElementByRank h z 4 = Some 0"
proof (rule ex_zsl)
  fix h :: "int zheap" and z ns
  assume hold: "zsl_holds h z ns" and ns: "map zpair ns = [(-1, ''42''), (2, ''a''), (2, ''c'')]"
  have len: "length ns = 3"
    using arg_cong [OF ns, of length] by simp
  have "map (snd \<circ> zpair) ns = map snd (map zpair ns)"
    by simp
  then have texts: "map (snd \<circ> zpair) ns = [''42'', ''a'', ''c'']"
    by (simp add: ns)
  have "zpair (ns ! 1) = (2, ''a'')"
    using arg_cong [OF ns, of "\<lambda>l. l ! 1"] len by simp
  then show ?thesis
    using zsl_ranks_correct [OF hold, of 1 2 "SdsKey ''a''" "SdsKey ''b''" 4 2] hold ns len texts
    by (intro exI [of _ h] exI [of _ z] exI [of _ ns]) (simp add: ex_keys)
qed

text \<open>
  C18: the first and the last node in a range of scores, with inclusive or exclusive bounds: what
  \<^verbatim>\<open>zslFirstInRange\<close> and \<^verbatim>\<open>zslLastInRange\<close> find by descending the levels is the first and the
  last of the elements a scan of the whole list selects, and null when it selects none.
\<close>

theorem zsl_range_ends:
  assumes "zsl_holds h z ns"
  shows "zslFirstInRange h z rng = Some (case filter (in_range rng) ns of [] \<Rightarrow> 0 | e # es \<Rightarrow> e_addr e) \<and>
         zslLastInRange h z rng =
           Some (if filter (in_range rng) ns = [] then 0 else e_addr (last (filter (in_range rng) ns)))"
  using zslFirstInRange_ok [OF assms] zslLastInRange_ok [OF assms] by blast

theorem zsl_range_ends_witness:
  "\<exists>h z ns. zsl_holds (h :: int zheap) z ns \<and> length ns = 3 \<and>
     zslFirstInRange h z \<lparr>range_min = -1, range_max = 2, minex = True, maxex = False\<rparr> = Some (e_addr (ns ! 1)) \<and>
     zslLastInRange h z \<lparr>range_min = -1, range_max = 2, minex = True, maxex = False\<rparr> = Some (e_addr (ns ! 2))"
proof (rule ex_zsl)
  fix h :: "int zheap" and z ns
  assume hold: "zsl_holds h z ns" and "map zpair ns = [(-1, ''42''), (2, ''a''), (2, ''c'')]"
  then obtain a b c where "ns = [a, b, c]" "e_score a = -1" "e_score b = 2" "e_score c = 2"
    by (auto simp: zpair_def)
  then show ?thesis
    using zsl_range_ends [OF hold, of "\<lparr>range_min = -1, range_max = 2, minex = True, maxex = False\<rparr>"] hold
    by (intro exI [of _ h] exI [of _ z] exI [of _ ns])
      (simp add: in_range_def zslValueGteMin_def zslValueLteMax_def)
qed

text \<open>
  C19: \<^verbatim>\<open>zslFree\<close> ends and frees the header and every node once, and nothing else; it releases the
  members in order.
\<close>

theorem zslFree_releases_all:
  assumes "zsl_holds h z ns"
  shows "\<exists>h'. zslFree h z = Some (h', map e_obj ns) \<and>
    nodes h' = (\<lambda>a. if a \<in> z_addrs z ns then None else nodes h a) \<and> next_node h' = next_node h"
  using zslFree_ok assms by (auto simp: zsl_holds_def)

theorem zslFree_releases_all_witness:
  "\<exists>h z ns h' rel. zsl_holds (h :: int zheap) z ns \<and> zslFree h z = Some (h', rel) \<and>
     map key_string rel = [''42'', ''a'', ''c''] \<and> nodes h' (z_header z) = None \<and> nodes h' (e_addr (ns ! 2)) = None"
proof (rule ex_zsl)
  fix h :: "int zheap" and z ns
  assume hold: "zsl_holds h z ns" and "map zpair ns = [(-1, ''42''), (2, ''a''), (2, ''c'')]"
  then obtain a b c where "ns = [a, b, c]" "map key_string (map e_obj ns) = [''42'', ''a'', ''c'']"
    by (auto simp: zpair_def)
  moreover obtain h' where "zslFree h z = Some (h', map e_obj ns)" "nodes h' = (\<lambda>a. if a \<in> z_addrs z ns then None else nodes h a)"
    using zslFree_releases_all [OF hold] by blast
  ultimately show ?thesis
    using hold by (intro exI [of _ h] exI [of _ z] exI [of _ ns] exI [of _ h'] exI [of _ "map e_obj ns"]) (simp add: z_addrs_def)
qed

end
