(* ===== verification/ZsetProps.thy ===== *)
theory ZsetProps
  imports Zset ZskiplistRefine
begin

text \<open>
  Sorted sets in the skiplist encoding keep the dictionary and the skiplist consistent: the invariant
  of the pair, its preservation by every operation, and the refinement of a sorted list of scores
  and members in which no member occurs twice.
\<close>

subsection \<open>The dictionary of a sorted set\<close>

abbreviation etext :: "'s zentry \<Rightarrow> char list" where
  "etext e \<equiv> key_string (e_obj e)"

text \<open>The map from members to the nodes of the skiplist.\<close>

definition zindex :: "'s zentry list \<Rightarrow> str_key \<Rightarrow> nat option option" where
  "zindex ns k = map_option (\<lambda>e. Some (e_addr e)) (List.find (\<lambda>e. etext e = key_string k) ns)"

definition zdict_ok :: "(str_key, nat) dict \<Rightarrow> 's zentry list \<Rightarrow> bool" where
  "zdict_ok d ns \<longleftrightarrow> dict_inv d \<and> (\<exists>seed. dtype d = zsetDictType seed) \<and> dict_map d = zindex ns \<and> dictSize d = length ns"

lemma find_text:
  assumes "distinct (map etext ns)"
  shows "List.find (\<lambda>e. etext e = t) ns = Some e \<longleftrightarrow> e \<in> set ns \<and> etext e = t"
  using assms by (induction ns) (auto simp: image_iff)

lemma find_no_text: "List.find (\<lambda>e. etext e = t) ns = None \<longleftrightarrow> t \<notin> etext ` set ns"
  by (auto simp: find_None_iff)

lemma filter_no_text: "t \<notin> etext ` set ns \<Longrightarrow> filter (\<lambda>e. etext e \<noteq> t) ns = ns"
  by (intro filter_True) (metis imageI)

lemma removed_text:
  assumes "distinct (map etext ns)" and "e \<in> set ns"
  shows "length ns = Suc (length (filter (\<lambda>f. etext f \<noteq> etext e) ns))"
proof -
  obtain xs ys where ns: "ns = xs @ e # ys"
    using assms(2) by (meson split_list)
  have "filter (\<lambda>f. etext f \<noteq> etext e) ns = xs @ ys"
    using assms(1) filter_no_text [of "etext e" xs] filter_no_text [of "etext e" ys] by (simp add: ns)
  then show ?thesis
    by (simp add: ns)
qed

lemma zindex_iff:
  assumes "distinct (map etext ns)"
  shows "zindex ns k = Some v \<longleftrightarrow> (\<exists>e \<in> set ns. etext e = key_string k \<and> v = Some (e_addr e))"
  unfolding zindex_def using find_text [OF assms, of "key_string k"] by (auto simp: eq_commute [of v])

lemma zset_compare: "dictCompareKeys (zsetDictType seed) a b \<longleftrightarrow> key_string a = key_string b"
  by (simp add: dictType_defs)

lemma zdict_same:
  assumes "zdict_ok d ns" and "dict_inv d'" and "same_content d d'"
  shows "zdict_ok d' ns"
proof -
  obtain seed where seed: "dtype d = zsetDictType seed" and inv: "dict_inv d"
    using assms(1) by (auto simp: zdict_ok_def)
  from zsets.same_content_map [OF inv seed assms(3)] same_content_size [OF inv assms(2,3)] show ?thesis
    using assms by (auto simp: zdict_ok_def same_content_def)
qed

lemma zdict_find:
  assumes ok: "zdict_ok d ns"
  shows "\<exists>d' de. dictFind d k = Some (d', de) \<and> zdict_ok d' ns \<and>
    (case List.find (\<lambda>e. etext e = key_string k) ns of
       None \<Rightarrow> de = None
     | Some e \<Rightarrow> \<exists>x \<in> set (dict_entries d'). de = Some (de_addr x) \<and> key_string (de_key x) = key_string k \<and>
         dictGetKey d' (de_addr x) = Some (de_key x) \<and> dictGetVal d' (de_addr x) = Some (Some (e_addr e)))"
proof -
  obtain seed where seed: "dtype d = zsetDictType seed" and inv: "dict_inv d" and m: "dict_map d k = zindex ns k"
    using ok by (auto simp: zdict_ok_def)
  obtain d' r where r: "dictFind d k = Some (d', r)" "dict_inv d'" "same_content d d'"
      "case r of None \<Rightarrow> dict_map d k = None
       | Some a \<Rightarrow> \<exists>e \<in> set (dict_entries d'). de_addr e = a \<and> dictCompareKeys (zsetDictType seed :: (str_key, nat) dictType) k (de_key e) \<and>
           dict_map d k = Some (de_val e)"
    by (rule zsets.dictFind_ok [OF inv seed, of k]) blast
  show ?thesis
  proof (cases "List.find (\<lambda>e. etext e = key_string k) ns")
    case None
    with r m have "r = None"
      by (auto simp: zindex_def split: option.splits)
    with None r(1) zdict_same [OF ok r(2,3)] show ?thesis
      by simp
  next
    case (Some e)
    then have mk: "dict_map d k = Some (Some (e_addr e))"
      using m by (simp add: zindex_def)
    then obtain x where x: "r = Some (de_addr x)" "x \<in> set (dict_entries d')" "key_string k = key_string (de_key x)"
        "de_val x = Some (e_addr e)"
      using r(4) by (auto simp: zset_compare split: option.splits)
    from zsets.find_entry_at [OF r(2) x(2)] x have
      "dictGetKey d' (de_addr x) = Some (de_key x)" "dictGetVal d' (de_addr x) = Some (Some (e_addr e))"
      by (simp_all add: dictGetKey_def dictGetVal_def)
    with Some r(1) x zdict_same [OF ok r(2,3)] show ?thesis
      by auto
  qed
qed

text \<open>The maps of lists with the same entries agree.\<close>

lemma zdict_set:
  assumes ok: "zdict_ok d ns" and dist: "distinct (map etext ns)" "distinct (map etext ns')"
    and x: "x \<in> set (dict_entries d)" "key_string (de_key x) = etext e"
    and ns': "set ns' = insert e {f \<in> set ns. etext f \<noteq> etext e}" "length ns' = length ns"
  shows "\<exists>d'. dictSetVal d (de_addr x) (e_addr e) = Some d' \<and> zdict_ok d' ns'"
proof -
  obtain seed where seed: "dtype d = zsetDictType seed" and inv: "dict_inv d" and m: "dict_map d = zindex ns"
    and sz: "dictSize d = length ns"
    using ok by (auto simp: zdict_ok_def)
  have dup: "dupVal (zsetDictType seed) v = v" for v :: nat
    by (simp add: dupVal_def zsetDictType_def)
  obtain d' where d': "dictSetVal d (de_addr x) (e_addr e) = Some d'" "dict_inv d'" "dtype d' = zsetDictType seed"
      "dictSize d' = dictSize d" "dict_map d' = map_put (zsetDictType seed) (de_key x) (e_addr e) (dict_map d)"
    using zsets.dictSetVal_ok [OF inv seed x(1), of "e_addr e"] unfolding dup by blast
  have "dict_map d' k = Some v \<longleftrightarrow> zindex ns' k = Some v" for k v
    unfolding d'(5) map_put_def zset_compare m x(2) zindex_iff [OF dist(2)] ns'(1) using zindex_iff [OF dist(1), of k v] by auto
  then have "dict_map d' = zindex ns'"
    by (intro ext option_eqI)
  with d' sz ns'(2) show ?thesis
    by (auto simp: zdict_ok_def)
qed

lemma zdict_add:
  assumes ok: "zdict_ok d ns" and dist: "distinct (map etext ns)" "distinct (map etext ns')"
    and e: "etext e = key_string k" "etext e \<notin> etext ` set ns" and sz: "length ns \<le> 2 ^ 59"
    and ns': "set ns' = insert e (set ns)" "length ns' = Suc (length ns)"
  shows "\<exists>d'. dictAdd can d k (e_addr e) = Some (d', DICT_OK) \<and> zdict_ok d' ns'"
proof -
  obtain seed where seed: "dtype d = zsetDictType seed" and inv: "dict_inv d" and m: "dict_map d = zindex ns"
    and len: "dictSize d = length ns"
    using ok by (auto simp: zdict_ok_def)
  have dup: "dupVal (zsetDictType seed) v = v" for v :: nat
    by (simp add: dupVal_def zsetDictType_def)
  have other: "etext f \<noteq> key_string k" if "f \<in> set ns" for f
    using e that by (metis imageI)
  have none: "dict_map d k = None"
    using e find_no_text [of "key_string k" ns] by (simp add: m zindex_def)
  have "dictSize d \<le> 2 ^ 59"
    using sz len by simp
  from zsets.dictAdd_spec [OF inv seed this, of can k "e_addr e"] none obtain d' where
    d': "dictAdd can d k (e_addr e) = Some (d', DICT_OK)" "dict_inv d'" "dtype d' = zsetDictType seed"
      "dictSize d' = dictSize d + 1" "dict_map d' = map_put (zsetDictType seed) k (e_addr e) (dict_map d)"
    by (auto simp: dup)
  have "dict_map d' k' = Some v \<longleftrightarrow> zindex ns' k' = Some v" for k' v
    unfolding d'(5) map_put_def zset_compare m zindex_iff [OF dist(2)] ns'(1)
    using zindex_iff [OF dist(1), of k' v] e(1) other by auto
  then have "dict_map d' = zindex ns'"
    by (intro ext option_eqI)
  with d' len ns'(2) show ?thesis
    by (auto simp: zdict_ok_def)
qed

lemma zdict_delete:
  assumes ok: "zdict_ok d ns" and dist: "distinct (map etext ns)"
  shows "\<exists>d' st evs. dictDelete d k = Some (d', st, evs) \<and> zdict_ok d' (filter (\<lambda>e. etext e \<noteq> key_string k) ns)"
proof -
  obtain seed where seed: "dtype d = zsetDictType seed" and inv: "dict_inv d" and m: "dict_map d = zindex ns"
    and len: "dictSize d = length ns"
    using ok by (auto simp: zdict_ok_def)
  let ?ns = "filter (\<lambda>e. etext e \<noteq> key_string k) ns"
  have dist': "distinct (map etext ?ns)"
    using dist by (simp add: distinct_map_filter)
  from inv seed show ?thesis
  proof (cases rule: zsets.dictGenericDelete_ok [where k = k and nofree = False])
    case (absent d')
    then have "key_string k \<notin> etext ` set ns"
      using find_no_text [of "key_string k" ns] by (simp add: m zindex_def)
    then have "?ns = ns"
      by (rule filter_no_text)
    with absent zdict_same [OF ok absent(2,4)] show ?thesis
      by (simp add: dictDelete_def)
  next
    case (deleted d' x)
    obtain e where e: "e \<in> set ns" "etext e = key_string k"
      using deleted(5) zindex_iff [OF dist, of k "de_val x"] by (auto simp: m)
    have "length ns = Suc (length ?ns)"
      using removed_text [OF dist e(1)] by (simp add: e(2))
    moreover have "dict_map d' = zindex ?ns"
    proof (intro ext option_eqI)
      show "dict_map d' k' = Some v \<longleftrightarrow> zindex ?ns k' = Some v" for k' v
        using deleted zindex_iff [OF dist, of k' v] zindex_iff [OF dist', of k' v]
        by (auto simp: map_del_def zset_compare m)
    qed
    moreover have "Suc (dictSize d') = dictSize d"
      using deleted(8) by (metis dict_size_entries [OF deleted(2)] dict_size_entries [OF inv] size_add_mset size_mset)
    ultimately show ?thesis
      using deleted len by (auto simp: dictDelete_def zdict_ok_def)
  qed
qed

lemma zdict_resize:
  assumes ok: "zdict_ok d ns" and sz: "length ns < 2 ^ 56"
  shows "\<exists>d'. resize_if_needed can d = Some d' \<and> zdict_ok d' ns"
proof -
  obtain seed where seed: "dtype d = zsetDictType seed" and inv: "dict_inv d" and len: "dictSize d = length ns"
    using ok by (auto simp: zdict_ok_def)
  have "dict_type (dtype d)" "dictSize d < 2 ^ 56"
    using seed len sz by (simp_all add: zsets.dict_type_axioms)
  then obtain d' where "resize_if_needed can d = Some d'" "dict_inv d'" "same_content d d'"
    by (rule resize_if_needed_ok [OF _ inv])
  then show ?thesis
    using zdict_same [OF ok] by blast
qed

subsection \<open>The invariant of sorted sets\<close>

definition zset_inv :: "'s :: linorder zheap \<Rightarrow> zset \<Rightarrow> 's zentry list \<Rightarrow> bool" where
  "zset_inv h zs ns \<longleftrightarrow> zsl_holds h (zs_zsl zs) ns \<and> distinct (map etext ns) \<and> zdict_ok (zs_dict zs) ns"

text \<open>A step of an operation: the invariant holds after it, and only the nodes of the set and new ones change.\<close>

definition zset_evolves :: "'s :: linorder zheap \<Rightarrow> zset \<Rightarrow> 's zentry list \<Rightarrow> 's zheap \<Rightarrow> zset \<Rightarrow> 's zentry list \<Rightarrow> bool" where
  "zset_evolves h zs ns h' zs' ns' \<longleftrightarrow>
     zset_inv h' zs' ns' \<and> touches h (z_addrs (zs_zsl zs) ns) h' \<and>
     z_addrs (zs_zsl zs') ns' \<subseteq> z_addrs (zs_zsl zs) ns \<union> {next_node h..}"

lemma zset_evolves_refl: "zset_inv h zs ns \<Longrightarrow> zset_evolves h zs ns h zs ns"
  by (simp add: zset_evolves_def)

lemma zset_evolves_trans:
  assumes "zset_evolves h zs ns h' zs' ns'" and "zset_evolves h' zs' ns' h'' zs'' ns''"
  shows "zset_evolves h zs ns h'' zs'' ns''"
proof -
  have "next_node h \<le> next_node h'"
    using assms(1) by (simp add: zset_evolves_def touches_def)
  then have "z_addrs (zs_zsl zs'') ns'' \<subseteq> z_addrs (zs_zsl zs) ns \<union> {next_node h..}"
    using assms unfolding zset_evolves_def by fastforce
  with assms show ?thesis
    unfolding zset_evolves_def using touches_trans by blast
qed

lemma zset_evolves_dict:
  assumes "zset_inv h zs ns" and "zdict_ok d ns"
  shows "zset_evolves h zs ns h (zs\<lparr>zs_dict := d\<rparr>) ns"
  using assms by (simp add: zset_evolves_def zset_inv_def)

lemma createZset_ok:
  assumes "heap_wf h"
  shows "\<exists>h' zs. createZset seed h = Some (h', zs) \<and> zset_inv h' zs [] \<and> touches h {} h'"
proof -
  obtain h' z where z: "zslCreate h = Some (h', z)" "zsl_holds h' z []" "touches h {} h'"
    using zslCreate_holds [OF assms] by blast
  have "zdict_ok (dictCreate (zsetDictType seed)) ([] :: 'a zentry list)"
    using dict_inv_create [of "zsetDictType seed"] dict_map_create [of "zsetDictType seed"] dictSize_create [of "zsetDictType seed"]
    by (auto simp: zdict_ok_def zindex_def dictCreate_def dictInit_def fun_eq_iff)
  then show ?thesis
    using z by (auto simp: createZset_def zset_inv_def)
qed

lemma score_ptr_entry:
  assumes "zsl_wf h z ns" and "e \<in> set ns" and "dictGetVal d a = Some (Some (e_addr e))"
  shows "score_ptr h d a = Some (e_score e)"
  using entry_found [OF assms(1,2)] assms(3) by (auto simp: score_ptr_def)

text \<open>The list after an insertion.\<close>

lemma inserted_list:
  fixes p :: "'s :: linorder zpair" and qs :: "'s zentry list"
  assumes "distinct (map etext qs)" and "etext e \<notin> etext ` set qs"
  shows "set (zbelow p qs @ e # zabove p qs) = insert e (set qs)"
    and "length (zbelow p qs @ e # zabove p qs) = Suc (length qs)"
    and "distinct (map etext (zbelow p qs @ e # zabove p qs))"
proof -
  let ?ns = "zbelow p qs @ e # zabove p qs"
  have "mset (zbelow p qs) + mset (zabove p qs) = mset qs"
    by (metis mset_append takeWhile_dropWhile_id)
  then have ms: "mset ?ns = mset (e # qs)"
    by simp
  show "set ?ns = insert e (set qs)"
    using mset_eq_setD [OF ms] by simp
  show "length ?ns = Suc (length qs)"
    using mset_eq_length [OF ms] by simp
  have "mset (map etext ?ns) = mset (map etext (e # qs))"
    using ms by (simp only: mset_map)
  then show "distinct (map etext ?ns)"
    using assms mset_eq_imp_distinct_iff by fastforce
qed

lemma deleted_pair:
  assumes "distinct (map etext ns)" and "e \<in> set ns"
  shows "filter (\<lambda>f. zpair f \<noteq> (e_score e, etext e)) ns = filter (\<lambda>f. etext f \<noteq> etext e) ns"
proof (rule filter_cong [OF refl])
  fix f
  assume "f \<in> set ns"
  then show "zpair f \<noteq> (e_score e, etext e) \<longleftrightarrow> etext f \<noteq> etext e"
    using assms inj_on_contraD [of etext "set ns" f e] by (auto simp: zpair_def distinct_map)
qed

subsection \<open>Adding\<close>

text \<open>The specification, on sorted lists of scores and texts.\<close>

definition zscore_of :: "'s zpair list \<Rightarrow> char list \<Rightarrow> 's option" where
  "zscore_of ps t = map_option fst (List.find (\<lambda>q. snd q = t) ps)"

definition zput :: "'s :: linorder zpair \<Rightarrow> 's zpair list \<Rightarrow> 's zpair list" where
  "zput p ps =
     (let qs = filter (\<lambda>q. snd q \<noteq> snd p) ps
      in takeWhile (\<lambda>q. zp_less q p) qs @ p # dropWhile (\<lambda>q. zp_less q p) qs)"

definition zadd_spec :: "('s \<Rightarrow> 's \<Rightarrow> 's option) \<Rightarrow> bool \<Rightarrow> 's :: linorder \<Rightarrow> char list \<Rightarrow> 's zpair list \<Rightarrow>
    's zpair list \<times> zadd_status \<times> 's" where
  "zadd_spec plus_score incr score t ps =
     (case zscore_of ps t of
        None \<Rightarrow> (zput (score, t) ps, Zadd_Added, score)
      | Some cur \<Rightarrow>
          (case (if incr then plus_score score cur else Some score) of
             None \<Rightarrow> (ps, Zadd_Nan, score)
           | Some s \<Rightarrow> if s \<noteq> cur then (zput (s, t) ps, Zadd_Updated, s) else (ps, Zadd_Unchanged, s)))"

lemma zscore_of_entries: "zscore_of (map zpair ns) t = map_option e_score (List.find (\<lambda>e. etext e = t) ns)"
  by (induction ns) (simp_all add: zscore_of_def zpair_def)

lemma zput_entries:
  assumes "zpair e = p"
  shows "zput p (map zpair ns) =
    map zpair (zbelow p (filter (\<lambda>f. etext f \<noteq> snd p) ns) @ e # zabove p (filter (\<lambda>f. etext f \<noteq> snd p) ns))"
proof -
  have "filter (\<lambda>q. snd q \<noteq> snd p) (map zpair ns) = map zpair (filter (\<lambda>f. etext f \<noteq> snd p) ns)"
    by (simp add: filter_map comp_def zpair_def)
  then show ?thesis
    using assms by (simp add: zput_def Let_def takeWhile_map dropWhile_map comp_def)
qed

text \<open>The random numbers left after one or no height has been drawn.\<close>

definition random_tail :: "nat list \<Rightarrow> nat list \<Rightarrow> bool" where
  "random_tail rs rs' \<longleftrightarrow> rs' = rs \<or> (\<exists>level. zslRandomLevel rs = Some (level, rs'))"

lemma zset_insert:
  assumes hold: "zsl_holds h z qs" and dist: "distinct (map etext qs)" and new: "key_string obj \<notin> etext ` set qs"
    and rnd: "zslRandomLevel rs \<noteq> None"
  obtains h' z' e rs' ns' where "zslInsert h z rs score obj = Some (h', z', e_addr e, rs')" and "zsl_holds h' z' ns'"
    and "distinct (map etext ns')" and "set ns' = insert e (set qs)" and "length ns' = Suc (length qs)" and "e_obj e = obj"
    and "touches h (z_addrs z qs) h'" and "z_addrs z' ns' \<subseteq> z_addrs z qs \<union> {next_node h..}"
    and "map zpair ns' = zput (score, key_string obj) (map zpair qs)" and "random_tail rs rs'"
proof -
  obtain level rs' where lv: "zslRandomLevel rs = Some (level, rs')"
    using rnd by auto
  define e where "e = \<lparr>e_addr = next_node h, e_height = level, e_score = score, e_obj = obj\<rparr>"
  let ?p = "(score, key_string obj)"
  let ?ns = "zbelow ?p qs @ e # zabove ?p qs"
  have pe: "zpair e = ?p" and et: "etext e = key_string obj"
    by (simp_all add: e_def zpair_def)
  have out: "?p \<notin> zpair ` set qs"
    using new by (auto simp: zpair_def)
  obtain h' z' where i: "zslInsert h z rs score obj = Some (h', z', next_node h, rs')"
      "zsl_holds h' z' ?ns" "z_header z' = z_header z" "touches h (z_addrs z qs) h'"
    using zslInsert_holds [OF hold out lv] unfolding e_def by blast
  have "etext e \<notin> etext ` set qs"
    using new et by simp
  note ns = inserted_list [OF dist this, of ?p]
  have "z_addrs z' ?ns \<subseteq> z_addrs z qs \<union> {next_node h..}"
    using i(3) unfolding z_addrs_def list.set set_map ns(1) by (auto simp: e_def)
  moreover have "map zpair ?ns = zput ?p (map zpair qs)"
    using zput_entries [OF pe, of qs] filter_no_text [OF new] by simp
  moreover have "zslInsert h z rs score obj = Some (h', z', e_addr e, rs')" "e_obj e = obj"
    using i(1) by (simp_all add: e_def)
  ultimately show ?thesis
    using that [of h' z' e rs' ?ns] i ns lv unfolding random_tail_def by blast
qed

lemma zadd_new:
  assumes inv: "zset_inv h zs ns" and rnd: "zslRandomLevel rs \<noteq> None" and sz: "length ns \<le> 2 ^ 59"
    and new: "key_string ele \<notin> etext ` set ns" and d: "dictFind (zs_dict zs) ele = Some (d, None)" "zdict_ok d ns"
  shows "\<exists>h' zs' ns' rs'. zadd_element can plus_score incr h zs rs score ele = Some (h', zs', rs', Zadd_Added, score) \<and>
    random_tail rs rs' \<and> zset_evolves h zs ns h' zs' ns' \<and> map zpair ns' = zput (score, key_string ele) (map zpair ns)"
proof -
  have hold: "zsl_holds h (zs_zsl zs) ns" and dist: "distinct (map etext ns)"
    using inv by (simp_all add: zset_inv_def)
  obtain h' z' e rs' ns' where i: "zslInsert h (zs_zsl zs) rs score ele = Some (h', z', e_addr e, rs')" "zsl_holds h' z' ns'"
      "distinct (map etext ns')" "set ns' = insert e (set ns)" "length ns' = Suc (length ns)" "e_obj e = ele"
      "touches h (z_addrs (zs_zsl zs) ns) h'" "z_addrs z' ns' \<subseteq> z_addrs (zs_zsl zs) ns \<union> {next_node h..}"
      "map zpair ns' = zput (score, key_string ele) (map zpair ns)" "random_tail rs rs'"
    by (rule zset_insert [OF hold dist new rnd, of score]) blast
  obtain d' where "dictAdd can d ele (e_addr e) = Some (d', DICT_OK)" "zdict_ok d' ns'"
    using zdict_add [OF d(2) dist i(3) _ _ sz i(4,5), of ele can] i(6) new by auto
  with i d(1) show ?thesis
    by (intro exI [of _ h'] exI [of _ "\<lparr>zs_dict = d', zs_zsl = z'\<rparr>"] exI [of _ ns'] exI [of _ rs'])
      (simp add: zadd_element_def zset_evolves_def zset_inv_def)
qed

lemma zadd_update:
  assumes inv: "zset_inv h zs ns" and rnd: "zslRandomLevel rs \<noteq> None" and e: "e \<in> set ns"
    and d: "zdict_ok d ns" and x: "x \<in> set (dict_entries d)" "key_string (de_key x) = etext e"
  shows "\<exists>h1 z1 rel h' z' a rs' d' ns'. zslDelete h (zs_zsl zs) (e_score e) (de_key x) = Some (h1, z1, True, rel) \<and>
    zslInsert h1 z1 rs score (de_key x) = Some (h', z', a, rs') \<and> dictSetVal d (de_addr x) a = Some d' \<and>
    random_tail rs rs' \<and> zset_evolves h zs ns h' \<lparr>zs_dict = d', zs_zsl = z'\<rparr> ns' \<and>
    map zpair ns' = zput (score, etext e) (map zpair ns)"
proof -
  have hold: "zsl_holds h (zs_zsl zs) ns" and dist: "distinct (map etext ns)"
    using inv by (simp_all add: zset_inv_def)
  define qs where "qs = filter (\<lambda>f. etext f \<noteq> etext e) ns"
  have "zpair e = (e_score e, key_string (de_key x))"
    by (simp add: zpair_def x(2))
  then have "(e_score e, key_string (de_key x)) \<in> zpair ` set ns"
    using e by (metis imageI)
  moreover have "filter (\<lambda>f. zpair f \<noteq> (e_score e, key_string (de_key x))) ns = qs"
    unfolding x(2) qs_def by (rule deleted_pair [OF dist e])
  ultimately obtain h1 z1 rel where del: "zslDelete h (zs_zsl zs) (e_score e) (de_key x) = Some (h1, z1, True, rel)"
      "zsl_holds h1 z1 qs" "z_header z1 = z_header (zs_zsl zs)" "touches h (z_addrs (zs_zsl zs) ns) h1"
    using zslDelete_holds [OF hold, of "e_score e" "de_key x"] by auto
  have dist': "distinct (map etext qs)" and new: "key_string (de_key x) \<notin> etext ` set qs"
    using dist x(2) by (auto simp: qs_def distinct_map_filter)
  obtain h' z' f rs' ns' where i: "zslInsert h1 z1 rs score (de_key x) = Some (h', z', e_addr f, rs')" "zsl_holds h' z' ns'"
      "distinct (map etext ns')" "set ns' = insert f (set qs)" "length ns' = Suc (length qs)" "e_obj f = de_key x"
      "touches h1 (z_addrs z1 qs) h'" "z_addrs z' ns' \<subseteq> z_addrs z1 qs \<union> {next_node h1..}"
      "map zpair ns' = zput (score, key_string (de_key x)) (map zpair qs)" "random_tail rs rs'"
    by (rule zset_insert [OF del(2) dist' new rnd, of score]) blast
  have len: "length ns = Suc (length qs)"
    unfolding qs_def by (rule removed_text [OF dist e])
  have f: "etext f = etext e"
    using i(6) x(2) by simp
  have "set ns' = insert f {g \<in> set ns. etext g \<noteq> etext f}" "length ns' = length ns"
    using i(4,5) len f by (simp_all add: qs_def)
  with zdict_set [OF d dist i(3) x(1), of f] obtain d' where d': "dictSetVal d (de_addr x) (e_addr f) = Some d'" "zdict_ok d' ns'"
    using f x(2) by auto
  have sub: "z_addrs z1 qs \<subseteq> z_addrs (zs_zsl zs) ns" and le: "next_node h \<le> next_node h1"
    using del(3,4) by (auto simp: z_addrs_def qs_def touches_def)
  then have "touches h (z_addrs (zs_zsl zs) ns) h'"
    using touches_trans [OF del(4) i(7)] by blast
  moreover have "z_addrs z' ns' \<subseteq> z_addrs (zs_zsl zs) ns \<union> {next_node h..}"
    using i(8) sub le by fastforce
  ultimately have "zset_evolves h zs ns h' \<lparr>zs_dict = d', zs_zsl = z'\<rparr> ns'"
    using i(2,3) d'(2) by (simp add: zset_evolves_def zset_inv_def)
  moreover have "map zpair qs = filter (\<lambda>q. snd q \<noteq> etext e) (map zpair ns)"
    by (simp add: qs_def filter_map comp_def zpair_def)
  then have "map zpair ns' = zput (score, etext e) (map zpair ns)"
    using i(9) by (simp add: x(2) zput_def)
  ultimately show ?thesis
    using del(1) i(1,10) d'(1) by blast
qed

text \<open>The lookup of a member, and its score through the pointer in the dictionary.\<close>

lemma zset_find:
  assumes inv: "zset_inv h zs ns"
  obtains (absent) d where "dictFind (zs_dict zs) ele = Some (d, None)" "zdict_ok d ns" "key_string ele \<notin> etext ` set ns"
      "zscore_of (map zpair ns) (key_string ele) = None"
    | (present) d e x where "dictFind (zs_dict zs) ele = Some (d, Some (de_addr x))" "zdict_ok d ns" "e \<in> set ns"
      "etext e = key_string ele" "x \<in> set (dict_entries d)" "key_string (de_key x) = etext e"
      "dictGetKey d (de_addr x) = Some (de_key x)" "score_ptr h d (de_addr x) = Some (e_score e)"
      "zscore_of (map zpair ns) (key_string ele) = Some (e_score e)"
proof -
  have wf: "zsl_wf h (zs_zsl zs) ns" and dist: "distinct (map etext ns)" and ok: "zdict_ok (zs_dict zs) ns"
    using inv by (simp_all add: zset_inv_def zsl_holds_def)
  obtain d de where d: "dictFind (zs_dict zs) ele = Some (d, de)" "zdict_ok d ns"
    and de: "case List.find (\<lambda>e. etext e = key_string ele) ns of
       None \<Rightarrow> de = None
     | Some e \<Rightarrow> \<exists>x \<in> set (dict_entries d). de = Some (de_addr x) \<and> key_string (de_key x) = key_string ele \<and>
         dictGetKey d (de_addr x) = Some (de_key x) \<and> dictGetVal d (de_addr x) = Some (Some (e_addr e))"
    using zdict_find [OF ok, of ele] by blast
  show ?thesis
  proof (cases "List.find (\<lambda>e. etext e = key_string ele) ns")
    case None
    then show ?thesis
      using absent d de find_no_text [of "key_string ele" ns] by (simp add: zscore_of_entries)
  next
    case (Some e)
    then have e: "e \<in> set ns" "etext e = key_string ele"
      using find_text [OF dist] by simp_all
    from de Some obtain x where "x \<in> set (dict_entries d)" "de = Some (de_addr x)" "key_string (de_key x) = etext e"
        "dictGetKey d (de_addr x) = Some (de_key x)" "dictGetVal d (de_addr x) = Some (Some (e_addr e))"
      by (auto simp: e(2))
    with score_ptr_entry [OF wf e(1) this(5)] d e Some show ?thesis
      using present [of d x e] by (simp add: zscore_of_entries)
  qed
qed

lemma zadd_element_ok:
  assumes inv: "zset_inv h zs ns" and rnd: "zslRandomLevel rs \<noteq> None" and sz: "length ns \<le> 2 ^ 59"
  shows "\<exists>h' zs' ns' rs'. zadd_element can plus_score incr h zs rs score ele =
      Some (h', zs', rs', snd (zadd_spec plus_score incr score (key_string ele) (map zpair ns))) \<and>
    random_tail rs rs' \<and> zset_evolves h zs ns h' zs' ns' \<and> map zpair ns' = fst (zadd_spec plus_score incr score (key_string ele) (map zpair ns))"
  using inv
proof (cases rule: zset_find [where ele = ele])
  case (absent d)
  with zadd_new [OF inv rnd sz absent(3,1,2)] show ?thesis
    by (simp add: zadd_spec_def)
next
  case (present d e x)
  show ?thesis
  proof (cases "if incr then plus_score score (e_score e) else Some score")
    case None
    then show ?thesis
      using present zset_evolves_dict [OF inv present(2)] by (auto simp: zadd_element_def zadd_spec_def random_tail_def)
  next
    case (Some s)
    show ?thesis
    proof (cases "s = e_score e")
      case True
      then show ?thesis
        using Some present zset_evolves_dict [OF inv present(2)] by (auto simp: zadd_element_def zadd_spec_def random_tail_def)
    next
      case False
      then show ?thesis
        using zadd_update [OF inv rnd present(3,2,5,6), of s] Some present
        by (fastforce simp: zadd_element_def zadd_spec_def)
    qed
  qed
qed

subsection \<open>Removing\<close>

lemma filter_one_text:
  assumes "distinct (map etext (xs @ e # ys))"
  shows "filter (\<lambda>f. etext f \<noteq> etext e) (xs @ e # ys) = xs @ ys"
  using assms filter_no_text [of "etext e" xs] filter_no_text [of "etext e" ys] by simp

lemma zrem_one:
  assumes inv: "zset_inv h zs ns" and e: "e \<in> set ns" "etext e = key_string ele" and d: "zdict_ok d ns" and sz: "length ns < 2 ^ 56"
  shows "\<exists>h' z' rel d1 st evs d'. zslDelete h (zs_zsl zs) (e_score e) ele = Some (h', z', True, rel) \<and>
    dictDelete d ele = Some (d1, st, evs) \<and> resize_if_needed can d1 = Some d' \<and>
    zset_evolves h zs ns h' \<lparr>zs_dict = d', zs_zsl = z'\<rparr> (filter (\<lambda>f. etext f \<noteq> key_string ele) ns)"
proof -
  have hold: "zsl_holds h (zs_zsl zs) ns" and dist: "distinct (map etext ns)"
    using inv by (simp_all add: zset_inv_def)
  let ?qs = "filter (\<lambda>f. etext f \<noteq> key_string ele) ns"
  have "zpair e = (e_score e, key_string ele)"
    by (simp add: zpair_def e(2))
  then have "(e_score e, key_string ele) \<in> zpair ` set ns"
    using e(1) by (metis imageI)
  moreover have "filter (\<lambda>f. zpair f \<noteq> (e_score e, key_string ele)) ns = ?qs"
    using deleted_pair [OF dist e(1)] by (simp add: e(2))
  ultimately obtain h' z' rel where del: "zslDelete h (zs_zsl zs) (e_score e) ele = Some (h', z', True, rel)"
      "zsl_holds h' z' ?qs" "z_header z' = z_header (zs_zsl zs)" "touches h (z_addrs (zs_zsl zs) ns) h'"
    using zslDelete_holds [OF hold, of "e_score e" ele] by auto
  obtain d1 st evs where d1: "dictDelete d ele = Some (d1, st, evs)" "zdict_ok d1 ?qs"
    using zdict_delete [OF d dist, of ele] by blast
  have "length ?qs < 2 ^ 56"
    using sz by (rule le_less_trans [OF length_filter_le])
  then obtain d' where d': "resize_if_needed can d1 = Some d'" "zdict_ok d' ?qs"
    using zdict_resize [OF d1(2)] by blast
  have "z_addrs z' ?qs \<subseteq> z_addrs (zs_zsl zs) ns"
    using del(3) by (auto simp: z_addrs_def)
  then have "zset_evolves h zs ns h' \<lparr>zs_dict = d', zs_zsl = z'\<rparr> ?qs"
    using del d' dist by (auto simp: zset_evolves_def zset_inv_def distinct_map_filter)
  with del(1) d1(1) d'(1) show ?thesis
    by blast
qed

text \<open>The specification of the loop, and what it amounts to.\<close>

fun zrem_spec :: "char list list \<Rightarrow> 's zpair list \<Rightarrow> nat \<Rightarrow> 's zpair list \<times> nat \<times> bool" where
  "zrem_spec [] ps deleted = (ps, deleted, False)"
| "zrem_spec (t # ts) ps deleted =
     (if t \<in> snd ` set ps
      then let qs = filter (\<lambda>q. snd q \<noteq> t) ps in if qs = [] then (qs, deleted + 1, True) else zrem_spec ts qs (deleted + 1)
      else zrem_spec ts ps deleted)"

lemma zrem_elements_ok:
  assumes "zset_inv h zs ns" and "length ns < 2 ^ 56"
  shows "\<exists>h' zs' ns'. zrem_elements can h zs es n = Some (h', zs', snd (zrem_spec (map key_string es) (map zpair ns) n)) \<and>
    zset_evolves h zs ns h' zs' ns' \<and> map zpair ns' = fst (zrem_spec (map key_string es) (map zpair ns) n)"
  using assms
proof (induction es arbitrary: h zs ns n)
  case Nil
  then show ?case
    using zset_evolves_refl by fastforce
next
  case (Cons ele es)
  have texts: "snd ` set (map zpair ns) = etext ` set ns"
    by (auto simp: zpair_def image_iff)
  from Cons.prems(1) show ?case
  proof (cases rule: zset_find [where ele = ele])
    case (absent d)
    note evo = zset_evolves_dict [OF Cons.prems(1) absent(2)]
    then have "zset_inv h (zs\<lparr>zs_dict := d\<rparr>) ns"
      by (simp add: zset_evolves_def)
    from Cons.IH [OF this Cons.prems(2), of n] zset_evolves_trans [OF evo] absent show ?thesis
      unfolding list.map(2) zrem_spec.simps texts by auto
  next
    case (present d e x)
    have member: "key_string ele \<in> etext ` set ns"
      using present(3,4) by (metis imageI)
    define qs where "qs = filter (\<lambda>f. etext f \<noteq> key_string ele) ns"
    obtain h' z' rel d1 st evs d' where r: "zslDelete h (zs_zsl zs) (e_score e) ele = Some (h', z', True, rel)"
        "dictDelete d ele = Some (d1, st, evs)" "resize_if_needed can d1 = Some d'"
        "zset_evolves h zs ns h' \<lparr>zs_dict = d', zs_zsl = z'\<rparr> qs"
      using zrem_one [OF Cons.prems(1) present(3,4,2) Cons.prems(2)] unfolding qs_def by blast
    have qs: "filter (\<lambda>q. snd q \<noteq> key_string ele) (map zpair ns) = map zpair qs"
      by (simp add: qs_def filter_map comp_def zpair_def)
    have inv: "zset_inv h' \<lparr>zs_dict = d', zs_zsl = z'\<rparr> qs" and sz: "dictSize d' = length qs" and len: "length qs < 2 ^ 56"
      using r(4) Cons.prems(2) le_less_trans [OF length_filter_le [of _ ns]]
      by (simp_all add: zset_evolves_def zset_inv_def zdict_ok_def qs_def)
    have step: "zrem_elements can h zs (ele # es) n =
        (if qs = [] then Some (h', \<lparr>zs_dict = d', zs_zsl = z'\<rparr>, n + 1, True)
         else zrem_elements can h' \<lparr>zs_dict = d', zs_zsl = z'\<rparr> es (n + 1))"
      using present(1,8) r(1-3) sz by simp
    obtain h2 zs2 ns2 where rest: "zrem_elements can h' \<lparr>zs_dict = d', zs_zsl = z'\<rparr> es (n + 1) =
          Some (h2, zs2, snd (zrem_spec (map key_string es) (map zpair qs) (n + 1)))"
        "zset_evolves h' \<lparr>zs_dict = d', zs_zsl = z'\<rparr> qs h2 zs2 ns2"
        "map zpair ns2 = fst (zrem_spec (map key_string es) (map zpair qs) (n + 1))"
      using Cons.IH [OF inv len, of "n + 1"] by blast
    have spec: "zrem_spec (map key_string (ele # es)) (map zpair ns) n =
        (if qs = [] then ([], n + 1, True) else zrem_spec (map key_string es) (map zpair qs) (n + 1))"
      using member unfolding list.map(2) zrem_spec.simps texts qs by (simp add: Let_def)
    show ?thesis
      using rest(1,3) r(4) zset_evolves_trans [OF r(4) rest(2)] unfolding step spec by (cases "qs = []") auto
  qed
qed

end
