(* ===== verification/ZsetRem.thy ===== *)
theory ZsetRem
  imports ZsetProps
begin

text \<open>
  The range deletions of sorted sets, by score, by member and by rank: they remove the elements of
  the range, and no other, from the skiplist and from the dictionary.
\<close>

subsection \<open>The loop\<close>

text \<open>A node that stands for an entry.\<close>

definition node_of :: "'s zskiplistNode \<Rightarrow> 's zentry \<Rightarrow> bool" where
  "node_of f e \<longleftrightarrow> zn_obj f = Some (e_obj e) \<and> zn_score f = e_score e"

lemma zsl_delete_loop_ok:
  assumes "zset_inv h \<lparr>zs_dict = d, zs_zsl = z\<rparr> (xs @ ms @ ys)"
    and "\<And>i. i < z_level z \<Longrightarrow> arr_get update i = Some (snd (pre (towers z xs) i))"
    and "\<And>f j. \<lbrakk>j < length ms; node_of f (ms ! j)\<rbrakk> \<Longrightarrow> go f (t + word_of_nat j)"
    and "\<And>f. \<lbrakk>ys \<noteq> []; node_of f (hd ys)\<rbrakk> \<Longrightarrow> \<not> go f (t + word_of_nat (length ms))"
  shows "\<exists>h' z' d'. zsl_delete_loop go update h z d (if ms @ ys = [] then 0 else e_addr (hd (ms @ ys))) t r =
      Some (h', z', d', r + word_of_nat (length ms)) \<and>
    zset_evolves h \<lparr>zs_dict = d, zs_zsl = z\<rparr> (xs @ ms @ ys) h' \<lparr>zs_dict = d', zs_zsl = z'\<rparr> (xs @ ys)"
  using assms
proof (induction ms arbitrary: h d z t r)
  case Nil
  note evo = zset_evolves_refl [OF Nil.prems(1)]
  show ?case
  proof (cases ys)
    case Nil
    then show ?thesis
      using evo by (subst zsl_delete_loop.simps) auto
  next
    case (Cons y zs)
    have wf: "zsl_wf h z (xs @ y # zs)"
      using Nil.prems(1) Cons by (simp add: zset_inv_def zsl_holds_def)
    obtain f where f: "node_at h (e_addr y) = Some f" "node_of f y" and pos: "0 < e_addr y"
      using entry_found [OF wf, of y] by (auto simp: node_of_def)
    have "\<not> go f t"
      using Nil.prems(4) [of f] f(2) Cons by simp
    then show ?thesis
      using evo f(1) pos Cons by (subst zsl_delete_loop.simps) auto
  qed
next
  case (Cons e ms)
  have wf: "zsl_wf h z (xs @ e # ms @ ys)" and sorted: "zsorted (xs @ e # ms @ ys)"
    and dist: "distinct (map etext (xs @ e # ms @ ys))" and ok: "zdict_ok d (xs @ e # ms @ ys)"
    using Cons.prems(1) by (simp_all add: zset_inv_def zsl_holds_def)
  obtain f where f: "node_at h (e_addr e) = Some f" "node_of f e" and pos: "0 < e_addr e"
    using entry_found [OF wf, of e] by (auto simp: node_of_def)
  have go: "go f t"
    using Cons.prems(3) [of 0 f] f(2) by simp
  obtain s where l: "level_get h (e_addr e) 0 = Some \<lparr>zl_forward = (if ms @ ys = [] then 0 else e_addr (hd (ms @ ys))), zl_span = s\<rparr>"
    by (rule search_next [of h z "xs @ [e]" "ms @ ys"]) (use wf in auto)
  obtain h1 z' h' where del: "zslDeleteNode h z (e_addr e) update = Some (h1, z')" "zslFreeNode h1 (e_addr e) = Some (h', [e_obj e])"
      "zsl_wf h' z' (xs @ ms @ ys)" "z_header z' = z_header z" "z_level z' \<le> z_level z"
      "touches h (z_addrs z (xs @ e # ms @ ys)) h'" "nodes h1 (e_addr e) = nodes h (e_addr e)"
    by (rule delete_and_free [OF wf Cons.prems(2)])
  have n1: "node_at h1 (e_addr e) = Some f"
    using f(1) del(7) by (simp add: node_at_def)
  obtain d1 st evs where d1: "dictDelete d (e_obj e) = Some (d1, st, evs)" "zdict_ok d1 (xs @ ms @ ys)"
    using zdict_delete [OF ok dist, of "e_obj e"] filter_one_text [OF dist] by auto
  have sorted': "zsorted (xs @ ms @ ys)" and dist': "distinct (map etext (xs @ ms @ ys))"
    using sorted dist by (auto simp: sorted_wrt_append)
  have inv: "zset_inv h' \<lparr>zs_dict = d1, zs_zsl = z'\<rparr> (xs @ ms @ ys)"
    using del(3) d1(2) sorted' dist' by (simp add: zset_inv_def zsl_holds_def)
  have "z_addrs z' (xs @ ms @ ys) \<subseteq> z_addrs z (xs @ e # ms @ ys)"
    using del(4) by (auto simp: z_addrs_def)
  then have evo: "zset_evolves h \<lparr>zs_dict = d, zs_zsl = z\<rparr> (xs @ (e # ms) @ ys) h' \<lparr>zs_dict = d1, zs_zsl = z'\<rparr> (xs @ ms @ ys)"
    using inv del(6) by (auto simp: zset_evolves_def)
  have "\<exists>h'' z'' d''. zsl_delete_loop go update h' z' d1 (if ms @ ys = [] then 0 else e_addr (hd (ms @ ys))) (t + 1) (r + 1) =
      Some (h'', z'', d'', (r + 1) + word_of_nat (length ms)) \<and>
    zset_evolves h' \<lparr>zs_dict = d1, zs_zsl = z'\<rparr> (xs @ ms @ ys) h'' \<lparr>zs_dict = d'', zs_zsl = z''\<rparr> (xs @ ys)"
  proof (rule Cons.IH [OF inv])
    have "towers z' xs = towers z xs"
      using del(4) by (simp add: towers_def)
    then show "arr_get update i = Some (snd (pre (towers z' xs) i))" if "i < z_level z'" for i
      using Cons.prems(2) [of i] that del(5) by simp
    show "go g (t + 1 + word_of_nat j)" if "j < length ms" "node_of g (ms ! j)" for g j
      using Cons.prems(3) [of "Suc j" g] that by (simp add: add.assoc)
    show "\<not> go g (t + 1 + word_of_nat (length ms))" if "ys \<noteq> []" "node_of g (hd ys)" for g
      using Cons.prems(4) [of g] that by (simp add: add.assoc)
  qed
  then obtain h'' z'' d'' where rest: "zsl_delete_loop go update h' z' d1 (if ms @ ys = [] then 0 else e_addr (hd (ms @ ys))) (t + 1) (r + 1) =
      Some (h'', z'', d'', (r + 1) + word_of_nat (length ms))"
    "zset_evolves h' \<lparr>zs_dict = d1, zs_zsl = z'\<rparr> (xs @ ms @ ys) h'' \<lparr>zs_dict = d'', zs_zsl = z''\<rparr> (xs @ ys)"
    by blast
  have "zsl_delete_loop go update h z d (e_addr e) t r = Some (h'', z'', d'', (r + 1) + word_of_nat (length ms))"
    using pos f(1) go l del(1,2) n1 d1(1) rest(1) f(2) by (subst zsl_delete_loop.simps) (simp add: node_of_def)
  with zset_evolves_trans [OF evo rest(2)] show ?case
    by (simp add: add.assoc)
qed

text \<open>The array \<^verbatim>\<open>update\<close> of a search.\<close>

lemma update_get: "i < n \<Longrightarrow> arr_get (map f [0..<n]) i = Some (f i)"
  by (simp add: arr_get_def)

lemma zset_eta [simp]: "\<lparr>zs_dict = zs_dict zs, zs_zsl = zs_zsl zs\<rparr> = zs"
  by (cases zs) simp

subsection \<open>By score and by member\<close>

context zsl_range
begin

lemma range_delete:
  assumes inv: "zset_inv h zs ns"
  obtains x u w l h' z' d' where "zsl_descend h (\<lambda>r s f. \<not> gte_node f) no_rank (z_level (zs_zsl zs)) (z_header (zs_zsl zs)) () = Some (x, (), u, w)"
    and "level_get h x 0 = Some l"
    and "zsl_delete_loop (\<lambda>n t. lte_node n) u h (zs_zsl zs) (zs_dict zs) (zl_forward l) 0 0 =
      Some (h', z', d', word_of_nat (length (filter inside ns)))"
    and "zset_evolves h zs ns h' \<lparr>zs_dict = d', zs_zsl = z'\<rparr> (filter (\<lambda>e. \<not> inside e) ns)"
proof -
  let ?z = "zs_zsl zs"
  have sorted: "zsorted ns"
    using inv by (simp add: zset_inv_def zsl_holds_def)
  obtain xs ms ys where s: "ns = xs @ ms @ ys" "\<forall>e \<in> set xs. \<not> gte e" "\<forall>e \<in> set (ms @ ys). gte e"
      "\<forall>e \<in> set ms. lte e" "\<forall>e \<in> set ys. \<not> lte e" "filter inside ns = ms" "filter (\<lambda>e. \<not> inside e) ns = xs @ ys"
    by (rule range_split [OF sorted]) blast
  have inv': "zset_inv h \<lparr>zs_dict = zs_dict zs, zs_zsl = ?z\<rparr> (xs @ ms @ ys)"
    using inv s(1) by simp
  have wf: "zsl_wf h ?z (xs @ (ms @ ys))"
    using inv' by (simp add: zset_inv_def zsl_holds_def)
  have "\<forall>e \<in> set (ms @ ys). \<not> \<not> gte e"
    using s(3) by blast
  note search = goes_plain [OF wf s(2) this, of "\<lambda>f. \<not> gte_node f"]
  let ?u = "map (\<lambda>j. snd (pre (towers ?z xs) j)) [0..<z_level ?z]"
  obtain t where nxt: "level_get h (last_addr (z_header ?z) xs) 0 =
      Some \<lparr>zl_forward = (if ms @ ys = [] then 0 else e_addr (hd (ms @ ys))), zl_span = t\<rparr>"
    by (rule search_next [OF wf])
  have "\<exists>h' z' d'. zsl_delete_loop (\<lambda>n t. lte_node n) ?u h ?z (zs_dict zs) (if ms @ ys = [] then 0 else e_addr (hd (ms @ ys))) 0 0 =
      Some (h', z', d', 0 + word_of_nat (length ms)) \<and>
    zset_evolves h \<lparr>zs_dict = zs_dict zs, zs_zsl = ?z\<rparr> (xs @ ms @ ys) h' \<lparr>zs_dict = d', zs_zsl = z'\<rparr> (xs @ ys)"
    by (rule zsl_delete_loop_ok [OF inv']) (use s(4,5) lte_node in \<open>auto simp: update_get node_of_def\<close>)
  then obtain h' z' d' where "zsl_delete_loop (\<lambda>n t. lte_node n) ?u h ?z (zs_dict zs) (if ms @ ys = [] then 0 else e_addr (hd (ms @ ys))) 0 0 =
      Some (h', z', d', word_of_nat (length ms))"
    "zset_evolves h zs (xs @ ms @ ys) h' \<lparr>zs_dict = d', zs_zsl = z'\<rparr> (xs @ ys)"
    by auto
  then show ?thesis
    by (intro that [OF search nxt]) (use s gte_node in auto)
qed

end

lemma zslDeleteRangeByScore_ok:
  assumes inv: "zset_inv h zs ns"
  shows "\<exists>h' z' d'. zslDeleteRangeByScore h (zs_zsl zs) rng (zs_dict zs) =
      Some (h', z', d', word_of_nat (length (filter (in_range rng) ns))) \<and>
    zset_evolves h zs ns h' \<lparr>zs_dict = d', zs_zsl = z'\<rparr> (filter (\<lambda>e. \<not> in_range rng e) ns)"
proof -
  have go: "(\<lambda>(r :: unit) (s :: uint32) (f :: 'a zskiplistNode). if minex rng then zn_score f \<le> range_min rng else zn_score f < range_min rng) =
      (\<lambda>r s f. \<not> zslValueGteMin (zn_score f) rng)"
    by (auto simp: zslValueGteMin_def fun_eq_iff not_less not_le)
  have stop: "(\<lambda>(n :: 'a zskiplistNode) (t :: uint64). if maxex rng then zn_score n < range_max rng else zn_score n \<le> range_max rng) =
      (\<lambda>n t. zslValueLteMax (zn_score n) rng)"
    by (auto simp: zslValueLteMax_def fun_eq_iff)
  show ?thesis
    unfolding in_range_def [abs_def]
    by (rule scores.range_delete [OF inv, of rng]) (auto simp: zslDeleteRangeByScore_def go stop)
qed

lemma zslDeleteRangeByLex_ok:
  assumes inv: "zset_inv h zs ns" and same: "same_score ns"
  shows "\<exists>h' z' d'. zslDeleteRangeByLex h (zs_zsl zs) rng (zs_dict zs) =
      Some (h', z', d', word_of_nat (length (filter (in_lex_range rng) ns))) \<and>
    zset_evolves h zs ns h' \<lparr>zs_dict = d', zs_zsl = z'\<rparr> (filter (\<lambda>e. \<not> in_lex_range rng e) ns)"
  unfolding in_lex_range_iff [abs_def]
  by (rule zsl_range.range_delete [OF lex_zsl_range [OF same, of rng] inv]) (auto simp: zslDeleteRangeByLex_def)

subsection \<open>By rank\<close>

lemma zslDeleteRangeByRank_ok:
  fixes start end1 :: uint32
  assumes inv: "zset_inv h zs ns" and len: "length ns < 2 ^ 32 - 1" and start: "0 < unat start"
  defines "s \<equiv> unat start - 1" and "e \<equiv> max (unat start - 1) (unat end1)"
  shows "\<exists>h' z' d'. zslDeleteRangeByRank h (zs_zsl zs) start end1 (zs_dict zs) =
      Some (h', z', d', word_of_nat (length (take (e - s) (drop s ns)))) \<and>
    zset_evolves h zs ns h' \<lparr>zs_dict = d', zs_zsl = z'\<rparr> (take s ns @ drop e ns)"
proof -
  let ?z = "zs_zsl zs"
  define xs ms ys where "xs = take s ns" and "ms = take (e - s) (drop s ns)" and "ys = drop e ns"
  have "ms @ ys = drop s ns"
    using append_take_drop_id [of "e - s" "drop s ns"] by (simp add: ms_def ys_def e_def s_def)
  then have ns: "xs @ ms @ ys = ns"
    by (simp add: xs_def)
  then have inv': "zset_inv h \<lparr>zs_dict = zs_dict zs, zs_zsl = ?z\<rparr> (xs @ ms @ ys)"
    using inv by simp
  have wf: "zsl_wf h ?z (xs @ (ms @ ys))"
    using inv' by (simp add: zset_inv_def zsl_holds_def)
  have uc: "unat (ucast w :: uint64) = unat w" for w :: uint32
    using unsigned_less [of w, where 'a = nat] by (simp add: unsigned_ucast_eq take_bit_nat_eq_self)
  have less: "word_of_nat (Suc q) < (ucast start :: uint64) \<longleftrightarrow> q < length xs" if "q < length (xs @ (ms @ ys))" for q
  proof -
    have "q < length ns"
      using that unfolding ns .
    then have "unat (word_of_nat (Suc q) :: uint64) = Suc q" "q < length xs \<longleftrightarrow> q < s"
      using len unat_rank [of "Suc q"] by (auto simp: xs_def simp del: of_nat_Suc)
    then show ?thesis
      using start unfolding word_less_nat_alt uc s_def by linarith
  qed
  have "length (xs @ (ms @ ys)) < 2 ^ 32"
    using len ns by simp
  note go = goes_rank [OF wf this, of "\<lambda>w. w < ucast start", OF less]
  note search = zsl_search [OF wf go, simplified]
  let ?u = "map (\<lambda>j. snd (pre (towers ?z xs) j)) [0..<z_level ?z]"
  obtain t where nxt: "level_get h (last_addr (z_header ?z) xs) 0 =
      Some \<lparr>zl_forward = (if ms @ ys = [] then 0 else e_addr (hd (ms @ ys))), zl_span = t\<rparr>"
    by (rule search_next [OF wf])
  have rank: "word_of_nat (length xs) + 1 + word_of_nat j \<le> (ucast end1 :: uint64) \<longleftrightarrow> length xs + 1 + j \<le> unat end1"
    if "length xs + 1 + j < 2 ^ 32" for j
    using unat_rank [OF that] by (simp add: word_le_nat_alt uc del: of_nat_Suc) (simp add: ac_simps)
  have "\<exists>h' z' d'. zsl_delete_loop (\<lambda>n t. t \<le> ucast end1) ?u h ?z (zs_dict zs) (if ms @ ys = [] then 0 else e_addr (hd (ms @ ys)))
        (word_of_nat (length xs) + 1) 0 = Some (h', z', d', 0 + word_of_nat (length ms)) \<and>
    zset_evolves h \<lparr>zs_dict = zs_dict zs, zs_zsl = ?z\<rparr> (xs @ ms @ ys) h' \<lparr>zs_dict = d', zs_zsl = z'\<rparr> (xs @ ys)"
  proof (rule zsl_delete_loop_ok [OF inv'])
    fix j f
    assume j: "j < length ms" "node_of f (ms ! j)"
    have "length xs + 1 + j < 2 ^ 32" "length xs + 1 + j \<le> unat end1"
      using j(1) len ns by (auto simp: ms_def xs_def e_def s_def)
    then show "word_of_nat (length xs) + 1 + word_of_nat j \<le> (ucast end1 :: uint64)"
      using rank by blast
  next
    fix f
    assume "ys \<noteq> []" "node_of f (hd ys)"
    have "length xs + 1 + length ms < 2 ^ 32" "\<not> length xs + 1 + length ms \<le> unat end1"
      using \<open>ys \<noteq> []\<close> len ns by (auto simp: ms_def xs_def ys_def e_def s_def)
    then show "\<not> word_of_nat (length xs) + 1 + word_of_nat (length ms) \<le> (ucast end1 :: uint64)"
      using rank by blast
  qed (simp add: update_get)
  then show ?thesis
    using search nxt ns by (auto simp: zslDeleteRangeByRank_def xs_def [symmetric] ms_def [symmetric] ys_def [symmetric])
qed

subsection \<open>The specification\<close>

definition pair_in_range :: "'s :: linorder zrangespec \<Rightarrow> 's zpair \<Rightarrow> bool" where
  "pair_in_range rng q \<longleftrightarrow> zslValueGteMin (fst q) rng \<and> zslValueLteMax (fst q) rng"

definition pair_in_lex_range :: "zlexrangespec \<Rightarrow> 's zpair \<Rightarrow> bool" where
  "pair_in_lex_range rng q \<longleftrightarrow>
     lex_above (lex_minex rng) (lex_min rng) (snd q) \<and> lex_below (lex_maxex rng) (lex_max rng) (snd q)"

text \<open>The 0-based positions from the first on that two indexes, negative from the end, stand for, or none.\<close>

definition index_range :: "nat \<Rightarrow> int \<Rightarrow> int \<Rightarrow> (nat \<times> nat) option" where
  "index_range n start end1 =
     (let s = max 0 (if start < 0 then int n + start else start);
          e = min (int n - 1) (if end1 < 0 then int n + end1 else end1)
      in if s \<le> e then Some (nat s, nat e) else None)"

fun zremrange_spec :: "'s :: linorder zrangetype \<Rightarrow> 's zpair list \<Rightarrow> 's zpair list \<times> nat \<times> bool" where
  "zremrange_spec (Zrange_Score rng) ps =
     (let qs = filter (\<lambda>q. \<not> pair_in_range rng q) ps in (qs, length (filter (pair_in_range rng) ps), qs = []))"
| "zremrange_spec (Zrange_Lex rng) ps =
     (let qs = filter (\<lambda>q. \<not> pair_in_lex_range rng q) ps in (qs, length (filter (pair_in_lex_range rng) ps), qs = []))"
| "zremrange_spec (Zrange_Rank start end1) ps =
     (case index_range (length ps) start end1 of
        None \<Rightarrow> (ps, 0, False)
      | Some (s, e) \<Rightarrow> let qs = take s ps @ drop (Suc e) ps in (qs, Suc e - s, qs = []))"

lemma pair_range_entries:
  "pair_in_range rng (zpair e) \<longleftrightarrow> in_range rng e" "pair_in_lex_range lrng (zpair e) \<longleftrightarrow> in_lex_range lrng e"
  by (simp_all add: pair_in_range_def in_range_def pair_in_lex_range_def in_lex_range_def zpair_def)

lemma zremrange_indexes_ok:
  assumes inv: "zset_inv h zs ns" and len: "length ns < 2 ^ 32"
  shows "zremrange_indexes zs start end1 = map_option (\<lambda>(s, e). (int s, int e)) (index_range (length ns) start end1)"
proof -
  have "z_length (zs_zsl zs) = length ns"
    using inv by (simp add: zset_inv_def zsl_holds_def zsl_wf_def)
  then have "uint (zsetLength zs) = int (length ns)"
    using len by (simp add: zsetLength_def unsigned_of_nat take_bit_nat_eq_self)
  then show ?thesis
    by (auto simp: zremrange_indexes_def index_range_def Let_def)
qed

lemma index_range_bounds:
  assumes "index_range n start end1 = Some (s, e)"
  shows "s \<le> e" "e < n"
  using assms by (auto simp: index_range_def Let_def split: if_splits)

lemma zremrange_finish:
  assumes "zremrange_delete h zs rng = Some (h', z', d', word_of_nat n)"
    and evo: "zset_evolves h zs ns h' \<lparr>zs_dict = d', zs_zsl = z'\<rparr> qs" and "length qs < 2 ^ 56"
  shows "\<exists>zs'. zremrange_apply can h zs rng = Some (h', zs', word_of_nat n, qs = []) \<and> zset_evolves h zs ns h' zs' qs"
proof -
  have "zdict_ok d' qs"
    using evo by (simp add: zset_evolves_def zset_inv_def)
  then obtain d'' where d: "resize_if_needed can d' = Some d''" "zdict_ok d'' qs"
    using zdict_resize [OF _ assms(3)] by blast
  then have "dictSize d'' = length qs"
    by (simp add: zdict_ok_def)
  moreover have "zset_evolves h zs ns h' \<lparr>zs_dict = d'', zs_zsl = z'\<rparr> qs"
    using evo d(2) by (simp add: zset_evolves_def zset_inv_def)
  ultimately show ?thesis
    using assms(1) d(1) by (auto simp: zremrange_apply_def)
qed

lemma zremrange_rank:
  assumes inv: "zset_inv h zs ns" and len: "length ns < 2 ^ 32 - 1" and se: "s \<le> e" "e < length ns"
  shows "\<exists>h' z' d'. zremrange_delete h zs (Zrange_Rank (int s) (int e)) = Some (h', z', d', word_of_nat (Suc e - s)) \<and>
    zset_evolves h zs ns h' \<lparr>zs_dict = d', zs_zsl = z'\<rparr> (take s ns @ drop (Suc e) ns)"
proof -
  have u: "unat (word_of_int (int k + 1) :: uint32) = Suc k" if "k < length ns" for k
  proof -
    have "(word_of_int (int k + 1) :: uint32) = word_of_nat (Suc k)"
      by (simp add: ac_simps)
    then show ?thesis
      using that len by (simp add: unsigned_of_nat take_bit_nat_eq_self del: of_nat_Suc)
  qed
  define a b where "a = (word_of_int (int s + 1) :: uint32)" and "b = (word_of_int (int e + 1) :: uint32)"
  have us: "unat a = Suc s" and ue: "unat b = Suc e"
    using u se by (simp_all only: a_def b_def le_less_trans)
  have m: "max s (Suc e) = Suc e" and l: "length (take (Suc e - s) (drop s ns)) = Suc e - s"
    using se by auto
  have "0 < unat a"
    by (simp add: us)
  from zslDeleteRangeByRank_ok [OF inv len this, of b] show ?thesis
    unfolding zremrange_delete_def zrangetype.case a_def [symmetric] b_def [symmetric] us ue diff_Suc_1 m l .
qed

lemma zremrange_ok:
  assumes inv: "zset_inv h zs ns" and len: "length ns < 2 ^ 32 - 1" and lex: "\<And>r. rng = Zrange_Lex r \<Longrightarrow> same_score ns"
  shows "\<exists>h' zs' ns'. zremrange can h zs rng =
      Some (h', zs', word_of_nat (fst (snd (zremrange_spec rng (map zpair ns)))), snd (snd (zremrange_spec rng (map zpair ns)))) \<and>
    zset_evolves h zs ns h' zs' ns' \<and> map zpair ns' = fst (zremrange_spec rng (map zpair ns))"
proof (cases rng)
  case (Zrange_Score r)
  obtain h' z' d' where del: "zremrange_delete h zs rng = Some (h', z', d', word_of_nat (length (filter (in_range r) ns)))"
      "zset_evolves h zs ns h' \<lparr>zs_dict = d', zs_zsl = z'\<rparr> (filter (\<lambda>e. \<not> in_range r e) ns)"
    using zslDeleteRangeByScore_ok [OF inv, of r] by (auto simp: Zrange_Score zremrange_delete_def)
  have "length (filter (\<lambda>e. \<not> in_range r e) ns) < 2 ^ 56"
    using len by (intro le_less_trans [OF length_filter_le]) simp
  with zremrange_finish [OF del, of can] obtain zs' where
      "zremrange_apply can h zs rng = Some (h', zs', word_of_nat (length (filter (in_range r) ns)), filter (\<lambda>e. \<not> in_range r e) ns = [])"
      "zset_evolves h zs ns h' zs' (filter (\<lambda>e. \<not> in_range r e) ns)"
    by blast
  then show ?thesis
    by (intro exI [of _ h'] exI [of _ zs'] exI [of _ "filter (\<lambda>e. \<not> in_range r e) ns"])
      (simp add: Zrange_Score zremrange_def Let_def filter_map comp_def pair_range_entries)
next
  case (Zrange_Lex r)
  obtain h' z' d' where del: "zremrange_delete h zs rng = Some (h', z', d', word_of_nat (length (filter (in_lex_range r) ns)))"
      "zset_evolves h zs ns h' \<lparr>zs_dict = d', zs_zsl = z'\<rparr> (filter (\<lambda>e. \<not> in_lex_range r e) ns)"
    using zslDeleteRangeByLex_ok [OF inv lex [OF Zrange_Lex], of r] by (auto simp: Zrange_Lex zremrange_delete_def)
  have "length (filter (\<lambda>e. \<not> in_lex_range r e) ns) < 2 ^ 56"
    using len by (intro le_less_trans [OF length_filter_le]) simp
  with zremrange_finish [OF del, of can] obtain zs' where
      "zremrange_apply can h zs rng = Some (h', zs', word_of_nat (length (filter (in_lex_range r) ns)), filter (\<lambda>e. \<not> in_lex_range r e) ns = [])"
      "zset_evolves h zs ns h' zs' (filter (\<lambda>e. \<not> in_lex_range r e) ns)"
    by blast
  then show ?thesis
    by (intro exI [of _ h'] exI [of _ zs'] exI [of _ "filter (\<lambda>e. \<not> in_lex_range r e) ns"])
      (simp add: Zrange_Lex zremrange_def Let_def filter_map comp_def pair_range_entries)
next
  case (Zrange_Rank start end1)
  have len': "length ns < 2 ^ 32"
    using len by simp
  note idx = zremrange_indexes_ok [OF inv len', of start end1]
  show ?thesis
  proof (cases "index_range (length ns) start end1")
    case None
    then show ?thesis
      using idx zset_evolves_refl [OF inv] by (auto simp: Zrange_Rank zremrange_def)
  next
    case (Some se)
    obtain s e where se: "se = (s, e)"
      by (cases se)
    note b = index_range_bounds [OF Some [unfolded se]]
    obtain h' z' d' where del: "zremrange_delete h zs (Zrange_Rank (int s) (int e)) = Some (h', z', d', word_of_nat (Suc e - s))"
        "zset_evolves h zs ns h' \<lparr>zs_dict = d', zs_zsl = z'\<rparr> (take s ns @ drop (Suc e) ns)"
      using zremrange_rank [OF inv len b] by blast
    have "length (take s ns @ drop (Suc e) ns) < 2 ^ 56"
      using len by simp
    with zremrange_finish [OF del, of can] obtain zs' where
      "zremrange_apply can h zs (Zrange_Rank (int s) (int e)) = Some (h', zs', word_of_nat (Suc e - s), take s ns @ drop (Suc e) ns = [])"
      "zset_evolves h zs ns h' zs' (take s ns @ drop (Suc e) ns)"
      by blast
    then show ?thesis
      using Some idx
      by (intro exI [of _ h'] exI [of _ zs'] exI [of _ "take s ns @ drop (Suc e) ns"])
        (auto simp: Zrange_Rank zremrange_def se Let_def take_map drop_map)
  qed
qed

end
