(* ===== verification/ZsetRange.thy ===== *)
theory ZsetRange
  imports ZsetRem
begin

text \<open>
  The range queries of sorted sets in the skiplist encoding, forwards and backwards: by index, by score
  and by member, with an offset and a limit, and the counts of the elements in a range. The replies
  are lists of a score and a member.
\<close>

subsection \<open>The queries\<close>

text \<open>\<^verbatim>\<open>ln = reverse ? ln->backward : ln->level[0].forward\<close>.\<close>

definition zsl_next :: "'s zheap \<Rightarrow> bool \<Rightarrow> nat \<Rightarrow> nat option" where
  "zsl_next h reverse ln =
     (if reverse then do { n \<leftarrow> node_at h ln; Some (zn_backward n) }
      else do { l \<leftarrow> level_get h ln 0; Some (zl_forward l) })"

fun zrange_loop :: "'s zheap \<Rightarrow> bool \<Rightarrow> nat \<Rightarrow> nat \<Rightarrow> ('s \<times> str_key) list option" where
  "zrange_loop h reverse 0 ln = Some []"
| "zrange_loop h reverse (Suc rangelen) ln =
     (if ln = 0 then None
      else do {
        n \<leftarrow> node_at h ln;
        ele \<leftarrow> zn_obj n;
        ln \<leftarrow> zsl_next h reverse ln;
        rest \<leftarrow> zrange_loop h reverse rangelen ln;
        Some ((zn_score n, ele) # rest)
      })"

text \<open>
  \<^verbatim>\<open>zrangeGenericCommand\<close> from the adjustment of the indexes on, without the branch of the ziplist
  encoding. The length is an \<^verbatim>\<open>int\<close> here; the indexes are of type \<^verbatim>\<open>long\<close>.
\<close>

definition zrange :: "'s zheap \<Rightarrow> zset \<Rightarrow> bool \<Rightarrow> int \<Rightarrow> int \<Rightarrow> ('s \<times> str_key) list option" where
  "zrange h zs reverse start end1 =
     (let llen = sint (zsetLength zs); zsl = zs_zsl zs;
          start = (if start < 0 then llen + start else start);
          end1 = (if end1 < 0 then llen + end1 else end1);
          start = (if start < 0 then 0 else start)
      in if start > end1 \<or> start \<ge> llen then Some []
         else let end1 = (if end1 \<ge> llen then llen - 1 else end1);
                  rangelen = (end1 - start) + 1
              in do {
                   ln \<leftarrow> (if reverse
                           then if start > 0 then zslGetElementByRank h zsl (word_of_int (llen - start)) else Some (z_tail zsl)
                           else if start > 0 then zslGetElementByRank h zsl (word_of_int (start + 1))
                           else do { l \<leftarrow> level_get h (z_header zsl) 0; Some (zl_forward l) });
                   zrange_loop h reverse (nat rangelen) ln
                 })"

text \<open>
  The two loops of the queries by score and by member. The offset and the limit count down to 0, so
  that a negative one never stops its loop.
\<close>

partial_function (option) zsl_skip :: "'s zheap \<Rightarrow> bool \<Rightarrow> nat \<Rightarrow> int \<Rightarrow> nat option" where
  "zsl_skip h reverse ln offset =
     (if ln = 0 \<or> offset = 0 then Some ln
      else do { ln \<leftarrow> zsl_next h reverse ln; zsl_skip h reverse ln (offset - 1) })"

partial_function (option) zsl_collect :: "'s zheap \<Rightarrow> bool \<Rightarrow> ('s zskiplistNode \<Rightarrow> bool) \<Rightarrow> nat \<Rightarrow> int \<Rightarrow>
    ('s \<times> str_key) list option" where
  "zsl_collect h reverse within ln limit =
     (if ln = 0 \<or> limit = 0 then Some []
      else do {
        n \<leftarrow> node_at h ln;
        if \<not> within n then Some []
        else do {
          ele \<leftarrow> zn_obj n;
          ln \<leftarrow> zsl_next h reverse ln;
          rest \<leftarrow> zsl_collect h reverse within ln (limit - 1);
          Some ((zn_score n, ele) # rest)
        }
      })"

definition genericZrangebyscore :: "'s :: linorder zheap \<Rightarrow> zset \<Rightarrow> bool \<Rightarrow> 's zrangespec \<Rightarrow> int \<Rightarrow> int \<Rightarrow>
    ('s \<times> str_key) list option" where
  "genericZrangebyscore h zs reverse rng offset limit =
     do {
       ln \<leftarrow> (if reverse then zslLastInRange h (zs_zsl zs) rng else zslFirstInRange h (zs_zsl zs) rng);
       if ln = 0 then Some []
       else do {
         ln \<leftarrow> zsl_skip h reverse ln offset;
         zsl_collect h reverse
           (\<lambda>n. if reverse then zslValueGteMin (zn_score n) rng else zslValueLteMax (zn_score n) rng) ln limit
       }
     }"

definition genericZrangebylex :: "'s :: linorder zheap \<Rightarrow> zset \<Rightarrow> bool \<Rightarrow> zlexrangespec \<Rightarrow> int \<Rightarrow> int \<Rightarrow>
    ('s \<times> str_key) list option" where
  "genericZrangebylex h zs reverse rng offset limit =
     do {
       ln \<leftarrow> (if reverse then zslLastInLexRange h (zs_zsl zs) rng else zslFirstInLexRange h (zs_zsl zs) rng);
       if ln = 0 then Some []
       else do {
         ln \<leftarrow> zsl_skip h reverse ln offset;
         zsl_collect h reverse (\<lambda>n. if reverse then lex_gte_node rng n else lex_lte_node rng n) ln limit
       }
     }"

text \<open>
  \<^verbatim>\<open>zslGetRank(zsl, zn->score, zn->obj)\<close>, and the counts, which are differences of ranks kept in an
  \<^verbatim>\<open>int\<close>.
\<close>

definition node_rank :: "'s :: linorder zheap \<Rightarrow> zskiplist \<Rightarrow> nat \<Rightarrow> uint64 option" where
  "node_rank h zsl zn =
     do {
       n \<leftarrow> node_at h zn;
       ele \<leftarrow> zn_obj n;
       zslGetRank h zsl (zn_score n) ele
     }"

definition zcount :: "'s :: linorder zheap \<Rightarrow> zset \<Rightarrow> 's zrangespec \<Rightarrow> int option" where
  "zcount h zs rng =
     (let zsl = zs_zsl zs; llen = word_of_nat (z_length zsl) :: uint64
      in do {
           zn \<leftarrow> zslFirstInRange h zsl rng;
           if zn \<noteq> 0
           then do {
             rank \<leftarrow> node_rank h zsl zn;
             let count1 = (ucast (llen - (rank - 1)) :: uint32);
             zn \<leftarrow> zslLastInRange h zsl rng;
             if zn \<noteq> 0
             then do { rank \<leftarrow> node_rank h zsl zn; Some (sint (count1 - ucast (llen - rank))) }
             else Some (sint count1)
           }
           else Some 0
         })"

definition zlexcount :: "'s :: linorder zheap \<Rightarrow> zset \<Rightarrow> zlexrangespec \<Rightarrow> int option" where
  "zlexcount h zs rng =
     (let zsl = zs_zsl zs; llen = word_of_nat (z_length zsl) :: uint64
      in do {
           zn \<leftarrow> zslFirstInLexRange h zsl rng;
           if zn \<noteq> 0
           then do {
             rank \<leftarrow> node_rank h zsl zn;
             let count1 = (ucast (llen - (rank - 1)) :: uint32);
             zn \<leftarrow> zslLastInLexRange h zsl rng;
             if zn \<noteq> 0
             then do { rank \<leftarrow> node_rank h zsl zn; Some (sint (count1 - ucast (llen - rank))) }
             else Some (sint count1)
           }
           else Some 0
         })"

subsection \<open>Walks\<close>

abbreviation item :: "'s zentry \<Rightarrow> 's \<times> str_key" where
  "item e \<equiv> (e_score e, e_obj e)"

definition first_addr :: "'s zentry list \<Rightarrow> nat" where
  "first_addr es = (if es = [] then 0 else e_addr (hd es))"

lemma first_addr_simps [simp]: "first_addr [] = 0" "first_addr (e # es) = e_addr e"
  by (simp_all add: first_addr_def)

text \<open>The entries in the order of the direction.\<close>

abbreviation directed :: "bool \<Rightarrow> 'a list \<Rightarrow> 'a list" where
  "directed reverse xs \<equiv> (if reverse then rev xs else xs)"

lemma zsl_next_ok:
  assumes wf: "zsl_wf h z ns" and L: "directed reverse ns = us @ e # vs"
  shows "zsl_next h reverse (e_addr e) = Some (first_addr vs)"
proof (cases reverse)
  case True
  then have "rev (rev ns) = rev (us @ e # vs)"
    using L by simp
  then have ns: "ns = rev vs @ e # rev us"
    by simp
  have "backs h 0 ns"
    using wf by (simp add: zsl_wf_def)
  then have "zback h (e_addr e) = Some (last_addr 0 (rev vs))"
    by (simp add: ns)
  moreover have "last_addr 0 (rev vs) = first_addr vs"
    by (cases vs) simp_all
  ultimately show ?thesis
    using True by (auto simp: zsl_next_def zback_def node_at_def)
next
  case False
  then have "zsl_wf h z ((us @ [e]) @ vs)"
    using wf L by simp
  then show ?thesis
    by (rule search_next) (use False in \<open>simp add: zsl_next_def first_addr_def\<close>)
qed

lemma walk_node:
  assumes wf: "zsl_wf h z ns" and L: "directed reverse ns = us @ e # vs"
  obtains f where "node_at h (e_addr e) = Some f" "node_of f e" "0 < e_addr e"
proof -
  have "e \<in> set (directed reverse ns)"
    unfolding L by simp
  then have "e \<in> set ns"
    by (simp split: if_splits)
  then show ?thesis
    using entry_found [OF wf] that by (auto simp: node_of_def)
qed

lemma zrange_loop_ok:
  assumes wf: "zsl_wf h z ns"
  shows "\<lbrakk>directed reverse ns = us @ vs; k \<le> length vs\<rbrakk> \<Longrightarrow> zrange_loop h reverse k (first_addr vs) = Some (map item (take k vs))"
proof (induction k arbitrary: us vs)
  case (Suc k)
  then obtain e ws where vs: "vs = e # ws"
    by (cases vs) auto
  have L: "directed reverse ns = us @ e # ws" "directed reverse ns = (us @ [e]) @ ws"
    using Suc.prems(1) by (simp_all add: vs)
  obtain f where f: "node_at h (e_addr e) = Some f" "node_of f e" "0 < e_addr e"
    by (rule walk_node [OF wf L(1)])
  then show ?case
    using zsl_next_ok [OF wf L(1)] Suc.IH [OF L(2)] Suc.prems(2) by (simp add: vs node_of_def)
qed simp

lemma zsl_skip_ok:
  assumes wf: "zsl_wf h z ns"
  shows "directed reverse ns = us @ vs \<Longrightarrow>
    zsl_skip h reverse (first_addr vs) n = Some (first_addr (if n < 0 then [] else drop (nat n) vs))"
proof (induction vs arbitrary: us n)
  case Nil
  then show ?case
    by (subst zsl_skip.simps) simp
next
  case (Cons e vs)
  have L: "directed reverse ns = us @ e # vs" "directed reverse ns = (us @ [e]) @ vs"
    using Cons.prems by simp_all
  obtain f where "0 < e_addr e"
    by (rule walk_node [OF wf L(1)])
  then show ?case
    using zsl_next_ok [OF wf L(1)] Cons.IH [OF L(2), of "n - 1"]
    by (subst zsl_skip.simps) (auto simp: nat_diff_distrib' drop_Cons' nat_diff_distrib)
qed

definition take_limit :: "int \<Rightarrow> 'a list \<Rightarrow> 'a list" where
  "take_limit n xs = (if n < 0 then xs else take (nat n) xs)"

lemma zsl_collect_ok:
  assumes wf: "zsl_wf h z ns" and within: "\<And>f e. node_of f e \<Longrightarrow> within f = P e"
  shows "directed reverse ns = us @ vs \<Longrightarrow>
    zsl_collect h reverse within (first_addr vs) n = Some (map item (take_limit n (takeWhile P vs)))"
proof (induction vs arbitrary: us n)
  case Nil
  then show ?case
    by (subst zsl_collect.simps) (simp add: take_limit_def)
next
  case (Cons e vs)
  have L: "directed reverse ns = us @ e # vs" "directed reverse ns = (us @ [e]) @ vs"
    using Cons.prems by simp_all
  obtain f where f: "node_at h (e_addr e) = Some f" "node_of f e" "0 < e_addr e"
    by (rule walk_node [OF wf L(1)])
  then show ?case
    using zsl_next_ok [OF wf L(1)] Cons.IH [OF L(2), of "n - 1"] within [OF f(2)]
    by (subst zsl_collect.simps) (auto simp: take_limit_def node_of_def take_Cons' nat_diff_distrib)
qed

subsection \<open>Ranges of indexes\<close>

lemma rank_address:
  assumes hold: "zsl_holds h z ns" and len: "length ns < 2 ^ 32" and k: "k < length ns"
  shows "zslGetElementByRank h z (word_of_int (int k + 1)) = Some (e_addr (ns ! k))"
proof -
  have "(word_of_int (int k + 1) :: uint64) = word_of_nat (Suc k)"
    by (simp add: ac_simps)
  moreover have "unat (word_of_nat (Suc k) :: uint64) = Suc k"
    using len k by (intro unat_rank) linarith
  ultimately have "unat (word_of_int (int k + 1) :: uint64) = Suc k"
    by (simp only:)
  then show ?thesis
    unfolding zslGetElementByRank_ok [OF hold len] using k by simp
qed

text \<open>The node at a position in the order of the direction.\<close>

lemma zrange_first:
  assumes hold: "zsl_holds h z ns" and len: "length ns < 2 ^ 32" and s: "s < length ns"
  shows "(if reverse then if int s > 0 then zslGetElementByRank h z (word_of_int (int (length ns) - int s)) else Some (z_tail z)
      else if int s > 0 then zslGetElementByRank h z (word_of_int (int s + 1))
      else do { l \<leftarrow> level_get h (z_header z) 0; Some (zl_forward l) }) = Some (first_addr (drop s (directed reverse ns)))"
proof -
  have wf: "zsl_wf h z ns"
    using hold by (simp add: zsl_holds_def)
  obtain t where ends: "level_get h (z_header z) 0 = Some \<lparr>zl_forward = (if ns = [] then 0 else e_addr (hd ns)), zl_span = t\<rparr>"
      "z_tail z = (if ns = [] then 0 else e_addr (last ns))"
    by (rule zsl_ends [OF wf])
  have fwd: "first_addr (drop s ns) = e_addr (ns ! s)"
    using s by (simp add: first_addr_def hd_drop_conv_nth)
  have bwd: "first_addr (drop s (rev ns)) = e_addr (ns ! (length ns - Suc s))"
    using s by (simp add: first_addr_def hd_drop_conv_nth rev_nth)
  have "int (length ns) - int s = int (length ns - Suc s) + 1"
    using s by simp
  then have rev_rank: "zslGetElementByRank h z (word_of_int (int (length ns) - int s)) = Some (e_addr (ns ! (length ns - Suc s)))"
    using rank_address [OF hold len, of "length ns - Suc s"] s by simp
  show ?thesis
    using s ends rank_address [OF hold len s] rev_rank fwd bwd
    by (cases reverse) (auto simp: hd_conv_nth last_conv_nth)
qed

lemma zrange_ok:
  assumes inv: "zset_inv h zs ns" and len: "length ns < 2 ^ 31"
  shows "zrange h zs reverse start end1 =
    Some (case index_range (length ns) start end1 of
        None \<Rightarrow> []
      | Some (s, e) \<Rightarrow> map item (take (Suc e - s) (drop s (directed reverse ns))))"
proof -
  have hold: "zsl_holds h (zs_zsl zs) ns" and wf: "zsl_wf h (zs_zsl zs) ns" and "z_length (zs_zsl zs) = length ns"
    using inv by (simp_all add: zset_inv_def zsl_holds_def zsl_wf_def)
  then have llen: "sint (zsetLength zs) = int (length ns)"
    using len by (simp add: zsetLength_def signed_of_nat signed_take_bit_int_eq_self)
  show ?thesis
  proof (cases "index_range (length ns) start end1")
    case None
    then show ?thesis
      by (auto simp: zrange_def llen index_range_def Let_def split: if_splits)
  next
    case (Some se)
    obtain s e where se: "se = (s, e)"
      by (cases se)
    note b = index_range_bounds [OF Some [unfolded se]]
    define s0 e0 where "s0 = (if start < 0 then int (length ns) + start else start)"
      and "e0 = (if end1 < 0 then int (length ns) + end1 else end1)"
    have "max 0 s0 \<le> min (int (length ns) - 1) e0" "s = nat (max 0 s0)" "e = nat (min (int (length ns) - 1) e0)"
      using Some by (auto simp: se index_range_def Let_def s0_def e0_def split: if_splits)
    then have idx: "(if s0 < 0 then 0 else s0) = int s" "\<not> (int s > e0 \<or> int s \<ge> int (length ns))"
        "(if e0 \<ge> int (length ns) then int (length ns) - 1 else e0) = int e"
      using b(2) by (auto simp: max_def min_def split: if_splits)
    have len': "length ns < 2 ^ 32" and sl: "s < length ns"
      using len b by simp_all
    have L: "directed reverse ns = take s (directed reverse ns) @ drop s (directed reverse ns)"
      by simp
    have "zrange_loop h reverse (Suc e - s) (first_addr (drop s (directed reverse ns))) =
        Some (map item (take (Suc e - s) (drop s (directed reverse ns))))"
      by (rule zrange_loop_ok [OF wf L]) (use b in auto)
    moreover have "zrange h zs reverse start end1 =
        do {
          ln \<leftarrow> (if reverse
                  then if int s > 0 then zslGetElementByRank h (zs_zsl zs) (word_of_int (int (length ns) - int s)) else Some (z_tail (zs_zsl zs))
                  else if int s > 0 then zslGetElementByRank h (zs_zsl zs) (word_of_int (int s + 1))
                  else do { l \<leftarrow> level_get h (z_header (zs_zsl zs)) 0; Some (zl_forward l) });
          zrange_loop h reverse (Suc e - s) ln
        }"
    proof -
      have "nat (int e - int s + 1) = Suc e - s"
        using b by linarith
      with idx(2) show ?thesis
        unfolding zrange_def llen Let_def s0_def [symmetric] e0_def [symmetric] idx(1,3) by (simp only: if_False)
    qed
    ultimately show ?thesis
      using Some unfolding zrange_first [OF hold len' sl] by (simp add: se)
  qed
qed

subsection \<open>Ranges of scores and members\<close>

definition drop_offset :: "int \<Rightarrow> 'a list \<Rightarrow> 'a list" where
  "drop_offset n xs = (if n < 0 then [] else drop (nat n) xs)"

lemma takeWhile_middle:
  assumes "\<forall>x \<in> set ms. P x" and "\<forall>x \<in> set ys. \<not> P x"
  shows "takeWhile P (drop_offset n (ms @ ys)) = drop_offset n ms"
proof (cases "n < 0")
  case False
  have "takeWhile P (drop k (ms @ ys)) = drop k ms" for k
  proof (cases "k \<le> length ms")
    case True
    then have "drop k (ms @ ys) = drop k ms @ ys"
      by simp
    moreover have "takeWhile P ys = []"
      using assms(2) by (cases ys) auto
    ultimately show ?thesis
      using assms(1) by (metis append_Nil2 in_set_dropD takeWhile_append2)
  next
    case False
    then have "takeWhile P (drop (k - length ms) ys) = []"
      using assms(2) by (metis in_set_dropD list.set_intros(1) takeWhile.simps list.exhaust)
    with False show ?thesis
      by simp
  qed
  with False show ?thesis
    by (simp add: drop_offset_def)
qed (simp add: drop_offset_def)

context zsl_range
begin

lemma range_collect:
  assumes hold: "zsl_holds h z ns" and "filter inside ns \<noteq> []"
  shows "do {
      ln \<leftarrow> zsl_skip h reverse (first_addr (directed reverse (filter inside ns))) offset;
      zsl_collect h reverse (\<lambda>n. if reverse then gte_node n else lte_node n) ln limit
    } = Some (map item (take_limit limit (drop_offset offset (directed reverse (filter inside ns)))))"
proof -
  have sorted: "zsorted ns" and wf: "zsl_wf h z ns"
    using hold by (simp_all add: zsl_holds_def)
  obtain xs ms ys where s: "ns = xs @ ms @ ys" "\<forall>e \<in> set xs. \<not> gte e" "\<forall>e \<in> set (ms @ ys). gte e"
      "\<forall>e \<in> set ms. lte e" "\<forall>e \<in> set ys. \<not> lte e" "filter inside ns = ms"
    by (rule range_split [OF sorted]) blast
  define us M B where "us = (if reverse then rev ys else xs)" and "M = directed reverse ms" and "B = (if reverse then rev xs else ys)"
  define P where "P = (\<lambda>e. if reverse then gte e else lte e)"
  have L: "directed reverse ns = us @ M @ B"
    by (simp add: s(1) us_def M_def B_def)
  have ne: "M \<noteq> []"
    using assms(2) s(6) by (simp add: M_def)
  have P: "\<forall>e \<in> set M. P e" "\<forall>e \<in> set B. \<not> P e"
    using s(2-5) by (auto simp: M_def B_def P_def)
  have within: "(if reverse then gte_node f else lte_node f) = P e" if "node_of f e" for f e
    using that gte_node lte_node by (simp add: node_of_def P_def)
  have start: "first_addr M = first_addr (M @ B)"
    using ne by (simp add: first_addr_def)
  have skip: "zsl_skip h reverse (first_addr M) offset = Some (first_addr (drop_offset offset (M @ B)))"
    unfolding start drop_offset_def by (rule zsl_skip_ok [OF wf L])
  have "\<exists>vs. directed reverse ns = vs @ drop_offset offset (M @ B)"
  proof (cases "offset < 0")
    case False
    have "directed reverse ns = (us @ take (nat offset) (M @ B)) @ drop (nat offset) (M @ B)"
      unfolding L append_assoc append_take_drop_id ..
    with False show ?thesis
      unfolding drop_offset_def by auto
  qed (simp add: drop_offset_def)
  then obtain vs where vs: "directed reverse ns = vs @ drop_offset offset (M @ B)"
    by blast
  have "zsl_collect h reverse (\<lambda>n. if reverse then gte_node n else lte_node n) (first_addr (drop_offset offset (M @ B))) limit =
      Some (map item (take_limit limit (takeWhile P (drop_offset offset (M @ B)))))"
    by (rule zsl_collect_ok [OF wf _ vs]) (rule within)
  then show ?thesis
    unfolding s(6) M_def [symmetric] skip takeWhile_middle [OF P] by simp
qed

end

lemma first_addr_zero:
  assumes "zsl_wf h z ns" and "set es \<subseteq> set ns"
  shows "first_addr es = 0 \<longleftrightarrow> es = []"
  using entry_found(2) [OF assms(1), of "hd es"] assms(2) by (cases es) auto

lemma first_last_addr:
  "(case es of [] \<Rightarrow> 0 | e # _ \<Rightarrow> e_addr e) = first_addr es"
  "(if es = [] then 0 else e_addr (last es)) = first_addr (rev es)"
  by (cases es; simp) (simp add: first_addr_def hd_rev)

lemma genericZrangebyscore_ok:
  assumes hold: "zsl_holds h (zs_zsl zs) ns"
  shows "genericZrangebyscore h zs reverse rng offset limit =
    Some (map item (take_limit limit (drop_offset offset (directed reverse (filter (in_range rng) ns)))))"
proof -
  have wf: "zsl_wf h (zs_zsl zs) ns"
    using hold by (simp add: zsl_holds_def)
  let ?M = "filter (in_range rng) ns"
  have start: "(if reverse then zslLastInRange h (zs_zsl zs) rng else zslFirstInRange h (zs_zsl zs) rng) = Some (first_addr (directed reverse ?M))"
    unfolding zslFirstInRange_ok [OF hold] zslLastInRange_ok [OF hold] first_last_addr by simp
  have zero: "first_addr (directed reverse ?M) = 0 \<longleftrightarrow> ?M = []"
    using first_addr_zero [OF wf, of "directed reverse ?M"] by auto
  show ?thesis
  proof (cases "?M = []")
    case True
    then show ?thesis
      using start by (simp add: genericZrangebyscore_def take_limit_def drop_offset_def)
  next
    case False
    then show ?thesis
      using scores.range_collect [OF hold, of rng reverse offset limit] zero
      unfolding genericZrangebyscore_def start in_range_def [abs_def] by simp
  qed
qed

lemma genericZrangebylex_ok:
  assumes hold: "zsl_holds h (zs_zsl zs) ns" and same: "same_score ns" and proper: "proper_lex_range rng"
  shows "genericZrangebylex h zs reverse rng offset limit =
    Some (map item (take_limit limit (drop_offset offset (directed reverse (filter (in_lex_range rng) ns)))))"
proof -
  have wf: "zsl_wf h (zs_zsl zs) ns"
    using hold by (simp add: zsl_holds_def)
  let ?M = "filter (in_lex_range rng) ns"
  have start: "(if reverse then zslLastInLexRange h (zs_zsl zs) rng else zslFirstInLexRange h (zs_zsl zs) rng) = Some (first_addr (directed reverse ?M))"
    unfolding zslFirstInLexRange_ok [OF hold same proper] zslLastInLexRange_ok [OF hold same proper] first_last_addr by simp
  have zero: "first_addr (directed reverse ?M) = 0 \<longleftrightarrow> ?M = []"
    using first_addr_zero [OF wf, of "directed reverse ?M"] by auto
  show ?thesis
  proof (cases "?M = []")
    case True
    then show ?thesis
      using start by (simp add: genericZrangebylex_def take_limit_def drop_offset_def)
  next
    case False
    then show ?thesis
      using zsl_range.range_collect [OF lex_zsl_range [OF same, of rng] hold, of reverse offset limit] zero
      unfolding genericZrangebylex_def start in_lex_range_iff [abs_def] by simp
  qed
qed

subsection \<open>Counts\<close>

lemma node_rank_ok:
  assumes inv: "zset_inv h zs ns" and len: "length ns < 2 ^ 32" and k: "k < length ns"
  shows "node_rank h (zs_zsl zs) (e_addr (ns ! k)) = Some (word_of_nat (Suc k))"
proof -
  have hold: "zsl_holds h (zs_zsl zs) ns" and wf: "zsl_wf h (zs_zsl zs) ns" and dist: "distinct (map etext ns)"
    using inv by (simp_all add: zset_inv_def zsl_holds_def)
  have "zslGetRank h (zs_zsl zs) (e_score (ns ! k)) (e_obj (ns ! k)) = Some (word_of_nat (Suc k))"
    by (rule zslGetRank_present [OF hold len dist k]) (simp add: zpair_def)
  then show ?thesis
    using entry_found(1) [OF wf nth_mem [OF k]] by (auto simp: node_rank_def simp del: of_nat_Suc)
qed

text \<open>The difference of the ranks, computed modulo \<open>2 ^ 32\<close>.\<close>

lemma count_difference:
  assumes "a + m + b < 2 ^ 31"
  shows "sint ((ucast ((word_of_nat (a + m + b) :: uint64) - (word_of_nat (Suc a) - 1)) :: uint32) -
    ucast ((word_of_nat (a + m + b) :: uint64) - word_of_nat (a + m))) = int m"
proof -
  have diff: "(word_of_nat (a + m + b) :: uint64) - (word_of_nat (Suc a) - 1) = word_of_nat (m + b)"
    "(word_of_nat (a + m + b) :: uint64) - word_of_nat (a + m) = word_of_nat b"
    by simp_all
  have uc: "(ucast (word_of_nat k :: uint64) :: uint32) = word_of_nat k" if "k < 2 ^ 31" for k
    using that by (simp only: unsigned_of_nat) (simp add: take_bit_nat_eq_self)
  have "m + b < 2 ^ 31" "b < 2 ^ 31" "m < 2 ^ 31"
    using assms by simp_all
  then show ?thesis
    unfolding diff by (simp only: uc) (simp add: signed_of_nat signed_take_bit_int_eq_self)
qed

lemma count_ranks:
  assumes inv: "zset_inv h zs ns" and len: "length ns < 2 ^ 31" and ns: "ns = xs @ ms @ ys" and ne: "ms \<noteq> []"
  shows "do {
      rank \<leftarrow> node_rank h (zs_zsl zs) (e_addr (hd ms));
      rank' \<leftarrow> node_rank h (zs_zsl zs) (e_addr (last ms));
      Some (sint ((ucast ((word_of_nat (z_length (zs_zsl zs)) :: uint64) - (rank - 1)) :: uint32) -
        ucast ((word_of_nat (z_length (zs_zsl zs)) :: uint64) - rank')))
    } = Some (int (length ms))"
proof -
  have z: "z_length (zs_zsl zs) = length xs + length ms + length ys"
    using inv by (simp add: zset_inv_def zsl_holds_def zsl_wf_def ns)
  have len': "length ns < 2 ^ 32"
    using len by simp
  have i: "length xs < length ns" "hd ms = ns ! length xs" "length xs + length ms - 1 < length ns"
      "last ms = ns ! (length xs + length ms - 1)" "Suc (length xs + length ms - 1) = length xs + length ms"
    using ne by (cases ms; auto simp: ns nth_append hd_conv_nth last_conv_nth)+
  have "node_rank h (zs_zsl zs) (e_addr (hd ms)) = Some (word_of_nat (Suc (length xs)))"
    "node_rank h (zs_zsl zs) (e_addr (last ms)) = Some (word_of_nat (length xs + length ms))"
    using node_rank_ok [OF inv len' i(1)] node_rank_ok [OF inv len' i(3)] unfolding i(2,4,5) by blast+
  then show ?thesis
    using count_difference [of "length xs" "length ms" "length ys"] len unfolding z by (simp add: ns del: of_nat_Suc of_nat_add)
qed

context zsl_range
begin

lemma range_count:
  assumes inv: "zset_inv h zs ns" and len: "length ns < 2 ^ 31" and ne: "filter inside ns \<noteq> []"
  shows "do {
      rank \<leftarrow> node_rank h (zs_zsl zs) (e_addr (hd (filter inside ns)));
      rank' \<leftarrow> node_rank h (zs_zsl zs) (e_addr (last (filter inside ns)));
      Some (sint ((ucast ((word_of_nat (z_length (zs_zsl zs)) :: uint64) - (rank - 1)) :: uint32) -
        ucast ((word_of_nat (z_length (zs_zsl zs)) :: uint64) - rank')))
    } = Some (int (length (filter inside ns)))"
proof -
  have sorted: "zsorted ns"
    using inv by (simp add: zset_inv_def zsl_holds_def)
  obtain xs ms ys where s: "ns = xs @ ms @ ys" "filter inside ns = ms"
    by (rule range_split [OF sorted]) blast
  have "ms \<noteq> []"
    using ne s(2) by simp
  from count_ranks [OF inv len s(1) this] show ?thesis
    unfolding s(2) .
qed

end

lemma range_addrs:
  assumes wf: "zsl_wf h z ns" and ne: "filter P ns \<noteq> []"
  shows "0 < e_addr (hd (filter P ns))" "0 < e_addr (last (filter P ns))"
    "(case filter P ns of [] \<Rightarrow> 0 | e # es \<Rightarrow> e_addr e) = e_addr (hd (filter P ns))"
proof -
  have "hd (filter P ns) \<in> set ns" "last (filter P ns) \<in> set ns"
    using hd_in_set [OF ne] last_in_set [OF ne] by simp_all
  then show "0 < e_addr (hd (filter P ns))" "0 < e_addr (last (filter P ns))"
    using entry_found(2) [OF wf] by blast+
  show "(case filter P ns of [] \<Rightarrow> 0 | e # es \<Rightarrow> e_addr e) = e_addr (hd (filter P ns))"
    using ne by (cases "filter P ns") simp_all
qed

lemma zcount_ok:
  assumes inv: "zset_inv h zs ns" and len: "length ns < 2 ^ 31"
  shows "zcount h zs rng = Some (int (length (filter (in_range rng) ns)))"
proof -
  have hold: "zsl_holds h (zs_zsl zs) ns" and wf: "zsl_wf h (zs_zsl zs) ns"
    using inv by (simp_all add: zset_inv_def zsl_holds_def)
  show ?thesis
  proof (cases "filter (in_range rng) ns = []")
    case True
    then show ?thesis
      by (simp add: zcount_def zslFirstInRange_ok [OF hold])
  next
    case False
    have "scores.inside rng = in_range rng"
      by (simp add: in_range_def fun_eq_iff)
    from scores.range_count [OF inv len, of rng, unfolded this, OF False] range_addrs [OF wf False] False show ?thesis
      by (simp add: zcount_def Let_def zslFirstInRange_ok [OF hold] zslLastInRange_ok [OF hold])
  qed
qed

lemma zlexcount_ok:
  assumes inv: "zset_inv h zs ns" and len: "length ns < 2 ^ 31" and same: "same_score ns" and proper: "proper_lex_range rng"
  shows "zlexcount h zs rng = Some (int (length (filter (in_lex_range rng) ns)))"
proof -
  have hold: "zsl_holds h (zs_zsl zs) ns" and wf: "zsl_wf h (zs_zsl zs) ns"
    using inv by (simp_all add: zset_inv_def zsl_holds_def)
  show ?thesis
  proof (cases "filter (in_lex_range rng) ns = []")
    case True
    then show ?thesis
      by (simp add: zlexcount_def zslFirstInLexRange_ok [OF hold same proper])
  next
    case False
    have "(\<lambda>e. zslLexValueGteMin (e_obj e) rng \<and> zslLexValueLteMax (e_obj e) rng) = in_lex_range rng"
      by (simp add: in_lex_range_iff fun_eq_iff)
    from zsl_range.range_count [OF lex_zsl_range [OF same] inv len, of rng, unfolded this, OF False] range_addrs [OF wf False] False
    show ?thesis
      by (simp add: zlexcount_def Let_def zslFirstInLexRange_ok [OF hold same proper] zslLastInLexRange_ok [OF hold same proper])
  qed
qed

end
