(* ===== verification/ZsetRefine.thy ===== *)
theory ZsetRefine
  imports ZsetRange
begin

text \<open>
  The theorems about sorted sets in the skiplist encoding: the commands refine the same commands on
  a sorted list of scores and members, and the range queries select from that list.
\<close>

subsection \<open>Adding several elements\<close>

primrec random_ok :: "nat \<Rightarrow> nat list \<Rightarrow> bool" where
  "random_ok 0 rs = True"
| "random_ok (Suc n) rs = (case zslRandomLevel rs of None \<Rightarrow> False | Some (level, rs') \<Rightarrow> random_ok n rs')"

lemma random_ok_iff: "random_ok (Suc n) rs \<longleftrightarrow> (\<exists>level rs'. zslRandomLevel rs = Some (level, rs') \<and> random_ok n rs')"
  by (auto split: option.splits)

declare random_ok.simps(2) [simp del]

lemma random_ok_Suc: "random_ok (Suc n) rs \<Longrightarrow> random_ok n rs"
proof (induction n arbitrary: rs)
  case (Suc n)
  then obtain level rs' where "zslRandomLevel rs = Some (level, rs')" "random_ok (Suc n) rs'"
    using random_ok_iff by blast
  with Suc.IH show ?case
    using random_ok_iff by blast
qed simp

lemma random_ok_tail: "random_ok (Suc n) rs \<Longrightarrow> random_tail rs rs' \<Longrightarrow> random_ok n rs'"
  using random_ok_Suc [of n rs] by (auto simp: random_tail_def random_ok_iff)

fun zadd_all_spec :: "('s \<Rightarrow> 's \<Rightarrow> 's option) \<Rightarrow> bool \<Rightarrow> ('s :: linorder \<times> char list) list \<Rightarrow> 's zpair list \<Rightarrow>
    's \<Rightarrow> nat \<Rightarrow> nat \<Rightarrow> 's zpair list \<times> 's option \<times> nat \<times> nat" where
  "zadd_all_spec plus_score incr [] ps score added updated = (ps, Some score, added, updated)"
| "zadd_all_spec plus_score incr ((s, t) # es) ps score added updated =
     (let (ps, status, score) = zadd_spec plus_score incr s t ps
      in case status of
           Zadd_Nan \<Rightarrow> (ps, None, added, updated)
         | Zadd_Added \<Rightarrow> zadd_all_spec plus_score incr es ps score (added + 1) updated
         | Zadd_Updated \<Rightarrow> zadd_all_spec plus_score incr es ps score added (updated + 1)
         | Zadd_Unchanged \<Rightarrow> zadd_all_spec plus_score incr es ps score added updated)"

lemma zput_length: "length (zput p ps) \<le> Suc (length ps)"
proof -
  have "length (takeWhile P qs) + length (dropWhile P qs) = length qs" for P and qs :: "'a zpair list"
    by (metis length_append takeWhile_dropWhile_id)
  then show ?thesis
    by (simp add: zput_def Let_def)
qed

lemma zadd_spec_length: "length (fst (zadd_spec plus_score incr score t ps)) \<le> Suc (length ps)"
  using zput_length by (auto simp: zadd_spec_def split: option.split)

lemma zadd_elements_ok:
  assumes "zset_inv h zs ns" and "random_ok (length es) rs" and "length ns + length es \<le> 2 ^ 59"
  shows "\<exists>h' zs' ns' rs'. zadd_elements can plus_score incr h zs rs es score added updated =
      Some (h', zs', rs', snd (zadd_all_spec plus_score incr (map (apsnd key_string) es) (map zpair ns) score added updated)) \<and>
    zset_evolves h zs ns h' zs' ns' \<and>
    map zpair ns' = fst (zadd_all_spec plus_score incr (map (apsnd key_string) es) (map zpair ns) score added updated)"
  using assms
proof (induction es arbitrary: h zs ns rs score added updated)
  case Nil
  then show ?case
    using zset_evolves_refl by fastforce
next
  case (Cons a es)
  obtain s ele where a: "a = (s, ele)"
    by (cases a)
  let ?spec = "zadd_spec plus_score incr s (key_string ele) (map zpair ns)"
  have rnd: "zslRandomLevel rs \<noteq> None" and sz: "length ns \<le> 2 ^ 59"
    using Cons.prems(2,3) by (auto simp: random_ok_iff)
  obtain h1 zs1 ns1 rs1 where one: "zadd_element can plus_score incr h zs rs s ele = Some (h1, zs1, rs1, snd ?spec)"
      "random_tail rs rs1" "zset_evolves h zs ns h1 zs1 ns1" "map zpair ns1 = fst ?spec"
    using zadd_element_ok [OF Cons.prems(1) rnd sz] by blast
  have inv: "zset_inv h1 zs1 ns1"
    using one(3) by (simp add: zset_evolves_def)
  have ok: "random_ok (length es) rs1"
    using random_ok_tail [OF _ one(2)] Cons.prems(2) by simp
  have "length ns1 \<le> Suc (length ns)"
    using zadd_spec_length [of plus_score incr s "key_string ele" "map zpair ns"] arg_cong [OF one(4), of length] by simp
  then have "length ns1 + length es \<le> 2 ^ 59"
    using Cons.prems(3) by simp
  note IH = Cons.IH [OF inv ok this]
  obtain ps status sc where spec: "?spec = (ps, status, sc)"
    by (cases ?spec)
  have ps: "map zpair ns1 = ps"
    using one(4) spec by simp
  show ?case
  proof (cases status)
    case Zadd_Nan
    then show ?thesis
      using one(1,3) spec ps by (auto simp: a)
  next
    case Zadd_Added
    then show ?thesis
      using one(1) spec IH [of sc "added + 1" updated] zset_evolves_trans [OF one(3)] unfolding ps by (fastforce simp: a)
  next
    case Zadd_Updated
    then show ?thesis
      using one(1) spec IH [of sc added "updated + 1"] zset_evolves_trans [OF one(3)] unfolding ps by (fastforce simp: a)
  next
    case Zadd_Unchanged
    then show ?thesis
      using one(1) spec IH [of sc added updated] zset_evolves_trans [OF one(3)] unfolding ps by (fastforce simp: a)
  qed
qed

subsection \<open>Scores and ranks\<close>

lemma zscore_ok:
  assumes inv: "zset_inv h zs ns"
  shows "\<exists>zs'. zscore h zs ele = Some (zs', zscore_of (map zpair ns) (key_string ele)) \<and> zset_evolves h zs ns h zs' ns"
  using inv
proof (cases rule: zset_find [where ele = ele])
  case (absent d)
  with zset_evolves_dict [OF inv absent(2)] show ?thesis
    by (simp add: zscore_def)
next
  case (present d e x)
  with zset_evolves_dict [OF inv present(2)] show ?thesis
    by (simp add: zscore_def)
qed

text \<open>The 0-based position of a member.\<close>

definition zrank_of :: "'s zpair list \<Rightarrow> bool \<Rightarrow> char list \<Rightarrow> nat option" where
  "zrank_of ps reverse t =
     (if t \<in> snd ` set ps
      then Some (let k = length (takeWhile (\<lambda>q. snd q \<noteq> t) ps) in if reverse then length ps - Suc k else k)
      else None)"

lemma entry_position:
  assumes "e \<in> set ns" and "distinct (map etext ns)"
  defines "k \<equiv> length (takeWhile (\<lambda>q. snd q \<noteq> etext e) (map zpair ns))"
  shows "k < length ns" and "ns ! k = e"
proof -
  have k: "k = length (takeWhile (\<lambda>f. etext f \<noteq> etext e) ns)"
    by (simp add: k_def takeWhile_map comp_def zpair_def)
  have "takeWhile (\<lambda>f. etext f \<noteq> etext e) ns \<noteq> ns"
    using assms(1) by (metis (mono_tags, lifting) takeWhile_eq_all_conv)
  then show lt: "k < length ns"
    unfolding k by (metis length_takeWhile_le nat_less_le take_all takeWhile_eq_take order_refl)
  have "etext (ns ! k) = etext e"
    using nth_length_takeWhile [of "\<lambda>f. etext f \<noteq> etext e" ns] lt by (simp add: k)
  then show "ns ! k = e"
    using assms(1,2) lt by (metis (no_types, lifting) distinct_map inj_onD nth_mem)
qed

lemma zrank_ok:
  assumes inv: "zset_inv h zs ns" and len: "length ns < 2 ^ 32"
  shows "\<exists>zs'. zrank h zs reverse ele = Some (zs', map_option word_of_nat (zrank_of (map zpair ns) reverse (key_string ele))) \<and>
    zset_evolves h zs ns h zs' ns"
  using inv
proof (cases rule: zset_find [where ele = ele])
  case (absent d)
  then have "zrank_of (map zpair ns) reverse (key_string ele) = None"
    by (auto simp: zrank_of_def zpair_def image_iff)
  with absent zset_evolves_dict [OF inv absent(2)] show ?thesis
    by (simp add: zrank_def)
next
  case (present d e x)
  have hold: "zsl_holds h (zs_zsl zs) ns" and dist: "distinct (map etext ns)" and zl: "z_length (zs_zsl zs) = length ns"
    using inv by (simp_all add: zset_inv_def zsl_holds_def zsl_wf_def)
  define k where "k = length (takeWhile (\<lambda>q. snd q \<noteq> key_string ele) (map zpair ns))"
  note pos = entry_position [OF present(3) dist, unfolded present(4), folded k_def]
  have pe: "zpair (ns ! k) = (e_score e, key_string ele)"
    using pos(2) present(4) by (simp add: zpair_def)
  have rank: "zslGetRank h (zs_zsl zs) (e_score e) ele = Some (word_of_nat (Suc k))"
    by (rule zslGetRank_present [OF hold len dist pos(1) pe])
  have "unat (word_of_nat (Suc k) :: uint64) = Suc k"
    using pos(1) len by (intro unat_rank) linarith
  then have nz: "(word_of_nat (Suc k) :: uint64) \<noteq> 0"
    by (metis nat.distinct(1) unsigned_0)
  have ll: "(ucast (zsetLength zs) :: uint64) = word_of_nat (length ns)"
    using len by (simp add: zsetLength_def zl) (simp only: unsigned_of_nat, simp add: take_bit_nat_eq_self)
  have "(word_of_nat (length ns) :: uint64) - word_of_nat (Suc k) = word_of_nat (length ns - Suc k)"
    using pos(1) by (simp add: of_nat_diff)
  moreover have "zrank_of (map zpair ns) reverse (key_string ele) = Some (if reverse then length ns - Suc k else k)"
    using pe pos(1) nth_mem [OF pos(1)] by (auto simp: zrank_of_def k_def [symmetric] Let_def image_iff intro!: bexI [of _ "ns ! k"])
  ultimately show ?thesis
    using present rank nz ll zset_evolves_dict [OF inv present(2)] by (auto simp: zrank_def)
qed

subsection \<open>The refinement\<close>

datatype 's zset_op =
    Zset_Add bool "('s \<times> str_key) list" "nat list"
  | Zset_Rem "str_key list"
  | Zset_Remrange "'s zrangetype"
  | Zset_Score str_key
  | Zset_Rank bool str_key

datatype 's zset_reply =
    Reply_Add "'s option" nat nat
  | Reply_Rem nat bool
  | Reply_Score "'s option"
  | Reply_Rank "nat option"

fun zset_step :: "bool \<Rightarrow> ('s \<Rightarrow> 's \<Rightarrow> 's option) \<Rightarrow> 's :: {linorder, zero} zset_op \<Rightarrow> 's zheap \<times> zset \<Rightarrow>
    (('s zheap \<times> zset) \<times> 's zset_reply) option" where
  "zset_step can plus_score (Zset_Add incr es rs) (h, zs) =
     do {
       (h, zs, rs, score, added, updated) \<leftarrow> zadd_elements can plus_score incr h zs rs es 0 0 0;
       Some ((h, zs), Reply_Add score added updated)
     }"
| "zset_step can plus_score (Zset_Rem es) (h, zs) =
     do { (h, zs, deleted, emptied) \<leftarrow> zrem_elements can h zs es 0; Some ((h, zs), Reply_Rem deleted emptied) }"
| "zset_step can plus_score (Zset_Remrange rng) (h, zs) =
     do { (h, zs, deleted, emptied) \<leftarrow> zremrange can h zs rng; Some ((h, zs), Reply_Rem (unat deleted) emptied) }"
| "zset_step can plus_score (Zset_Score ele) (h, zs) =
     do { (zs, score) \<leftarrow> zscore h zs ele; Some ((h, zs), Reply_Score score) }"
| "zset_step can plus_score (Zset_Rank reverse ele) (h, zs) =
     do { (zs, rank) \<leftarrow> zrank h zs reverse ele; Some ((h, zs), Reply_Rank (map_option unat rank)) }"

fun zset_spec :: "('s \<Rightarrow> 's \<Rightarrow> 's option) \<Rightarrow> 's :: {linorder, zero} zset_op \<Rightarrow> 's zpair list \<Rightarrow> 's zpair list \<times> 's zset_reply" where
  "zset_spec plus_score (Zset_Add incr es rs) ps =
     (let (ps, score, added, updated) = zadd_all_spec plus_score incr (map (apsnd key_string) es) ps 0 0 0
      in (ps, Reply_Add score added updated))"
| "zset_spec plus_score (Zset_Rem es) ps =
     (let (ps, deleted, emptied) = zrem_spec (map key_string es) ps 0 in (ps, Reply_Rem deleted emptied))"
| "zset_spec plus_score (Zset_Remrange rng) ps =
     (let (ps, deleted, emptied) = zremrange_spec rng ps in (ps, Reply_Rem deleted emptied))"
| "zset_spec plus_score (Zset_Score ele) ps = (ps, Reply_Score (zscore_of ps (key_string ele)))"
| "zset_spec plus_score (Zset_Rank reverse ele) ps = (ps, Reply_Rank (zrank_of ps reverse (key_string ele)))"

text \<open>
  The random numbers must end every loop of \<^verbatim>\<open>zslRandomLevel\<close>, the set has fewer than \<open>2 ^ 32 - 1\<close>
  elements, and ranges of members are only used when all scores are the same.
\<close>

fun zset_valid :: "'s zset_op \<Rightarrow> 's zpair list \<Rightarrow> bool" where
  "zset_valid (Zset_Add incr es rs) ps = (random_ok (length es) rs \<and> length ps + length es < 2 ^ 32 - 1)"
| "zset_valid (Zset_Remrange (Zrange_Lex rng)) ps = (length ps < 2 ^ 32 - 1 \<and> (\<forall>p \<in> set ps. fst p = fst (hd ps)))"
| "zset_valid op ps = (length ps < 2 ^ 32 - 1)"

definition zset_rel :: "'s :: linorder zheap \<Rightarrow> zset \<Rightarrow> 's zentry list \<Rightarrow> 's zheap \<times> zset \<Rightarrow> 's zpair list \<Rightarrow> bool" where
  "zset_rel h0 zs0 ns0 s ps \<longleftrightarrow> (\<exists>ns. zset_evolves h0 zs0 ns0 (fst s) (snd s) ns \<and> map zpair ns = ps)"

lemma removed_bound: "fst (snd (zremrange_spec rng ps)) \<le> length ps"
proof (cases rng)
  case (Zrange_Rank start end1)
  show ?thesis
  proof (cases "index_range (length ps) start end1")
    case (Some se)
    then show ?thesis
      using index_range_bounds [of "length ps" start end1] by (cases se) (auto simp: Zrange_Rank Let_def)
  qed (simp add: Zrange_Rank)
qed (simp_all add: Let_def)

lemma rank_bound: "zrank_of ps reverse t = Some k \<Longrightarrow> k \<le> length ps"
  using length_takeWhile_le [of "\<lambda>q. snd q \<noteq> t" ps] by (auto simp: zrank_of_def Let_def split: if_splits)

lemma unat_nat: "n < 2 ^ 32 \<Longrightarrow> unat (word_of_nat n :: uint64) = n"
  by (rule unat_rank)

lemma zset_step_sim:
  assumes rel: "zset_rel h0 zs0 ns0 s ps" and valid: "zset_valid op ps"
  shows "\<exists>s'. zset_step can plus_score op s = Some (s', snd (zset_spec plus_score op ps)) \<and>
    zset_rel h0 zs0 ns0 s' (fst (zset_spec plus_score op ps))"
proof -
  obtain h zs where s: "s = (h, zs)"
    by (cases s)
  obtain ns where evo: "zset_evolves h0 zs0 ns0 h zs ns" and ps: "ps = map zpair ns"
    using rel by (auto simp: zset_rel_def s)
  have inv: "zset_inv h zs ns"
    using evo by (simp add: zset_evolves_def)
  have rel': "zset_rel h0 zs0 ns0 (h', zs') ps'" if "zset_evolves h zs ns h' zs' ns'" "map zpair ns' = ps'" for h' zs' ns' ps'
    using zset_evolves_trans [OF evo that(1)] that(2) by (auto simp: zset_rel_def)
  have len: "length ns < 2 ^ 32 - 1"
    using valid by (cases "(op, ps)" rule: zset_valid.cases) (auto simp: ps)
  then have len32: "length ns < 2 ^ 32" and len56: "length ns < 2 ^ 56"
    by simp_all
  show ?thesis
  proof (cases op)
    case (Zset_Add incr es rs)
    have "random_ok (length es) rs" "length ns + length es \<le> 2 ^ 59"
      using valid by (simp_all add: Zset_Add ps)
    from zadd_elements_ok [OF inv this, of can plus_score incr 0 0 0] rel' show ?thesis
      by (fastforce simp: s Zset_Add ps case_prod_beta)
  next
    case (Zset_Rem es)
    from zrem_elements_ok [OF inv len56, of can es 0] rel' show ?thesis
      by (fastforce simp: s Zset_Rem ps case_prod_beta)
  next
    case (Zset_Remrange rng)
    have same: "same_score ns" if "rng = Zrange_Lex r" for r
      using valid that by (auto simp: Zset_Remrange ps same_score_def zpair_def)
    have "unat (word_of_nat (fst (snd (zremrange_spec rng ps))) :: uint64) = fst (snd (zremrange_spec rng ps))"
      using removed_bound [of rng ps] len32 by (intro unat_nat) (simp add: ps)
    with zremrange_ok [OF inv len same, where rng = rng and can = can] rel' show ?thesis
      by (fastforce simp: s Zset_Remrange ps case_prod_beta)
  next
    case (Zset_Score ele)
    from zscore_ok [OF inv, of ele] rel' show ?thesis
      by (fastforce simp: s Zset_Score ps)
  next
    case (Zset_Rank reverse ele)
    have "map_option unat (map_option (word_of_nat :: nat \<Rightarrow> uint64) (zrank_of ps reverse (key_string ele))) =
        zrank_of ps reverse (key_string ele)"
      using rank_bound [of ps reverse "key_string ele"] len32 unat_nat
      by (cases "zrank_of ps reverse (key_string ele)") (auto simp: ps)
    with zrank_ok [OF inv len32, of reverse ele] rel' show ?thesis
      by (fastforce simp: s Zset_Rank ps)
  qed
qed

interpretation zsetsim: simulation "zset_rel h0 zs0 ns0" "zset_step can plus_score" "zset_spec plus_score" zset_valid
  for h0 zs0 ns0 can plus_score
  by unfold_locales (rule zset_step_sim)

text \<open>The removal of several members in closed form.\<close>

lemma zrem_spec_closed:
  assumes "distinct (map snd ps)"
  defines "qs \<equiv> \<lambda>ts. filter (\<lambda>q. snd q \<notin> set ts) ps"
  shows "zrem_spec ts ps n = (qs ts, n + (length ps - length (qs ts)), qs ts = [] \<and> ps \<noteq> [])"
  using assms(1) unfolding qs_def
proof (induction ts arbitrary: ps n)
  case Nil
  then show ?case
    by simp
next
  case (Cons t ts)
  define rs where "rs = filter (\<lambda>q. snd q \<noteq> t) ps"
  have rest: "filter (\<lambda>q. snd q \<notin> set (t # ts)) ps = filter (\<lambda>q. snd q \<notin> set ts) rs"
    by (simp add: rs_def conj_commute)
  show ?case
  proof (cases "t \<in> snd ` set ps")
    case True
    then obtain p where p: "p \<in> set ps" "snd p = t"
      by auto
    then obtain xs ys where ps: "ps = xs @ p # ys"
      by (meson split_list)
    have "t \<notin> snd ` set xs" "t \<notin> snd ` set ys"
      using Cons.prems p(2) unfolding ps by auto
    then have "filter (\<lambda>q. snd q \<noteq> t) xs = xs" "filter (\<lambda>q. snd q \<noteq> t) ys = ys"
      by (intro filter_True ballI; metis imageI)+
    then have len: "length ps = Suc (length rs)"
      using p(2) by (simp add: rs_def ps)
    have "distinct (map snd rs)"
      using Cons.prems by (simp add: rs_def distinct_map_filter)
    note IH = Cons.IH [OF this, of "n + 1"]
    define fs where "fs = filter (\<lambda>q. snd q \<notin> set ts) rs"
    have "length fs \<le> length rs" "rs = [] \<Longrightarrow> fs = []"
      by (simp_all add: fs_def)
    then show ?thesis
      using True IH len unfolding rest fs_def [symmetric] by (auto simp: rs_def [symmetric] Let_def)
  next
    case False
    then have "rs = ps"
      unfolding rs_def by (intro filter_True) (metis imageI)
    then show ?thesis
      using False Cons.IH [OF Cons.prems] unfolding rest by simp
  qed
qed

subsection \<open>The theorems\<close>


text \<open>A run on a new set of integer scores.\<close>

definition ex_plus :: "int \<Rightarrow> int \<Rightarrow> int option" where
  "ex_plus a b = Some (a + b)"

definition ex_zset_ops :: "int zset_op list" where
  "ex_zset_ops =
     [Zset_Add False [(2, SdsKey ''c''), (7, SdsKey ''x''), (2, SdsKey ''a'')] [3, 16384, 20000, 9, 65535],
      Zset_Add True [(5, SdsKey ''a'')] [30000],
      Zset_Rank False (SdsKey ''x''),
      Zset_Remrange (Zrange_Score \<lparr>range_min = 2, range_max = 7, minex = False, maxex = True\<rparr>),
      Zset_Score (SdsKey ''a''),
      Zset_Rem [SdsKey ''q'', SdsKey ''x'']]"

definition ex_zset_replies :: "int zset_reply list" where
  "ex_zset_replies =
     [Reply_Add (Some 2) 3 0, Reply_Add (Some 7) 0 1, Reply_Rank (Some 2), Reply_Rem 1 False, Reply_Score (Some 7), Reply_Rem 1 False]"

lemma ex_zset_run:
  "valid_ops (zset_spec ex_plus) zset_valid ex_zset_ops []"
  "spec_ops (zset_spec ex_plus) ex_zset_ops [] = ([(7, ''a'')], ex_zset_replies)"
  by (simp_all add: ex_zset_ops_def ex_zset_replies_def ex_plus_def zp_less_def zslRandomLevel_def ZSKIPLIST_MAXLEVEL_def Let_def ex_keys
      zadd_spec_def zscore_of_def zput_def zrank_of_def pair_in_range_def zslValueGteMin_def zslValueLteMax_def random_ok.simps)
    auto


text \<open>A set of three elements with the same score.\<close>

lemma ex_zset:
  obtains h zs ns where "zset_inv (h :: int zheap) zs ns" and "map zpair ns = [(1, ''a''), (1, ''b''), (1, ''x'')]"
proof -
  let ?ops = "[Zset_Add False [(1, SdsKey ''x''), (1, SdsKey ''a''), (1, SdsKey ''b'')] [20000, 3, 20000, 30000]] :: int zset_op list"
  obtain h zs where "zset_inv (h :: int zheap) zs []"
    using createZset_ok [OF empty_heap_wf, of 5381] by blast
  then have rel: "zset_rel h zs [] (h, zs) []"
    using zset_evolves_refl by (fastforce simp: zset_rel_def)
  have "valid_ops (zset_spec ex_plus) zset_valid ?ops []"
    by (simp add: random_ok.simps zslRandomLevel_def ZSKIPLIST_MAXLEVEL_def)
  moreover have "fst (spec_ops (zset_spec ex_plus) ?ops []) = [(1, ''a''), (1, ''b''), (1, ''x'')]"
    by (simp add: zadd_spec_def zscore_of_def zput_def zp_less_def ex_keys)
  ultimately show ?thesis
    using zsetsim.run_sim [OF rel, of ex_plus ?ops True] that by (fastforce simp: zset_rel_def zset_evolves_def simp del: zset_step.simps)
qed



text \<open>
  C14: the range queries on a set of fewer than \<open>2 ^ 31\<close> elements. ZRANGE and ZREVRANGE return the
  elements between two indexes, negative ones counted from the end, and fail no assertion.
  ZRANGEBYSCORE and ZREVRANGEBYSCORE return the elements with scores in the range, in the order of the
  direction, after the offset and up to the limit. ZCOUNT returns how many there are, although it only
  subtracts two ranks.
\<close>

theorem zset_ranges_correct:
  assumes "zset_inv h zs ns" and "length ns < 2 ^ 31"
  shows "zrange h zs reverse start end1 =
           Some (case index_range (length ns) start end1 of
               None \<Rightarrow> []
             | Some (s, e) \<Rightarrow> map item (take (Suc e - s) (drop s (directed reverse ns)))) \<and>
         genericZrangebyscore h zs reverse rng offset limit =
           Some (map item (take_limit limit (drop_offset offset (directed reverse (filter (in_range rng) ns))))) \<and>
         zcount h zs rng = Some (int (length (filter (in_range rng) ns)))"
proof -
  have "zsl_holds h (zs_zsl zs) ns"
    using assms(1) by (simp add: zset_inv_def)
  from zrange_ok [OF assms] genericZrangebyscore_ok [OF this] zcount_ok [OF assms] show ?thesis
    by blast
qed

theorem zset_ranges_correct_witness:
  "\<exists>h zs a b x. zset_inv (h :: int zheap) zs [a, b, x] \<and>
     zrange h zs True (-2) 5 = Some [item b, item a] \<and>
     genericZrangebyscore h zs False \<lparr>range_min = 1, range_max = 2, minex = False, maxex = True\<rparr> 1 (-1) = Some [item b, item x] \<and>
     zcount h zs \<lparr>range_min = 1, range_max = 1, minex = False, maxex = False\<rparr> = Some 3"
proof (rule ex_zset)
  fix h :: "int zheap" and zs ns
  assume inv: "zset_inv h zs ns" and "map zpair ns = [(1, ''a''), (1, ''b''), (1, ''x'')]"
  then obtain a b x where ns: "ns = [a, b, x]" "e_score a = 1" "e_score b = 1" "e_score x = 1"
    by (auto simp: zpair_def)
  have "zrange h zs True (-2) 5 = Some [item b, item a]"
    using zset_ranges_correct [OF inv, of True "-2" 5 undefined 0 0] ns by (simp add: index_range_def)
  moreover have "genericZrangebyscore h zs False \<lparr>range_min = 1, range_max = 2, minex = False, maxex = True\<rparr> 1 (-1) = Some [item b, item x]"
    using zset_ranges_correct [OF inv, of False 0 0 "\<lparr>range_min = 1, range_max = 2, minex = False, maxex = True\<rparr>" 1 "-1"] ns
    by (simp add: take_limit_def drop_offset_def in_range_def zslValueGteMin_def zslValueLteMax_def)
  moreover have "zcount h zs \<lparr>range_min = 1, range_max = 1, minex = False, maxex = False\<rparr> = Some 3"
    using zset_ranges_correct [OF inv, of False 0 0 "\<lparr>range_min = 1, range_max = 1, minex = False, maxex = False\<rparr>" 0 0] ns
    by (simp add: in_range_def zslValueGteMin_def zslValueLteMax_def)
  ultimately show ?thesis
    using inv ns(1) by (intro exI [of _ h] exI [of _ zs] exI [of _ a] exI [of _ b] exI [of _ x]) simp
qed



text \<open>
  The range from the lowest member to the member before \<^verbatim>\<open>minstring\<close> is taken to be empty, because the
  quick test compares the text of the shared object that stands for the lowest bound.
\<close>

theorem zslIsInLexRange_minstring:
  assumes "zslParseLexRange (SdsKey ''-'') (SdsKey ''(minstring'') = Some rng"
  shows "zslIsInLexRange h z rng = Some False \<and>
    (\<forall>e. in_lex_range rng e \<longleftrightarrow> text_less (etext e) ''minstring'')"
proof -
  have "rng = \<lparr>lex_min = Minstring, lex_max = Lex_Obj (SdsKey ''minstring''), lex_minex = False, lex_maxex = True\<rparr>"
    using assms by (simp add: zslParseLexRange_def zslParseLexRangeItem_def)
  then show ?thesis
    by (simp add: zslIsInLexRange_def compare_keys_sign in_lex_range_def ex_keys)
qed

end
