(* ===== verification/Spec2Isabelle.thy ===== *)
theory Spec2Isabelle
  imports DictProps DictScan DictIter DictRandom IntsetProps AdlistProps ZsetRefine
begin

text \<open>
  A verification development for the data structures of the Redis 3.0 server, the program in
  \<^verbatim>\<open>src/redis-3.0/src\<close>: the dictionaries in which the server keeps its databases, sets, hashes and
  sorted sets, the dynamic strings and string objects it stores in them, the integer sets, the
  doubly linked lists, and the skiplists of sorted sets with what the commands on sorted sets do to
  them.

  \<^bold>\<open>Parts of the program.\<close> Everything rests on strings: \<^verbatim>\<open>sds.c\<close> implements them, \<^verbatim>\<open>util.c\<close> converts them to
  and from numbers, and \<^verbatim>\<open>object.c\<close> wraps them in reference-counted objects with three encodings.
  \<^verbatim>\<open>dict.c\<close> implements hash tables that move their entries to a new table one bucket at a time;
  \<^verbatim>\<open>redis.c\<close> defines the types of dictionaries the server uses, whose keys are strings or string
  objects, and resizes them from time to time. \<^verbatim>\<open>intset.c\<close> and \<^verbatim>\<open>adlist.c\<close> stand on their own.
  \<^verbatim>\<open>t_zset.c\<close> keeps a sorted set as a dictionary from members to scores beside a skiplist.

  \<^bold>\<open>Conventions.\<close> An operation is a function on the state of its structure; \<^term>\<open>None\<close> is undefined
  behaviour (an access outside a block, through a null or dangling pointer, or to memory not yet
  written, a signed overflow), a failed assertion or a panic. That an operation returns
  \<^term>\<open>Some\<close> value is therefore its safety. Pointers are addresses, 0 the null pointer. The
  allocator does not fail. The numbers of \<^verbatim>\<open>random()\<close> and the readings of the clock are arguments.
  The destructors and \<^verbatim>\<open>free\<close> methods that are called are recorded in lists. Loops whose end has to be
  proved are partial functions, and the theorems about them state that they return.

  \<^bold>\<open>Theories.\<close>

  \<^item> \<open>Prelude\<close>, \<open>Memory\<close>, \<open>Heap\<close>: the integer types, checked arrays, blocks of bytes, and the heap of
    nodes. The locale \<open>simulation\<close> lifts the simulation of single operations to runs; it is
    interpreted for the linked lists, the skiplists and the sorted sets.

  \<^item> \<open>Util\<close> (\<^verbatim>\<open>util.c\<close>): \<^verbatim>\<open>string2ll\<close> accepts exactly what \<^verbatim>\<open>ll2string\<close> prints.

  \<^item> \<open>Sds\<close>, \<open>SdsText\<close> (\<^verbatim>\<open>sds.c\<close>, \<^verbatim>\<open>sds.h\<close>): the record \<open>sds\<close> is the header with its buffer, and each function
    has a definition of its name. \<open>SdsProps\<close>, \<open>SdsEdit\<close>, \<open>SdsSplit\<close>: each function keeps \<open>sds_wf\<close> and
    changes the text as documented; sequences of edits refine edits of plain texts; splitting and
    joining, and quoting and parsing, are inverse. The locale \<open>text_buffer\<close> is the interface for
    functions that only append.

  \<^item> \<open>Object\<close>, \<open>ObjectProps\<close> (\<^verbatim>\<open>object.c\<close>): a store of objects. Encoding, decoding and comparison
    depend on the text alone, references are neither lost nor dropped, integers round-trip.

  \<^item> \<open>Dict\<close> (\<^verbatim>\<open>dict.c\<close>, \<^verbatim>\<open>dict.h\<close>): the records \<open>dict\<close> and \<open>dictht\<close> and all operations. A chain of entries is the
    list of its entries with their addresses. \<open>DictInv\<close>: the invariant, the locale \<open>dict_type\<close> with
    the laws of a dictionary type, and rehashing. \<open>DictMap\<close>, \<open>DictProps\<close>: every operation acts on
    \<open>dict_map\<close> as on a finite map, also in the middle of a rehash, and so does every sequence.
    \<open>DictTypes\<close> (\<^verbatim>\<open>dict.c\<close>, \<^verbatim>\<open>redis.c\<close>): the hash functions and types of the server, with an
    interpretation of \<open>dict_type\<close> for each type that satisfies the laws; the case-insensitive ones do
    so only for keys without nul bytes.

  \<^item> \<open>DictScan\<close>: the cursor of \<^verbatim>\<open>dictScan\<close> runs through all buckets and ends, and which entries are met when
    the tables change between calls. \<open>DictIter\<close>: safe and unsafe iterators. \<open>DictRandom\<close>: random
    entries, and the functions of \<^verbatim>\<open>redis.c\<close> that resize and rehash databases.

  \<^item> \<open>Intset\<close>, \<open>IntsetProps\<close> (\<^verbatim>\<open>intset.c\<close>): the sorted array on the level of bytes refines a set of integers,
    by the locale \<open>int_set_impl\<close>.

  \<^item> \<open>Adlist\<close>, \<open>AdlistProps\<close> (\<^verbatim>\<open>adlist.c\<close>): lists on a shared heap refine plain lists and do not
    touch the nodes of other lists; iteration, duplication and release.

  \<^item> \<open>Zskiplist\<close> (\<^verbatim>\<open>t_zset.c\<close>, first part): nodes with levels, forward pointers and spans. One pair of functions,
    \<open>zsl_walk\<close> and \<open>zsl_descend\<close>, stands for the search loops that the code repeats. \<open>ZskiplistProps\<close>,
    \<open>ZskiplistDelete\<close>, \<open>ZskiplistOps\<close>: the representation \<open>zsl_wf\<close> of a list by chains of all levels and its
    preservation by insertion and deletion. \<open>ZskiplistQuery\<close>, \<open>ZskiplistLex\<close>: ranks and ranges of
    scores and of members, with the locale \<open>zsl_range\<close> for a range of a sorted list.
    \<open>ZskiplistRefine\<close>: the theorems.

  \<^item> \<open>Zset\<close>, \<open>ZsetRange\<close> (\<^verbatim>\<open>t_zset.c\<close>, the commands): the changes and queries on the pair of dictionary
    and skiplist. \<open>ZsetProps\<close>, \<open>ZsetRem\<close>: the invariant \<open>zset_inv\<close>, that both hold the same elements, is kept.
    \<open>ZsetRefine\<close>: runs of commands refine runs on sorted lists, and queries select from them.

  \<^bold>\<open>Bounds.\<close> Dictionaries have at most \<open>2 ^ 59\<close> entries, fewer than \<open>2 ^ 56\<close> where they are resized, so that table
    sizes fit 64 bits; iterators and random selection need tables of fewer than \<open>2 ^ 31\<close> buckets, because
    the code converts sizes to \<^verbatim>\<open>int\<close> or \<^verbatim>\<open>random()\<close> returns 31 bits. Strings have at most \<open>SDS_LIMIT\<close> bytes,
    above the 512 MB of the server. Integer sets have at most \<open>2 ^ 28\<close> elements, so that their bytes can be
    counted in 32 bits. Sorted sets have fewer than \<open>2 ^ 32 - 1\<close> elements for the changes, which is what 32-bit spans
    can count, and fewer than \<open>2 ^ 31\<close> for the range queries, whose lengths are of type \<^verbatim>\<open>int\<close>. A list of
    random numbers must be long enough for the loop that reads it to end.

  \<^bold>\<open>Abstractions.\<close> Scores are of any linear order, for the doubles other than NaN with both zeros
    identified; the sum of two scores is a parameter that may give no number. In dictionaries and sorted
    sets a string object is its text and encoding, without the reference count. Words are stored with
    the least significant byte first. The output of \<^verbatim>\<open>vsnprintf\<close> is an argument.

  \<^bold>\<open>Not modelled.\<close> Of the files above: conversions to and from floating point (so also \<^verbatim>\<open>zslParseRange\<close>),
    the objects other than strings, the lookup of keys, replies and notifications of the
    commands on sorted sets, \<^verbatim>\<open>ZUNIONSTORE\<close>, \<^verbatim>\<open>ZINTERSTORE\<close>, and the encoding of small sorted sets as
    ziplists. Of the server: the ziplists and zipmaps; the other commands, which work on the client, its
    buffers and the replication state; the event loop, networking, persistence, replication, cluster, sentinel
    and scripting, which are input and output, protocols between processes and calls into other programs.
    The other programs of the repository are independent of this one.
\<close>

end
